(* ===== verification/Prelude.thy ===== *)
theory Prelude
  imports Main "HOL-Library.AList" "HOL-Library.Word"
begin

text \<open>
  Shared vocabulary of the development: Go maps as association lists, instants and
  durations as integers, results with errors as sums, the byte-string helpers of the
  Go standard library the program calls, and the lemma collections the component
  theories use.

  A Go map is an association list with distinct keys. \<^term>\<open>length m\<close> is \<open>len(m)\<close>; the
  order of the list is the order in which a \<open>range\<close> over the map visits its entries,
  which Go leaves unspecified, so facts proved for every list with distinct keys hold
  for every visiting order. A Go string is its list of bytes.
\<close>

section \<open>Time and results\<close>

type_synonym time = int \<comment> \<open>\<open>time.Time\<close>: nanoseconds on the server's time line\<close>
type_synonym duration = int \<comment> \<open>\<open>time.Duration\<close>: nanoseconds\<close>

abbreviation after :: "time \<Rightarrow> time \<Rightarrow> bool" where
  "after t u \<equiv> u < t"

abbreviation before :: "time \<Rightarrow> time \<Rightarrow> bool" where
  "before t u \<equiv> t < u"

definition second :: duration where
  "second = 1000000000"

definition minute :: duration where
  "minute = 60 * second"

type_synonym ('e, 'a) result = "'e + 'a"

section \<open>Go maps\<close>

type_synonym ('k, 'v) gomap = "('k \<times> 'v) list"

abbreviation gkeys :: "('k, 'v) gomap \<Rightarrow> 'k set" where
  "gkeys m \<equiv> fst ` set m"

abbreviation gok :: "('k, 'v) gomap \<Rightarrow> bool" where
  "gok m \<equiv> distinct (map fst m)"

abbreviation gget :: "('k, 'v) gomap \<Rightarrow> 'k \<Rightarrow> 'v option" where
  "gget m k \<equiv> map_of m k"

abbreviation gset :: "'k \<Rightarrow> 'v \<Rightarrow> ('k, 'v) gomap \<Rightarrow> ('k, 'v) gomap" where
  "gset k v m \<equiv> AList.update k v m"

abbreviation gdel :: "'k \<Rightarrow> ('k, 'v) gomap \<Rightarrow> ('k, 'v) gomap" where
  "gdel k m \<equiv> AList.delete k m"

text \<open>\<open>for k, v := range m { if P(k, v) { delete(m, k) } }\<close> keeps the other entries.\<close>

definition gsweep :: "('k \<Rightarrow> 'v \<Rightarrow> bool) \<Rightarrow> ('k, 'v) gomap \<Rightarrow> ('k, 'v) gomap" where
  "gsweep P m = filter (\<lambda>e. \<not> P (fst e) (snd e)) m"

text \<open>The keys such a loop deletes, in visiting order.\<close>

definition gswept :: "('k \<Rightarrow> 'v \<Rightarrow> bool) \<Rightarrow> ('k, 'v) gomap \<Rightarrow> 'k list" where
  "gswept P m = map fst (filter (\<lambda>e. P (fst e) (snd e)) m)"

named_theorems gomap_facts "facts about Go maps that simp and auto take"

lemma gok_gset [simp]: "gok m \<Longrightarrow> gok (gset k v m)"
  by (rule distinct_update)

lemma gok_gdel [simp]: "gok m \<Longrightarrow> gok (gdel k m)"
  by (rule distinct_delete)

lemma gok_filter [simp]: "gok m \<Longrightarrow> gok (filter P m)"
  by (induction m) auto

lemma gok_gsweep [simp]: "gok m \<Longrightarrow> gok (gsweep P m)"
  by (simp add: gsweep_def)

lemma gget_gset [simp]: "gget (gset k v m) k' = (if k' = k then Some v else gget m k')"
  by (simp add: update_conv')

lemma gget_gdel [simp]: "gget (gdel k m) k' = (if k' = k then None else gget m k')"
  by (simp add: delete_conv')

lemma gkeys_gset [simp]: "gkeys (gset k v m) = insert k (gkeys m)"
  by (induction m) auto

lemma gkeys_gdel [simp]: "gkeys (gdel k m) = gkeys m - {k}"
  by (induction m) auto

lemma gget_None: "gget m k = None \<longleftrightarrow> k \<notin> gkeys m"
  by (rule map_of_eq_None_iff)

lemma gget_not_None: "gget m k \<noteq> None \<longleftrightarrow> k \<in> gkeys m"
  by (metis gget_None)

lemma gget_SomeD: "gget m k = Some v \<Longrightarrow> (k, v) \<in> set m"
  by (rule map_of_SomeD)

lemma gget_in_keys: "gget m k = Some v \<Longrightarrow> k \<in> gkeys m"
  by (force dest: map_of_SomeD)

lemma gkeys_gget: "k \<in> gkeys m \<Longrightarrow> \<exists>v. gget m k = Some v"
  by (metis gget_None not_Some_eq)

lemma gget_mem: "gok m \<Longrightarrow> (k, v) \<in> set m \<Longrightarrow> gget m k = Some v"
  by simp

lemma gok_eq: "gok m \<Longrightarrow> (k, v) \<in> set m \<Longrightarrow> (k, w) \<in> set m \<Longrightarrow> v = w"
  by (metis eq_key_imp_eq_value)

lemma gget_gsweep:
  "gok m \<Longrightarrow> gget (gsweep P m) k =
     (case gget m k of None \<Rightarrow> None | Some v \<Rightarrow> if P k v then None else Some v)"
proof (induction m)
  case Nil
  then show ?case by (simp add: gsweep_def)
next
  case (Cons e m)
  then show ?case
    by (cases e) (auto simp: gsweep_def map_of_eq_None_iff image_iff split: option.splits)
qed

lemma gkeys_gsweep: "gkeys (gsweep P m) = fst ` {e \<in> set m. \<not> P (fst e) (snd e)}"
  by (simp add: gsweep_def set_filter)

lemma gkeys_gsweep_sub: "gkeys (gsweep P m) \<subseteq> gkeys m"
  by (auto simp: gsweep_def)

lemma set_gsweep: "set (gsweep P m) = {e \<in> set m. \<not> P (fst e) (snd e)}"
  by (auto simp: gsweep_def)

lemma set_gswept: "set (gswept P m) = fst ` {e \<in> set m. P (fst e) (snd e)}"
  by (simp add: gswept_def)

lemma length_gsweep: "length (gsweep P m) \<le> length m"
  by (simp add: gsweep_def)

lemma length_sweep_swept: "length (gsweep P m) + length (gswept P m) = length m"
  by (induction m) (auto simp: gsweep_def gswept_def)

lemma gset_new: "k \<notin> gkeys m \<Longrightarrow> gset k v m = m @ [(k, v)]"
  by (induction m) auto

lemma map_fst_gset_old: "k \<in> gkeys m \<Longrightarrow> map fst (gset k v m) = map fst m"
  by (induction m) auto

lemma length_gset: "length (gset k v m) = (if k \<in> gkeys m then length m else Suc (length m))"
proof (cases "k \<in> gkeys m")
  case True
  then have "length (map fst (gset k v m)) = length (map fst m)"
    by (simp only: map_fst_gset_old)
  with True show ?thesis by simp
qed (simp add: gset_new)

lemma length_gdel_le: "length (gdel k m) \<le> length m"
  by (simp add: AList.delete_eq)

lemma gdel_id: "k \<notin> gkeys m \<Longrightarrow> gdel k m = m"
  by (induction m) auto

lemma length_gdel: "gok m \<Longrightarrow> length (gdel k m) = (if k \<in> gkeys m then length m - 1 else length m)"
proof (induction m)
  case Nil
  then show ?case by simp
next
  case (Cons e m)
  show ?case
  proof (cases "k = fst e")
    case True
    with Cons.prems have "k \<notin> gkeys m" by auto
    with True show ?thesis by (cases e) (simp add: gdel_id)
  next
    case False
    have "k \<in> gkeys m \<Longrightarrow> 0 < length m" by auto
    with False Cons show ?thesis by (cases e) auto
  qed
qed

lemma set_gset: "gok m \<Longrightarrow> set (gset k v m) = insert (k, v) {e \<in> set m. fst e \<noteq> k}"
proof (induction m)
  case Nil
  then show ?case by simp
next
  case (Cons e m)
  then show ?case by (cases e) (force split: if_splits)
qed

lemma set_gdel: "set (gdel k m) = {e \<in> set m. fst e \<noteq> k}"
  by (auto simp: AList.delete_eq)

text \<open>Counting entries through an update, a deletion and a sweep.\<close>

abbreviation gcount :: "('k \<Rightarrow> 'v \<Rightarrow> bool) \<Rightarrow> ('k, 'v) gomap \<Rightarrow> nat" where
  "gcount Q m \<equiv> length (filter (\<lambda>e. Q (fst e) (snd e)) m)"

lemma gcount_new: "k \<notin> gkeys m \<Longrightarrow> gcount Q (gset k v m) = gcount Q m + (if Q k v then 1 else 0)"
  by (simp add: gset_new)

lemma gcount_set:
  "gok m \<Longrightarrow> gget m k = Some old \<Longrightarrow>
   gcount Q (gset k v m) + (if Q k old then 1 else 0) = gcount Q m + (if Q k v then 1 else 0)"
proof (induction m)
  case (Cons e m)
  then show ?case by (cases e) (auto split: if_splits)
qed simp

lemma gcount_del:
  "gok m \<Longrightarrow> gget m k = Some old \<Longrightarrow> gcount Q (gdel k m) + (if Q k old then 1 else 0) = gcount Q m"
proof (induction m)
  case (Cons e m)
  then show ?case by (cases e) (auto simp: gdel_id split: if_splits)
qed simp

lemma gcount_sweep: "gcount Q (gsweep P m) + gcount (\<lambda>k v. P k v \<and> Q k v) m = gcount Q m"
  by (induction m) (auto simp: gsweep_def)

lemma gcount_pos: "gget m k = Some v \<Longrightarrow> Q k v \<Longrightarrow> 1 \<le> gcount Q m"
  by (induction m) (auto split: if_splits)

lemmas [gomap_facts] =
  gget_gsweep gkeys_gsweep set_gsweep set_gswept length_gset length_gdel set_gset set_gdel gget_None

section \<open>FIFO indexes\<close>

text \<open>
  Two components keep a map together with the insertion order of its keys, so that the
  oldest entries can be dropped first: the order enumerates the keys of the map.
\<close>

definition fifo_inv :: "string list \<Rightarrow> (string, 'v) gomap \<Rightarrow> bool" where
  "fifo_inv order spent \<longleftrightarrow> gok spent \<and> distinct order \<and> set order = gkeys spent"

lemma fifo_length: "fifo_inv order spent \<Longrightarrow> length spent = length order"
  by (metis distinct_card fifo_inv_def length_map set_map)

lemma fifo_tail:
  "fifo_inv (x # xs) spent \<Longrightarrow> fifo_inv xs (gdel x spent)"
  by (auto simp: fifo_inv_def)

lemma fifo_get: "fifo_inv order spent \<Longrightarrow> k \<notin> set order \<Longrightarrow> gget spent k = None"
  by (metis gget_None fifo_inv_def)

text \<open>What a loop that drops entries from the head of the order while they are stale keeps.\<close>

lemma dropWhile_keeps: "x \<in> set xs \<Longrightarrow> \<not> P x \<Longrightarrow> x \<in> set (dropWhile P xs)"
  by (induction xs) auto

section \<open>Byte strings\<close>

text \<open>\<open>strings.HasPrefix\<close>, \<open>HasSuffix\<close>, \<open>TrimPrefix\<close>, \<open>TrimSuffix\<close>, \<open>TrimRight\<close> with a
  one-byte cutset, and the ASCII part of \<open>ToLower\<close> and \<open>EqualFold\<close>.\<close>

fun has_prefix :: "string \<Rightarrow> string \<Rightarrow> bool" where
  "has_prefix s [] = True"
| "has_prefix [] (p # ps) = False"
| "has_prefix (c # cs) (p # ps) = (c = p \<and> has_prefix cs ps)"

definition has_suffix :: "string \<Rightarrow> string \<Rightarrow> bool" where
  "has_suffix s p = has_prefix (rev s) (rev p)"

definition trim_prefix :: "string \<Rightarrow> string \<Rightarrow> string" where
  "trim_prefix s p = (if has_prefix s p then drop (length p) s else s)"

definition trim_suffix :: "string \<Rightarrow> string \<Rightarrow> string" where
  "trim_suffix s p = (if has_suffix s p then take (length s - length p) s else s)"

definition trim_right :: "char \<Rightarrow> string \<Rightarrow> string" where
  "trim_right c s = rev (dropWhile (\<lambda>x. x = c) (rev s))"

definition trim_left :: "char \<Rightarrow> string \<Rightarrow> string" where
  "trim_left c s = dropWhile (\<lambda>x. x = c) s"

definition is_space :: "char \<Rightarrow> bool" where
  "is_space c \<longleftrightarrow> c \<in> {CHR 0x09, CHR 0x0A, CHR 0x0B, CHR 0x0C, CHR 0x0D, CHR 0x20}"

definition trim_space :: "string \<Rightarrow> string" where
  "trim_space s = rev (dropWhile is_space (rev (dropWhile is_space s)))"

definition code_of :: "char \<Rightarrow> nat" where
  "code_of c = of_char c"

definition lower_char :: "char \<Rightarrow> char" where
  "lower_char c = (if 65 \<le> code_of c \<and> code_of c \<le> 90 then char_of (code_of c + 32) else c)"

definition to_lower :: "string \<Rightarrow> string" where
  "to_lower = map lower_char"

definition equal_fold :: "string \<Rightarrow> string \<Rightarrow> bool" where
  "equal_fold s t \<longleftrightarrow> to_lower s = to_lower t"

lemma has_prefix_iff: "has_prefix s p \<longleftrightarrow> (\<exists>r. s = p @ r)"
  by (induction s p rule: has_prefix.induct) auto

lemma has_suffix_iff: "has_suffix s p \<longleftrightarrow> (\<exists>r. s = r @ p)"
  unfolding has_suffix_def has_prefix_iff
  by (metis rev_append rev_rev_ident)

lemma has_prefix_append [simp]: "has_prefix (p @ s) p"
  by (auto simp: has_prefix_iff)

lemma trim_prefix_append [simp]: "trim_prefix (p @ s) p = s"
  by (simp add: trim_prefix_def)

lemma equal_fold_refl [simp]: "equal_fold s s"
  by (simp add: equal_fold_def)

lemma equal_fold_sym: "equal_fold s t \<longleftrightarrow> equal_fold t s"
  by (auto simp: equal_fold_def)

lemma equal_fold_trans: "equal_fold s t \<Longrightarrow> equal_fold t u \<Longrightarrow> equal_fold s u"
  by (simp add: equal_fold_def)

end
