(* ===== verification/Encodings.thy ===== *)
theory Encodings
  imports Prelude
begin

text \<open>
  The textual encodings of the Go standard library the program uses: decimal numerals
  (\<open>strconv.FormatInt\<close>, \<open>ParseInt\<close>), base64 in the standard padded and the raw URL form
  (\<open>encoding/base64\<close>, not strict, line breaks skipped), UTF-8 as \<open>unicode/utf8\<close> reads it, and
  the query escaping of \<open>net/url\<close>. Each comes with the law the components use.
\<close>

section \<open>Decimal numerals\<close>

definition dec_char :: "nat \<Rightarrow> char" where
  "dec_char d = char_of (48 + d)"

definition is_dec :: "char \<Rightarrow> bool" where
  "is_dec c \<longleftrightarrow> 48 \<le> code_of c \<and> code_of c \<le> 57"

fun dec_digits :: "nat \<Rightarrow> string" where
  "dec_digits n = (if n < 10 then [dec_char n] else dec_digits (n div 10) @ [dec_char (n mod 10)])"

declare dec_digits.simps [simp del]

definition format_int :: "int \<Rightarrow> string" where
  "format_int k = (if k < 0 then CHR ''-'' # dec_digits (nat (- k)) else dec_digits (nat k))"

definition dec_number :: "string \<Rightarrow> nat" where
  "dec_number s = foldl (\<lambda>v c. v * 10 + (code_of c - 48)) 0 s"

text \<open>\<open>strconv.ParseInt(s, 10, 64)\<close>; \<open>None\<close> stands for a syntax or a range error.\<close>

definition parse_int64 :: "string \<Rightarrow> int option" where
  "parse_int64 s =
     (let neg = (case s of [] \<Rightarrow> False | c # r \<Rightarrow> c = CHR ''-'');
          ds = (case s of [] \<Rightarrow> [] | c # r \<Rightarrow> if c = CHR ''-'' \<or> c = CHR ''+'' then r else s);
          k = (if neg then - int (dec_number ds) else int (dec_number ds))
      in if ds = [] \<or> \<not> list_all is_dec ds then None
         else if k < - (2 ^ 63) \<or> 2 ^ 63 \<le> k then None else Some k)"

lemma dec_char_code: "d < 10 \<Longrightarrow> code_of (dec_char d) = 48 + d"
  by (simp add: code_of_def dec_char_def)

lemma dec_char_is_dec [simp]: "d < 10 \<Longrightarrow> is_dec (dec_char d)"
  by (simp add: is_dec_def dec_char_code)

lemma dec_digits_all: "list_all is_dec (dec_digits n)"
proof (induction n rule: dec_digits.induct)
  case (1 n)
  then show ?case by (subst dec_digits.simps) simp
qed

lemma dec_digits_nonempty: "dec_digits n \<noteq> []"
  by (subst dec_digits.simps) simp

lemma dec_number_digits: "dec_number (dec_digits n) = n"
proof (induction n rule: dec_digits.induct)
  case (1 n)
  show ?case
  proof (cases "n < 10")
    case True
    then show ?thesis by (subst dec_digits.simps) (simp add: dec_number_def dec_char_code)
  next
    case False
    then have "dec_number (dec_digits (n div 10) @ [dec_char (n mod 10)]) = n div 10 * 10 + n mod 10"
      using 1 by (simp add: dec_number_def dec_char_code)
    then show ?thesis using False by (subst dec_digits.simps) simp
  qed
qed

lemma is_dec_no_sign: "is_dec c \<Longrightarrow> c \<noteq> CHR ''-'' \<and> c \<noteq> CHR ''+''"
  by (auto simp: is_dec_def code_of_def)

lemma format_parse_int: "- (2 ^ 63) \<le> k \<Longrightarrow> k < 2 ^ 63 \<Longrightarrow> parse_int64 (format_int k) = Some k"
proof -
  assume r: "- (2 ^ 63) \<le> k" "k < 2 ^ 63"
  show ?thesis
  proof (cases "k < 0")
    case True
    then show ?thesis using r dec_digits_all dec_digits_nonempty
      by (simp add: parse_int64_def format_int_def Let_def dec_number_digits)
  next
    case False
    obtain c cs where d: "dec_digits (nat k) = c # cs"
      using dec_digits_nonempty [of "nat k"] by (cases "dec_digits (nat k)") auto
    then have "is_dec c" "list_all is_dec (c # cs)" using dec_digits_all [of "nat k"] by simp_all
    then show ?thesis using r False dec_number_digits [of "nat k"] is_dec_no_sign [of c]
      by (simp add: parse_int64_def format_int_def Let_def d)
  qed
qed

section \<open>Base64\<close>

datatype alphabet = StdAlphabet | URLAlphabet

fun b64_char :: "alphabet \<Rightarrow> nat \<Rightarrow> char" where
  "b64_char al n =
     (if n < 26 then char_of (65 + n) else if n < 52 then char_of (97 + (n - 26))
      else if n < 62 then char_of (48 + (n - 52))
      else if n = 62 then (case al of StdAlphabet \<Rightarrow> CHR ''+'' | URLAlphabet \<Rightarrow> CHR ''-'')
      else (case al of StdAlphabet \<Rightarrow> CHR ''/'' | URLAlphabet \<Rightarrow> CHR ''_''))"

definition b64_value :: "alphabet \<Rightarrow> char \<Rightarrow> nat option" where
  "b64_value al c =
     (let n = code_of c in
      if 65 \<le> n \<and> n \<le> 90 then Some (n - 65)
      else if 97 \<le> n \<and> n \<le> 122 then Some (n - 71)
      else if 48 \<le> n \<and> n \<le> 57 then Some (n + 4)
      else if c = (case al of StdAlphabet \<Rightarrow> CHR ''+'' | URLAlphabet \<Rightarrow> CHR ''-'') then Some 62
      else if c = (case al of StdAlphabet \<Rightarrow> CHR ''/'' | URLAlphabet \<Rightarrow> CHR ''_'') then Some 63
      else None)"

declare b64_char.simps [simp del]

lemma code_of_char [simp]: "code_of (char_of n) = n mod 256"
  by (simp add: code_of_def)

lemma b64_value_char: "n < 64 \<Longrightarrow> b64_value al (b64_char al n) = Some n"
proof -
  assume "n < 64"
  then consider "n < 26" | "26 \<le> n" "n < 52" | "52 \<le> n" "n < 62" | "n = 62" | "n = 63" by linarith
  then show ?thesis
    by cases (auto simp: b64_value_def b64_char.simps code_of_def Let_def split: alphabet.split)
qed

lemma b64_char_special: "n < 64 \<Longrightarrow> c \<in> {CHR ''='', CHR 0x0A, CHR 0x0D, CHR ''.'', CHR '',''} \<Longrightarrow> b64_char al n \<noteq> c"
proof
  assume n: "n < 64" and c: "c \<in> {CHR ''='', CHR 0x0A, CHR 0x0D, CHR ''.'', CHR '',''}" and e: "b64_char al n = c"
  have "b64_value al c = Some n" using b64_value_char [OF n, of al] unfolding e .
  moreover have "b64_value al c = None"
    using c by (cases al) (auto simp: b64_value_def code_of_def)
  ultimately show False by simp
qed

lemmas b64_char_neq = b64_char_special b64_char_special [THEN not_sym]

text \<open>The bytes of a quantum from the values of its characters, and back.\<close>

definition byte1 :: "nat \<Rightarrow> nat \<Rightarrow> char" where "byte1 a b = char_of (a * 4 + b div 16)"
definition byte2 :: "nat \<Rightarrow> nat \<Rightarrow> char" where "byte2 b c = char_of (b mod 16 * 16 + c div 4)"
definition byte3 :: "nat \<Rightarrow> nat \<Rightarrow> char" where "byte3 c d = char_of (c mod 4 * 64 + d)"

definition quad1 :: "char \<Rightarrow> nat" where "quad1 a = code_of a div 4"
definition quad2 :: "char \<Rightarrow> nat \<Rightarrow> nat" where "quad2 a b = code_of a mod 4 * 16 + b div 16"
definition quad3 :: "nat \<Rightarrow> nat \<Rightarrow> nat" where "quad3 b c = b mod 16 * 4 + c div 64"
definition quad4 :: "nat \<Rightarrow> nat" where "quad4 c = c mod 64"

lemma code_of_less: "code_of c < 256"
  unfolding code_of_def by (simp add: nat_of_char_less_256)

lemma char_of_code [simp]: "char_of (code_of c) = c"
  by (simp add: code_of_def)

lemma quads_small [simp]:
  "quad1 a < 64" "b < 256 \<Longrightarrow> quad2 a b < 64" "c < 256 \<Longrightarrow> quad3 b c < 64" "quad4 c < 64"
  "quad2 a (code_of x) < 64" "quad3 b (code_of x) < 64"
  using code_of_less [of a] code_of_less [of x]
  by (simp_all add: quad1_def quad2_def quad3_def quad4_def)

lemma bytes_quads [simp]:
  "b < 256 \<Longrightarrow> byte1 (quad1 a) (quad2 a b) = a"
  "c < 256 \<Longrightarrow> byte2 (quad2 a (code_of x)) (quad3 (code_of x) c) = x"
  "byte3 (quad3 b (code_of y)) (quad4 (code_of y)) = y"
proof -
  have *: "code_of a div 4 * 4 + (code_of a mod 4 * 16 + b div 16) div 16 = code_of a" if "b < 256" for b
    using that by simp
  show "byte1 (quad1 a) (quad2 a b) = a" if "b < 256"
    unfolding byte1_def quad1_def quad2_def * [OF that] by simp
  have **: "(code_of a mod 4 * 16 + code_of x div 16) mod 16 * 16 + (code_of x mod 16 * 4 + c div 64) div 4 = code_of x"
    if "c < 256"
    using that code_of_less [of x] by simp
  show "byte2 (quad2 a (code_of x)) (quad3 (code_of x) c) = x" if "c < 256"
    unfolding byte2_def quad3_def quad2_def ** [OF that] by simp
  have ***: "(b mod 16 * 4 + code_of y div 64) mod 4 * 64 + code_of y mod 64 = code_of y"
    using code_of_less [of y] by (simp add: mod_add_right_eq)
  show "byte3 (quad3 b (code_of y)) (quad4 (code_of y)) = y"
    unfolding byte3_def quad3_def quad4_def *** by simp
qed

text \<open>\<open>EncodeToString\<close>: the last quantum is padded in the standard form only.\<close>

fun b64_encode :: "alphabet \<Rightarrow> string \<Rightarrow> string" where
  "b64_encode al [] = []"
| "b64_encode al [a] =
     [b64_char al (quad1 a), b64_char al (quad2 a 0)]
     @ (case al of StdAlphabet \<Rightarrow> [CHR ''='', CHR ''=''] | URLAlphabet \<Rightarrow> [])"
| "b64_encode al [a, b] =
     [b64_char al (quad1 a), b64_char al (quad2 a (code_of b)), b64_char al (quad3 (code_of b) 0)]
     @ (case al of StdAlphabet \<Rightarrow> [CHR ''=''] | URLAlphabet \<Rightarrow> [])"
| "b64_encode al (a # b # c # r) =
     [b64_char al (quad1 a), b64_char al (quad2 a (code_of b)),
      b64_char al (quad3 (code_of b) (code_of c)), b64_char al (quad4 (code_of c))] @ b64_encode al r"

definition no_breaks :: "string \<Rightarrow> string" where
  "no_breaks s = filter (\<lambda>c. c \<noteq> CHR 0x0A \<and> c \<noteq> CHR 0x0D) s"

text \<open>\<open>RawURLEncoding.DecodeString\<close>, once the line breaks are skipped.\<close>

fun raw_quanta :: "string \<Rightarrow> string option" where
  "raw_quanta [] = Some []"
| "raw_quanta [a] = None"
| "raw_quanta [a, b] =
     (case (b64_value URLAlphabet a, b64_value URLAlphabet b) of
        (Some x, Some y) \<Rightarrow> Some [byte1 x y] | _ \<Rightarrow> None)"
| "raw_quanta [a, b, c] =
     (case (b64_value URLAlphabet a, b64_value URLAlphabet b, b64_value URLAlphabet c) of
        (Some x, Some y, Some z) \<Rightarrow> Some [byte1 x y, byte2 y z] | _ \<Rightarrow> None)"
| "raw_quanta (a # b # c # d # r) =
     (case (b64_value URLAlphabet a, b64_value URLAlphabet b, b64_value URLAlphabet c, b64_value URLAlphabet d) of
        (Some x, Some y, Some z, Some w) \<Rightarrow>
          map_option (\<lambda>bs. byte1 x y # byte2 y z # byte3 z w # bs) (raw_quanta r)
      | _ \<Rightarrow> None)"

definition raw_url_decode :: "string \<Rightarrow> string option" where
  "raw_url_decode s = raw_quanta (no_breaks s)"

text \<open>
  \<open>StdEncoding.Decode\<close> of whole quanta without line breaks: the bytes written, and whether
  the input was corrupt. Padding is taken in the last quantum only.
\<close>

fun std_quanta :: "string \<Rightarrow> string \<times> bool" where
  "std_quanta (a # b # c # d # r) =
     (case (b64_value StdAlphabet a, b64_value StdAlphabet b) of
        (Some x, Some y) \<Rightarrow>
          (if c = CHR ''='' then (if d = CHR ''='' then ([byte1 x y], r \<noteq> []) else ([], True))
           else (case b64_value StdAlphabet c of
              None \<Rightarrow> ([], True)
            | Some z \<Rightarrow>
                if d = CHR ''='' then ([byte1 x y, byte2 y z], r \<noteq> [])
                else (case b64_value StdAlphabet d of
                   None \<Rightarrow> ([], True)
                 | Some w \<Rightarrow> (case std_quanta r of (bs, bad) \<Rightarrow> (byte1 x y # byte2 y z # byte3 z w # bs, bad)))))
      | _ \<Rightarrow> ([], True))"
| "std_quanta s = ([], s \<noteq> [])"

lemma no_breaks_encode: "no_breaks (b64_encode al s) = b64_encode al s"
proof -
  have "\<forall>c \<in> set (b64_encode al s). c \<noteq> CHR 0x0A \<and> c \<noteq> CHR 0x0D"
    by (induction al s rule: b64_encode.induct)
      (auto simp: b64_char_neq code_of_less split: alphabet.splits)
  then show ?thesis unfolding no_breaks_def by (simp add: filter_id_conv)
qed

lemma raw_roundtrip: "raw_url_decode (b64_encode URLAlphabet s) = Some s"
  unfolding raw_url_decode_def no_breaks_encode
  by (induction URLAlphabet s rule: b64_encode.induct)
    (simp_all add: b64_value_char code_of_less)

lemma raw_no_dot: "CHR ''.'' \<notin> set (b64_encode URLAlphabet s)"
  by (induction URLAlphabet s rule: b64_encode.induct)
    (auto simp: b64_char_neq code_of_less)

lemma std_roundtrip: "std_quanta (b64_encode StdAlphabet s) = (s, False)"
  by (induction StdAlphabet s rule: b64_encode.induct)
    (simp_all add: b64_value_char code_of_less b64_char_special)

section \<open>UTF-8\<close>

definition cont :: "char \<Rightarrow> bool" where
  "cont c \<longleftrightarrow> 128 \<le> code_of c \<and> code_of c \<le> 191"

text \<open>The length of the well-formed code point at the start of a string, 0 if there is none.\<close>

definition rune_len :: "string \<Rightarrow> nat" where
  "rune_len s =
     (case s of
        [] \<Rightarrow> 0
      | c0 # r0 \<Rightarrow>
          let n = code_of c0 in
          if n < 128 then 1
          else (case r0 of
             [] \<Rightarrow> 0
           | c1 # r1 \<Rightarrow>
               if 194 \<le> n \<and> n \<le> 223 then (if cont c1 then 2 else 0)
               else (case r1 of
                  [] \<Rightarrow> 0
                | c2 # r2 \<Rightarrow>
                    if 224 \<le> n \<and> n \<le> 239 then
                      (if (if n = 224 then 160 else 128) \<le> code_of c1
                          \<and> code_of c1 \<le> (if n = 237 then 159 else 191) \<and> cont c2 then 3 else 0)
                    else (case r2 of
                       [] \<Rightarrow> 0
                     | c3 # r3 \<Rightarrow>
                         if 240 \<le> n \<and> n \<le> 244
                            \<and> (if n = 240 then 144 else 128) \<le> code_of c1
                            \<and> code_of c1 \<le> (if n = 244 then 143 else 191) \<and> cont c2 \<and> cont c3 then 4 else 0))))"

definition replacement :: string where
  "replacement = [CHR 0xEF, CHR 0xBF, CHR 0xBD]"

lemma rune_len_le: "rune_len s \<le> length s"
  by (auto simp: rune_len_def Let_def split: list.split)

text \<open>What copying a string code point by code point gives: bytes that are not UTF-8 are replaced.\<close>

function to_valid :: "string \<Rightarrow> string" where
  "to_valid s =
     (case s of
        [] \<Rightarrow> []
      | c # r \<Rightarrow>
          if rune_len s = 0 then replacement @ to_valid r
          else take (rune_len s) s @ to_valid (drop (rune_len s) s))"
  by pat_completeness auto
termination
  by (relation "measure length") auto

declare to_valid.simps [simp del]

lemma to_valid_simps [simp]:
  "to_valid [] = []"
  "rune_len (c # r) = 0 \<Longrightarrow> to_valid (c # r) = replacement @ to_valid r"
  "rune_len (c # r) \<noteq> 0 \<Longrightarrow>
   to_valid (c # r) = take (rune_len (c # r)) (c # r) @ to_valid (drop (rune_len (c # r)) (c # r))"
  by (simp_all add: to_valid.simps)

lemma to_valid_nil_iff: "to_valid s = [] \<longleftrightarrow> s = []"
  by (subst to_valid.simps) (auto simp: replacement_def split: list.split)

lemma rune_len_ascii [simp]: "code_of c < 128 \<Longrightarrow> rune_len (c # r) = 1"
  by (simp add: rune_len_def)

lemma to_valid_ascii: "\<forall>c \<in> set s. code_of c < 128 \<Longrightarrow> to_valid s = s"
  by (induction s) simp_all

text \<open>A code point is recognised by its own bytes.\<close>

lemma rune_len_prefix:
  assumes "rune_len s = Suc n"
  shows "rune_len (take (Suc n) s @ t) = Suc n"
proof -
  obtain c0 r0 where s: "s = c0 # r0" using assms by (cases s) (simp_all add: rune_len_def)
  show ?thesis
  proof (cases "code_of c0 < 128")
    case True
    then show ?thesis using assms s by simp
  next
    case a: False
    then obtain c1 r1 where r0: "r0 = c1 # r1" using assms s by (cases r0) (simp_all add: rune_len_def)
    show ?thesis
    proof (cases "194 \<le> code_of c0 \<and> code_of c0 \<le> 223")
      case True
      then show ?thesis using assms a by (auto simp: s r0 rune_len_def split: if_splits)
    next
      case b: False
      then obtain c2 r2 where r1: "r1 = c2 # r2"
        using assms a s r0 by (cases r1) (auto simp: rune_len_def Let_def split: if_splits)
      show ?thesis
      proof (cases "224 \<le> code_of c0 \<and> code_of c0 \<le> 239")
        case True
        then have "rune_len (c0 # c1 # c2 # x) = (if (if code_of c0 = 224 then 160 else 128) \<le> code_of c1
            \<and> code_of c1 \<le> (if code_of c0 = 237 then 159 else 191) \<and> cont c2 then 3 else 0)" for x
          using a b by (simp add: rune_len_def del: not_less)
        then show ?thesis using assms by (cases n) (auto simp: s r0 r1 split: if_splits)
      next
        case c: False
        then obtain c3 r3 where r2: "r2 = c3 # r3"
          using assms a b s r0 r1 by (cases r2) (auto simp: rune_len_def Let_def split: if_splits)
        have "rune_len (c0 # c1 # c2 # c3 # x) = (if 240 \<le> code_of c0 \<and> code_of c0 \<le> 244
             \<and> (if code_of c0 = 240 then 144 else 128) \<le> code_of c1
             \<and> code_of c1 \<le> (if code_of c0 = 244 then 143 else 191) \<and> cont c2 \<and> cont c3 then 4 else 0)" for x
          using a b c unfolding rune_len_def Let_def list.case by (simp only: if_False)
        then show ?thesis using assms by (cases n) (auto simp: s r0 r1 r2 split: if_splits)
      qed
    qed
  qed
qed

section \<open>Query escaping\<close>

definition hex_value :: "char \<Rightarrow> nat option" where
  "hex_value c =
     (let n = code_of c in
      if 48 \<le> n \<and> n \<le> 57 then Some (n - 48)
      else if 97 \<le> n \<and> n \<le> 102 then Some (n - 87)
      else if 65 \<le> n \<and> n \<le> 70 then Some (n - 55)
      else None)"

text \<open>\<open>url.QueryUnescape\<close>; \<open>None\<close> stands for an escape error.\<close>

fun query_unescape :: "string \<Rightarrow> string option" where
  "query_unescape [] = Some []"
| "query_unescape (c # r) =
     (if c = CHR ''%'' then
        (case r of
           a # b # r' \<Rightarrow>
             (case (hex_value a, hex_value b) of
                (Some x, Some y) \<Rightarrow> map_option (\<lambda>s. char_of (x * 16 + y) # s) (query_unescape r')
              | _ \<Rightarrow> None)
         | _ \<Rightarrow> None)
      else map_option (\<lambda>s. (if c = CHR ''+'' then CHR '' '' else c) # s) (query_unescape r))"

end
