(* ===== verification/Ids.thy ===== *)
theory Ids
  imports Encodings
begin

text \<open>
  \<open>session/id.go\<close> and the token functions of the transfer routes: identifiers are the
  hexadecimal form of random bytes, which are an argument.
\<close>

definition hex_digit :: "nat \<Rightarrow> char" where
  "hex_digit d = (if d < 10 then char_of (48 + d) else char_of (87 + d))"

fun hex_encode :: "string \<Rightarrow> string" where
  "hex_encode [] = []"
| "hex_encode (c # r) = hex_digit (code_of c div 16) # hex_digit (code_of c mod 16) # hex_encode r"

definition RandomID :: "(nat \<Rightarrow> string) \<Rightarrow> string" where
  "RandomID rand = hex_encode (take 8 (rand 8))"

definition StrongRandomID :: "(nat \<Rightarrow> string) \<Rightarrow> string" where
  "StrongRandomID rand = hex_encode (take 16 (rand 16))"

text \<open>The tokens of the one-time transfer routes (\<open>transfer/upload_http.go\<close>, \<open>transfer/download_http.go\<close>).\<close>

definition newHTTPToken :: "(nat \<Rightarrow> string) \<Rightarrow> string" where
  "newHTTPToken rand = hex_encode (take 16 (rand 16))"

definition newDownloadToken :: "(nat \<Rightarrow> string) \<Rightarrow> string" where
  "newDownloadToken rand = hex_encode (take 16 (rand 16))"

lemma code_hex:
  assumes "d < 16"
  shows "code_of (hex_digit d) = (if d < 10 then 48 + d else 87 + d)"
proof -
  have "(48 + d) mod 256 = 48 + d" and "(87 + d) mod 256 = 87 + d" using assms by (simp_all only: mod_less)
  then show ?thesis by (simp add: hex_digit_def)
qed

lemma hex_digit_inj:
  assumes "d < 16" and "e < 16" and "hex_digit d = hex_digit e"
  shows "d = e"
proof -
  have "(if d < 10 then 48 + d else 87 + d) = (if e < 10 then 48 + e else 87 + e)"
    using assms(3) by (simp only: code_hex [OF assms(1), symmetric] code_hex [OF assms(2), symmetric])
  then show ?thesis by (cases "d < 10"; cases "e < 10") simp_all
qed

lemma code_less: "code_of c < 256"
  by (simp add: code_of_def)

lemma code_inj: "code_of c = code_of d \<Longrightarrow> c = d"
  by (simp add: code_of_def)

lemma hex_length: "length (hex_encode s) = 2 * length s"
  by (induction s) simp_all

text \<open>Different bytes give different identifiers, made of digits and lower-case letters only.\<close>

theorem hex_encode_inj: "hex_encode s = hex_encode t \<longleftrightarrow> s = t"
proof (induction s arbitrary: t)
  case Nil
  then show ?case by (cases t) simp_all
next
  case (Cons c s)
  note IH = Cons.IH
  show ?case
  proof (cases t)
    case Nil
    then show ?thesis by simp
  next
    case (Cons d u)
    have "c = d" if "hex_digit (code_of c div 16) = hex_digit (code_of d div 16)"
      "hex_digit (code_of c mod 16) = hex_digit (code_of d mod 16)"
    proof -
      have "code_of c div 16 = code_of d div 16"
        using that(1) code_less [of c] code_less [of d] by (intro hex_digit_inj) (simp_all add: less_mult_imp_div_less)
      moreover have "code_of c mod 16 = code_of d mod 16" using that(2) by (intro hex_digit_inj) simp_all
      ultimately show ?thesis by (metis code_inj div_mult_mod_eq)
    qed
    then show ?thesis using IH [of u] by (auto simp: Cons)
  qed
qed

end
