(* ===== verification/Contracts.thy ===== *)
theory Contracts
  imports Prelude
begin

text \<open>
  The interfaces between the components, as locales. \<open>expiring_store\<close> is what the session
  store and the async handle store promise their callers: a lookup answers with the entry
  while it is live and fails for good once it is not. \<open>one_time_tokens\<close> is what the three
  token coordinators (hand-off endpoint, upload, download) promise: a minted token is
  claimed at most once. Each is interpreted on the model of the code in the theory of the
  component that provides it.
\<close>

section \<open>Stores whose entries expire\<close>

locale expiring_store =
  fixes live :: "time \<Rightarrow> 's \<Rightarrow> string \<Rightarrow> 'v option"
    and get :: "time \<Rightarrow> string \<Rightarrow> 's \<Rightarrow> ('e, 'v) result \<times> 's"
    and del :: "string \<Rightarrow> 's \<Rightarrow> 's"
    and inv :: "'s \<Rightarrow> bool"
  assumes get_live: "inv s \<Longrightarrow> live t s k = Some v \<Longrightarrow> fst (get t k s) = Inr v"
    and get_dead: "inv s \<Longrightarrow> live t s k = None \<Longrightarrow> \<exists>e. fst (get t k s) = Inl e"
    and get_frame: "inv s \<Longrightarrow> t \<le> u \<Longrightarrow> live u (snd (get t k s)) k' = live u s k'"
    and get_inv: "inv s \<Longrightarrow> inv (snd (get t k s))"
    and live_mono: "inv s \<Longrightarrow> t \<le> u \<Longrightarrow> live t s k = None \<Longrightarrow> live u s k = None"
    and del_live: "inv s \<Longrightarrow> live t (del k s) k' = (if k' = k then None else live t s k')"
    and del_inv: "inv s \<Longrightarrow> inv (del k s)"
begin

lemma get_Inr_iff: "inv s \<Longrightarrow> fst (get t k s) = Inr v \<longleftrightarrow> live t s k = Some v"
  by (metis get_live get_dead not_None_eq sum.distinct(1) sum.inject(2))

lemma get_again:
  assumes "inv s" and "t \<le> u"
  shows "fst (get u k (snd (get t k' s))) = Inr v \<longleftrightarrow> fst (get u k s) = Inr v"
  using assms by (simp add: get_Inr_iff get_inv get_frame)

lemma get_dead_stays:
  assumes "inv s" and "t \<le> u" and "fst (get t k s) = Inl e"
  shows "\<exists>e'. fst (get u k (snd (get t k s))) = Inl e'"
proof -
  have "live t s k = None"
    using assms(1,3) get_live by (cases "live t s k") fastforce+
  with assms show ?thesis
    by (metis get_dead get_frame get_inv live_mono)
qed

lemma get_deleted: "inv s \<Longrightarrow> \<exists>e. fst (get t k (del k s)) = Inl e"
  by (simp add: get_dead del_live del_inv)

lemma get_after_del_other:
  "inv s \<Longrightarrow> k' \<noteq> k \<Longrightarrow> fst (get t k' (del k s)) = Inr v \<longleftrightarrow> fst (get t k' s) = Inr v"
  by (simp add: get_Inr_iff del_live del_inv)

end

section \<open>Tokens that are claimed at most once\<close>

datatype 'm token_event =
    TClaim time string \<comment> \<open>a claim of a token at an instant\<close>
  | TMint time string 'm \<comment> \<open>a token minted at an instant, with its payload\<close>

text \<open>A run of claims and mints; the result lists the tokens claimed with success.\<close>

fun token_run ::
  "(time \<Rightarrow> string \<Rightarrow> 's \<Rightarrow> 'r option \<times> 's) \<Rightarrow> (time \<Rightarrow> string \<Rightarrow> 'm \<Rightarrow> 's \<Rightarrow> 's) \<Rightarrow>
   'm token_event list \<Rightarrow> 's \<Rightarrow> string list" where
  "token_run cl mi [] s = []"
| "token_run cl mi (TClaim t k # es) s =
     (case cl t k s of (r, s') \<Rightarrow>
        (if r = None then [] else [k]) @ token_run cl mi es s')"
| "token_run cl mi (TMint t k x # es) s = token_run cl mi es (mi t k x s)"

fun mints_of :: "string \<Rightarrow> 'm token_event list \<Rightarrow> nat" where
  "mints_of k [] = 0"
| "mints_of k (TMint t k' x # es) = (if k' = k then 1 else 0) + mints_of k es"
| "mints_of k (TClaim t k' # es) = mints_of k es"

locale one_time_tokens =
  fixes claim :: "time \<Rightarrow> string \<Rightarrow> 's \<Rightarrow> 'r option \<times> 's"
    and mint :: "time \<Rightarrow> string \<Rightarrow> 'm \<Rightarrow> 's \<Rightarrow> 's"
    and pending :: "'s \<Rightarrow> string \<Rightarrow> bool"
    and inv :: "'s \<Rightarrow> bool"
  assumes claim_pending: "inv s \<Longrightarrow> fst (claim t k s) \<noteq> None \<Longrightarrow> pending s k"
    and claim_spends: "inv s \<Longrightarrow> fst (claim t k s) \<noteq> None \<Longrightarrow> \<not> pending (snd (claim t k s)) k"
    and claim_frame: "inv s \<Longrightarrow> pending (snd (claim t k s)) k' \<Longrightarrow> pending s k'"
    and mint_frame: "inv s \<Longrightarrow> k' \<noteq> k \<Longrightarrow> pending (mint t k x s) k' \<Longrightarrow> pending s k'"
    and claim_inv: "inv s \<Longrightarrow> inv (snd (claim t k s))"
    and mint_inv: "inv s \<Longrightarrow> inv (mint t k x s)"
begin

lemma claim_dead: "inv s \<Longrightarrow> \<not> pending s k \<Longrightarrow> fst (claim t k s) = None"
  using claim_pending by blast

lemma token_run_bound:
  "inv s \<Longrightarrow>
   count_list (token_run claim mint es s) k \<le> mints_of k es + (if pending s k then 1 else 0)"
proof (induction es arbitrary: s)
  case Nil
  then show ?case by simp
next
  case (Cons e es)
  show ?case
  proof (cases e)
    case (TClaim t k')
    obtain r s' where c: "claim t k' s = (r, s')" by fastforce
    have IH: "count_list (token_run claim mint es s') k
        \<le> mints_of k es + (if pending s' k then 1 else 0)"
      using Cons.IH claim_inv [OF Cons.prems, of t k'] c by simp
    have frame: "pending s' k \<Longrightarrow> pending s k"
      using claim_frame [OF Cons.prems, of t k'] c by simp
    have spent: "r \<noteq> None \<Longrightarrow> pending s k' \<and> \<not> pending s' k'"
      using claim_pending [OF Cons.prems, of t k'] claim_spends [OF Cons.prems, of t k'] c
      by simp
    show ?thesis using IH frame spent TClaim c by (auto split: if_splits)
  next
    case (TMint t k' x)
    have IH: "count_list (token_run claim mint es (mint t k' x s)) k
        \<le> mints_of k es + (if pending (mint t k' x s) k then 1 else 0)"
      using Cons.IH mint_inv [OF Cons.prems] by blast
    show ?thesis using IH TMint mint_frame [OF Cons.prems, of k k' t x]
      by (auto split: if_splits)
  qed
qed

text \<open>A token minted once, fresh at the start, is claimed at most once.\<close>

lemma claimed_at_most_once:
  "inv s \<Longrightarrow> \<not> pending s k \<Longrightarrow> mints_of k es \<le> 1 \<Longrightarrow>
   count_list (token_run claim mint es s) k \<le> 1"
  using token_run_bound [of s es k] by simp

end

end
