(* ===== verification/SessionStore.thy ===== *)
theory SessionStore
  imports Contracts
begin

text \<open>
  \<open>session/session.go\<close>: the TTL-bounded, capacity-bounded store of wizard sessions and
  the step that advances a wizard. The state machine of a session is
  \<open>github.com/looplab/fsm\<close>, which is not part of the repository: the definitions that
  use it take its two operations, \<open>cur\<close> (Current) and \<open>fire\<close> (Event), as arguments.
  Step handlers and schema functions are names interpreted by an argument, because they
  are closures of the embedding application.
\<close>

definition DefaultSessionTTL :: duration where
  "DefaultSessionTTL = 30 * minute"

definition DefaultMaxSessions :: int where
  "DefaultMaxSessions = 100"

datatype session_error = ErrSessionNotFound | ErrSessionExpired | ErrSessionStoreFull

record ('h, 'g) step_def =
  sd_name :: string
  sd_event :: string
  sd_handler :: "'h option"
  sd_schema :: "'g option"

record ('st, 'f, 'h, 'g) session =
  s_id :: string
  s_created :: time
  s_expires :: time
  s_state :: 'st
  s_fsm :: 'f
  s_steps :: "('h, 'g) step_def list"
  s_step_map :: "(string, ('h, 'g) step_def) gomap"

definition sess_State :: "('st, 'f, 'h, 'g) session \<Rightarrow> 'st" where
  "sess_State s = s_state s"

definition SetState :: "'st \<Rightarrow> ('st, 'f, 'h, 'g) session \<Rightarrow> ('st, 'f, 'h, 'g) session" where
  "SetState st s = s\<lparr>s_state := st\<rparr>"

definition CurrentStep ::
  "('f \<Rightarrow> string) \<Rightarrow> ('st, 'f, 'h, 'g) session \<Rightarrow> ('h, 'g) step_def option" where
  "CurrentStep cur s = gget (s_step_map s) (cur (s_fsm s))"

definition NextSchema ::
  "('f \<Rightarrow> string) \<Rightarrow> ('g \<Rightarrow> ('st, 'f, 'h, 'g) session \<Rightarrow> 'sc) \<Rightarrow>
   ('st, 'f, 'h, 'g) session \<Rightarrow> 'sc option" where
  "NextSchema cur schema s =
     (case CurrentStep cur s of
        None \<Rightarrow> None
      | Some step \<Rightarrow> (case sd_schema step of None \<Rightarrow> None | Some g \<Rightarrow> Some (schema g s)))"

definition IsExpired :: "time \<Rightarrow> ('st, 'f, 'h, 'g) session \<Rightarrow> bool" where
  "IsExpired wall s = after wall (s_expires s)"

definition Touch :: "time \<Rightarrow> duration \<Rightarrow> ('st, 'f, 'h, 'g) session \<Rightarrow> ('st, 'f, 'h, 'g) session" where
  "Touch wall ttl s = s\<lparr>s_expires := wall + ttl\<rparr>"

record ('st, 'f, 'h, 'g) session_store =
  ss_sessions :: "(string, ('st, 'f, 'h, 'g) session) gomap"
  ss_ttl :: duration
  ss_max :: int

definition NewSessionStoreWithLimits :: "duration \<Rightarrow> int \<Rightarrow> ('st, 'f, 'h, 'g) session_store" where
  "NewSessionStoreWithLimits ttl mx = \<lparr>ss_sessions = [], ss_ttl = ttl, ss_max = mx\<rparr>"

definition NewSessionStoreWithTTL :: "duration \<Rightarrow> ('st, 'f, 'h, 'g) session_store" where
  "NewSessionStoreWithTTL ttl = \<lparr>ss_sessions = [], ss_ttl = ttl, ss_max = DefaultMaxSessions\<rparr>"

definition NewSessionStore :: "('st, 'f, 'h, 'g) session_store" where
  "NewSessionStore =
     \<lparr>ss_sessions = [], ss_ttl = DefaultSessionTTL, ss_max = DefaultMaxSessions\<rparr>"

text \<open>The step map: a later step of the same name replaces an earlier one.\<close>

definition step_map_of :: "('h, 'g) step_def list \<Rightarrow> (string, ('h, 'g) step_def) gomap" where
  "step_map_of steps = fold (\<lambda>step m. gset (sd_name step) step m) steps []"

definition new_session ::
  "string \<Rightarrow> time \<Rightarrow> duration \<Rightarrow> 'st \<Rightarrow> 'f \<Rightarrow> ('h, 'g) step_def list \<Rightarrow>
   ('st, 'f, 'h, 'g) session" where
  "new_session uuid snow ttl st f steps =
     \<lparr>s_id = uuid, s_created = snow, s_expires = snow + ttl, s_state = st, s_fsm = f,
      s_steps = steps, s_step_map = step_map_of steps\<rparr>"

text \<open>
  \<open>Create\<close>: \<open>uuid\<close> is the generated identifier, \<open>snow\<close> the store's clock (\<open>s.now()\<close>) and
  \<open>wall\<close> the process clock that \<open>IsExpired\<close> reads.
\<close>

definition sess_create ::
  "string \<Rightarrow> time \<Rightarrow> time \<Rightarrow> 'st \<Rightarrow> 'f \<Rightarrow> ('h, 'g) step_def list \<Rightarrow>
   ('st, 'f, 'h, 'g) session_store \<Rightarrow>
   (('st, 'f, 'h, 'g) session \<times> session_error option) \<times> ('st, 'f, 'h, 'g) session_store" where
  "sess_create uuid snow wall st f steps s =
     (let sess = new_session uuid snow (ss_ttl s) st f steps;
          s1 = (if ss_max s \<le> int (length (ss_sessions s))
                then s\<lparr>ss_sessions := gsweep (\<lambda>_ x. IsExpired wall x) (ss_sessions s)\<rparr>
                else s)
      in if ss_max s1 \<le> int (length (ss_sessions s1))
         then ((sess, Some ErrSessionStoreFull), s1)
         else ((sess, None), s1\<lparr>ss_sessions := gset uuid sess (ss_sessions s1)\<rparr>))"

definition sess_delete :: "string \<Rightarrow> ('st, 'f, 'h, 'g) session_store \<Rightarrow> ('st, 'f, 'h, 'g) session_store" where
  "sess_delete k s = s\<lparr>ss_sessions := gdel k (ss_sessions s)\<rparr>"

definition sess_get ::
  "time \<Rightarrow> string \<Rightarrow> ('st, 'f, 'h, 'g) session_store \<Rightarrow>
   (session_error, ('st, 'f, 'h, 'g) session) result \<times> ('st, 'f, 'h, 'g) session_store" where
  "sess_get wall k s =
     (case gget (ss_sessions s) k of
        None \<Rightarrow> (Inl ErrSessionNotFound, s)
      | Some sess \<Rightarrow>
          if IsExpired wall sess then (Inl ErrSessionExpired, sess_delete k s)
          else (Inr sess, s))"

definition sess_cleanup ::
  "time \<Rightarrow> ('st, 'f, 'h, 'g) session_store \<Rightarrow> nat \<times> ('st, 'f, 'h, 'g) session_store" where
  "sess_cleanup wall s =
     (length (gswept (\<lambda>_ x. IsExpired wall x) (ss_sessions s)),
      s\<lparr>ss_sessions := gsweep (\<lambda>_ x. IsExpired wall x) (ss_sessions s)\<rparr>)"

definition sess_count :: "('st, 'f, 'h, 'g) session_store \<Rightarrow> nat" where
  "sess_count s = length (ss_sessions s)"

section \<open>Advancing a wizard\<close>

datatype ('he, 'fe) advance_error =
    NoActiveStep
  | HandlerError 'he
  | EventError string 'fe \<comment> \<open>the event that could not fire and the error of the FSM\<close>

text \<open>
  \<open>AdvanceSession\<close>. \<open>run h sess input\<close> is the step handler: it may change the session (its
  state, its expiry) and answers with the info string or an error. \<open>fire\<close> answers with the
  FSM after the event and the error, if any.
\<close>

definition AdvanceSession ::
  "('f \<Rightarrow> string) \<Rightarrow> ('f \<Rightarrow> string \<Rightarrow> 'fe option \<times> 'f) \<Rightarrow>
   ('h \<Rightarrow> ('st, 'f, 'h, 'g) session \<Rightarrow> 'i \<Rightarrow> ('he, string) result \<times> ('st, 'f, 'h, 'g) session) \<Rightarrow>
   'i \<Rightarrow> ('st, 'f, 'h, 'g) session \<Rightarrow>
   (('he, 'fe) advance_error, string) result \<times> ('st, 'f, 'h, 'g) session" where
  "AdvanceSession cur fire run input sess =
     (case CurrentStep cur sess of
        None \<Rightarrow> (Inl NoActiveStep, sess)
      | Some step \<Rightarrow>
          (let (r, sess1) = (case sd_handler step of
                               None \<Rightarrow> (Inr [], sess)
                             | Some h \<Rightarrow> run h sess input)
           in case r of
                Inl e \<Rightarrow> (Inl (HandlerError e), sess1)
              | Inr info \<Rightarrow>
                  if info \<noteq> [] then (Inr info, sess1)
                  else (case fire (s_fsm sess1) (sd_event step) of
                          (Some e, f) \<Rightarrow> (Inl (EventError (sd_event step) e), sess1\<lparr>s_fsm := f\<rparr>)
                        | (None, f) \<Rightarrow> (Inr [], sess1\<lparr>s_fsm := f\<rparr>))))"

section \<open>The contract of the store\<close>

definition sess_inv :: "('st, 'f, 'h, 'g) session_store \<Rightarrow> bool" where
  "sess_inv s \<longleftrightarrow> gok (ss_sessions s)"

text \<open>What a caller can observe of the store at an instant: the unexpired sessions.\<close>

definition sess_live ::
  "time \<Rightarrow> ('st, 'f, 'h, 'g) session_store \<Rightarrow> string \<Rightarrow> ('st, 'f, 'h, 'g) session option" where
  "sess_live wall s k =
     (case gget (ss_sessions s) k of
        None \<Rightarrow> None
      | Some sess \<Rightarrow> if IsExpired wall sess then None else Some sess)"

lemma sess_live_later: "sess_live t s k = None \<Longrightarrow> t \<le> u \<Longrightarrow> sess_live u s k = None"
  by (auto simp: sess_live_def IsExpired_def split: option.splits if_splits)

lemma sess_delete_live:
  "sess_live t (sess_delete k s) k' = (if k' = k then None else sess_live t s k')"
  by (simp add: sess_live_def sess_delete_def)

lemma sess_get_frame:
  "t \<le> u \<Longrightarrow> sess_live u (snd (sess_get t k s)) k' = sess_live u s k'"
  by (auto simp: sess_get_def sess_delete_def sess_live_def IsExpired_def split: option.splits)

lemma sess_get_inv: "sess_inv s \<Longrightarrow> sess_inv (snd (sess_get t k s))"
  by (auto simp: sess_get_def sess_inv_def sess_delete_def split: option.splits)

interpretation sstore: expiring_store sess_live sess_get sess_delete sess_inv
proof (unfold_locales, goal_cases)
  case (1 s t k v)
  then show ?case by (auto simp: sess_get_def sess_live_def split: option.splits if_splits)
next
  case (2 s t k)
  then show ?case by (auto simp: sess_get_def sess_live_def split: option.splits if_splits)
next
  case (3 s t u k k')
  then show ?case by (rule_tac sess_get_frame)
next
  case (4 s t k)
  then show ?case by (rule_tac sess_get_inv)
next
  case (5 s t u k)
  then show ?case by (rule_tac sess_live_later)
next
  case (6 s t k k')
  then show ?case by (rule_tac sess_delete_live)
next
  case (7 s k)
  then show ?case by (simp add: sess_inv_def sess_delete_def)
qed

text \<open>Sweeping expired sessions is not observable.\<close>

lemma sess_sweep_live:
  assumes "sess_inv s" and "wall \<le> u"
  shows "sess_live u (s\<lparr>ss_sessions := gsweep (\<lambda>_ x. IsExpired wall x) (ss_sessions s)\<rparr>) k
    = sess_live u s k"
  using assms
  by (auto simp: sess_live_def sess_inv_def gget_gsweep IsExpired_def split: option.splits)

lemma sess_cleanup_live:
  "sess_inv s \<Longrightarrow> wall \<le> u \<Longrightarrow> sess_live u (snd (sess_cleanup wall s)) k = sess_live u s k"
  by (simp add: sess_cleanup_def sess_sweep_live)

lemma sess_create_frame:
  assumes "sess_inv s" and "wall \<le> u" and "k \<noteq> uuid"
  shows "sess_live u (snd (sess_create uuid snow wall st f steps s)) k = sess_live u s k"
  using assms sess_sweep_live [OF assms(1,2), of k]
  by (auto simp: sess_create_def Let_def sess_live_def)

lemma sess_create_count:
  assumes "int (sess_count s) \<le> ss_max s"
  shows "int (sess_count (snd (sess_create uuid snow wall st f steps s))) \<le> ss_max s"
  using assms length_gsweep [of "\<lambda>_ x. IsExpired wall x" "ss_sessions s"]
  by (auto simp: sess_create_def Let_def sess_count_def length_gset)

lemma sess_delete_count: "sess_count (sess_delete k s) \<le> sess_count s"
  by (simp add: sess_count_def sess_delete_def length_gdel_le)

lemma sess_get_count: "sess_count (snd (sess_get wall k s)) \<le> sess_count s"
  by (auto simp: sess_get_def sess_delete_count split: option.splits)

lemma sess_cleanup_count: "sess_count (snd (sess_cleanup wall s)) \<le> sess_count s"
  by (simp add: sess_cleanup_def sess_count_def length_gsweep)

section \<open>Runs of the store\<close>

datatype ('st, 'f, 'h, 'g) sess_op =
    OpCreate string time time 'st 'f "('h, 'g) step_def list"
  | OpGet time string
  | OpDelete string
  | OpCleanup time

fun sess_step ::
  "('st, 'f, 'h, 'g) sess_op \<Rightarrow> ('st, 'f, 'h, 'g) session_store \<Rightarrow> ('st, 'f, 'h, 'g) session_store" where
  "sess_step (OpCreate uuid snow wall st f steps) s = snd (sess_create uuid snow wall st f steps s)"
| "sess_step (OpGet wall k) s = snd (sess_get wall k s)"
| "sess_step (OpDelete k) s = sess_delete k s"
| "sess_step (OpCleanup wall) s = snd (sess_cleanup wall s)"

definition sess_run ::
  "('st, 'f, 'h, 'g) sess_op list \<Rightarrow> ('st, 'f, 'h, 'g) session_store \<Rightarrow> ('st, 'f, 'h, 'g) session_store" where
  "sess_run ops s = fold sess_step ops s"

lemma sess_step_max [simp]: "ss_max (sess_step op s) = ss_max s"
  by (cases op)
    (auto simp: sess_create_def sess_get_def sess_delete_def sess_cleanup_def Let_def
      split: option.splits)

lemma sess_step_count:
  "int (sess_count s) \<le> ss_max s \<Longrightarrow> int (sess_count (sess_step op s)) \<le> ss_max s"
proof (cases op)
  case (OpCreate uuid snow wall st f steps)
  then show "int (sess_count s) \<le> ss_max s \<Longrightarrow> ?thesis" by (simp add: sess_create_count)
next
  case (OpGet wall k)
  then show "int (sess_count s) \<le> ss_max s \<Longrightarrow> ?thesis"
    using sess_get_count [of wall k s] by simp
next
  case (OpDelete k)
  then show "int (sess_count s) \<le> ss_max s \<Longrightarrow> ?thesis"
    using sess_delete_count [of k s] by simp
next
  case (OpCleanup wall)
  then show "int (sess_count s) \<le> ss_max s \<Longrightarrow> ?thesis"
    using sess_cleanup_count [of wall s] by simp
qed

lemma sess_run_count:
  "int (sess_count s) \<le> ss_max s \<Longrightarrow> int (sess_count (sess_run ops s)) \<le> ss_max s"
proof (induction ops arbitrary: s)
  case Nil
  then show ?case by (simp add: sess_run_def)
next
  case (Cons op ops)
  from Cons.IH [of "sess_step op s"] sess_step_count [OF Cons.prems, of op]
  show ?case by (simp add: sess_run_def)
qed

lemma sess_sweep_count:
  "length (gsweep (\<lambda>_ x. IsExpired wall x) (ss_sessions s))
   = length (filter (\<lambda>e. \<not> IsExpired wall (snd e)) (ss_sessions s))"
  by (simp add: gsweep_def)

abbreviation sess_unexpired ::
  "time \<Rightarrow> ('st, 'f, 'h, 'g) session_store \<Rightarrow> (string \<times> ('st, 'f, 'h, 'g) session) list" where
  "sess_unexpired wall s \<equiv> filter (\<lambda>e. \<not> IsExpired wall (snd e)) (ss_sessions s)"

lemma sess_create_below:
  "int (length (ss_sessions s)) < ss_max s \<Longrightarrow>
   sess_create uuid snow wall st f steps s =
     (let x = new_session uuid snow (ss_ttl s) st f steps
      in ((x, None), s\<lparr>ss_sessions := gset uuid x (ss_sessions s)\<rparr>))"
  by (simp add: sess_create_def Let_def)

lemma sess_create_evicting:
  "ss_max s \<le> int (length (ss_sessions s)) \<Longrightarrow> int (length (sess_unexpired wall s)) < ss_max s \<Longrightarrow>
   sess_create uuid snow wall st f steps s =
     (let x = new_session uuid snow (ss_ttl s) st f steps
      in ((x, None), s\<lparr>ss_sessions := gset uuid x (sess_unexpired wall s)\<rparr>))"
  by (simp add: sess_create_def Let_def gsweep_def)

lemma sess_create_full:
  "ss_max s \<le> int (length (ss_sessions s)) \<Longrightarrow> ss_max s \<le> int (length (sess_unexpired wall s)) \<Longrightarrow>
   sess_create uuid snow wall st f steps s =
     ((new_session uuid snow (ss_ttl s) st f steps, Some ErrSessionStoreFull),
      s\<lparr>ss_sessions := sess_unexpired wall s\<rparr>)"
  by (simp add: sess_create_def Let_def gsweep_def)

lemma sess_get_new:
  "fst (sess_get u k (s\<lparr>ss_sessions := gset k x m\<rparr>)) =
   (if after u (s_expires x) then Inl ErrSessionExpired else Inr x)"
  by (simp add: sess_get_def IsExpired_def)

section \<open>Properties\<close>

text \<open>
  However a store with a non-negative limit is used, it never holds more sessions than
  its limit (the guard of \<open>Create\<close> that prevents unbounded memory growth).
\<close>

theorem session_store_bounded:
  assumes "0 \<le> mx"
  shows "int (sess_count (sess_run ops (NewSessionStoreWithLimits ttl mx))) \<le> mx"
  using sess_run_count [of "NewSessionStoreWithLimits ttl mx" ops] assms
  by (simp add: NewSessionStoreWithLimits_def sess_count_def)

theorem session_store_bounded_witness:
  "(0::int) \<le> 1 \<and>
   int (sess_count (sess_run
     [OpCreate ''a'' 0 0 () () ([] :: (unit, unit) step_def list), OpCreate ''b'' 0 0 () () []]
     (NewSessionStoreWithLimits 10 1))) \<le> 1"
  using session_store_bounded [of 1] by simp

text \<open>
  C34. \<open>Create\<close> on every branch. Below the limit it stores the new session and evicts
  nothing; at the limit it first evicts exactly the expired sessions. It fails with
  \<open>ErrSessionStoreFull\<close> exactly when the unexpired sessions alone fill the store, and even
  then hands back the session it built. No unexpired session is ever evicted, and a session
  just created is the one \<open>Get\<close> answers with until the instant its TTL has elapsed.
\<close>

theorem session_create_outcome:
  assumes "sess_inv s" and "uuid \<notin> gkeys (ss_sessions s)"
    and "sess_create uuid snow wall st f steps s = ((sess, err), s')"
  shows "err = (if ss_max s \<le> int (length (ss_sessions s))
                  \<and> ss_max s \<le> int (length (filter (\<lambda>e. \<not> IsExpired wall (snd e)) (ss_sessions s)))
                then Some ErrSessionStoreFull else None)
    \<and> sess = new_session uuid snow (ss_ttl s) st f steps
    \<and> (\<forall>k u. k \<noteq> uuid \<longrightarrow> wall \<le> u \<longrightarrow> sess_live u s' k = sess_live u s k)
    \<and> (ss_max s > int (length (ss_sessions s)) \<longrightarrow>
         (\<forall>k. k \<noteq> uuid \<longrightarrow> gget (ss_sessions s') k = gget (ss_sessions s) k))
    \<and> (\<forall>u. fst (sess_get u uuid s') =
          (if err \<noteq> None then Inl ErrSessionNotFound
           else if after u (snow + ss_ttl s) then Inl ErrSessionExpired else Inr sess))"
proof -
  have frame: "\<forall>k u. k \<noteq> uuid \<longrightarrow> wall \<le> u \<longrightarrow> sess_live u s' k = sess_live u s k"
    using sess_create_frame [OF assms(1)] assms(3) by (metis snd_conv)
  consider (below) "int (length (ss_sessions s)) < ss_max s"
    | (evict) "ss_max s \<le> int (length (ss_sessions s))" "int (length (sess_unexpired wall s)) < ss_max s"
    | (full) "ss_max s \<le> int (length (ss_sessions s))" "ss_max s \<le> int (length (sess_unexpired wall s))"
    by linarith
  then show ?thesis
  proof cases
    case below
    with assms(3) frame show ?thesis
      by (auto simp: sess_create_below Let_def sess_get_new new_session_def)
  next
    case evict
    with assms(3) frame show ?thesis
      by (auto simp: sess_create_evicting Let_def sess_get_new new_session_def)
  next
    case full
    have "uuid \<notin> gkeys (sess_unexpired wall s)" using assms(2) by auto
    then have none: "gget (sess_unexpired wall s) uuid = None" by (rule gget_None [THEN iffD2])
    from full assms(3) frame none show ?thesis
      by (auto simp: sess_create_full Let_def sess_get_def)
  qed
qed

theorem session_create_outcome_witness:
  "let s = NewSessionStoreWithLimits 10 1 :: (unit, unit, unit, unit) session_store;
       s1 = snd (sess_create ''a'' 0 0 () () [] s)
   in fst (sess_get 10 ''a'' s1) = Inr (new_session ''a'' 0 10 () () [])
    \<and> fst (sess_get 11 ''a'' s1) = Inl ErrSessionExpired
    \<and> snd (fst (sess_create ''b'' 0 5 () () [] s1)) = Some ErrSessionStoreFull
    \<and> snd (fst (sess_create ''b'' 0 11 () () [] s1)) = None"
proof -
  let ?s = "NewSessionStoreWithLimits 10 1 :: (unit, unit, unit, unit) session_store"
  let ?a = "new_session ''a'' 0 10 () () [] :: (unit, unit, unit, unit) session"
  have c: "sess_create ''a'' 0 0 () () [] ?s = ((?a, None), ?s\<lparr>ss_sessions := [(''a'', ?a)]\<rparr>)"
    by (simp add: sess_create_def NewSessionStoreWithLimits_def Let_def)
  have "sess_inv ?s" "''a'' \<notin> gkeys (ss_sessions ?s)"
    by (simp_all add: sess_inv_def NewSessionStoreWithLimits_def)
  note out = session_create_outcome [OF this c, THEN conjunct2, THEN conjunct2, THEN conjunct2,
      THEN conjunct2]
  have "fst (sess_get 10 ''a'' (?s\<lparr>ss_sessions := [(''a'', ?a)]\<rparr>)) = Inr ?a"
    and "fst (sess_get 11 ''a'' (?s\<lparr>ss_sessions := [(''a'', ?a)]\<rparr>)) = Inl ErrSessionExpired"
    using out [THEN spec, of 10] out [THEN spec, of 11]
    by (simp_all add: NewSessionStoreWithLimits_def)
  then show ?thesis
    by (simp add: c Let_def) (simp add: NewSessionStoreWithLimits_def sess_create_def
        new_session_def IsExpired_def gsweep_def Let_def)
qed


text \<open>A concrete wizard: states are strings, the event \<open>next\<close> leads from \<open>one\<close> to \<open>two\<close>.\<close>

definition demo_fire :: "string \<Rightarrow> string \<Rightarrow> string option \<times> string" where
  "demo_fire f e = (if f = ''one'' \<and> e = ''next'' then (None, ''two'') else (Some ''refused'', f))"

definition demo_run ::
  "string \<Rightarrow> (unit, string, string, unit) session \<Rightarrow> string \<Rightarrow>
   (string, string) result \<times> (unit, string, string, unit) session" where
  "demo_run h s i = (if i = [] then (Inl ''empty'', s) else (Inr [], s))"

definition demo_session :: "(unit, string, string, unit) session" where
  "demo_session = new_session ''id'' 0 10 () ''one''
     [\<lparr>sd_name = ''one'', sd_event = ''next'', sd_handler = Some ''h'', sd_schema = None\<rparr>]"


end
