(* ===== verification/AsyncHandles.thy ===== *)
theory AsyncHandles
  imports SessionStore
begin

text \<open>
  \<open>session/async.go\<close>: the store of async operation handles (status, data, expiry). Every
  operation runs under the store's mutex; \<open>now\<close> is the store's clock at that moment (the
  readings one locked section makes are one instant). The data of a handle is the map the
  caller passed, \<open>None\<close> standing for a nil map. Replacing the clock (\<open>SetNowFunc\<close>) is a
  choice of the \<open>now\<close> arguments.
\<close>

datatype handle_error = ErrHandleNotFound | ErrHandleExpired

record 'd async_item =
  ai_status :: string
  ai_data :: "'d option"
  ai_created :: time
  ai_expires :: time

record 'd handle_store =
  hs_items :: "(string, 'd async_item) gomap"
  hs_ttl :: duration
  hs_max :: int

definition NewAsyncHandleStore :: "duration \<Rightarrow> int \<Rightarrow> 'd handle_store" where
  "NewAsyncHandleStore ttl mx =
     \<lparr>hs_items = [], hs_ttl = (if ttl \<le> 0 then DefaultSessionTTL else ttl),
      hs_max = (if mx \<le> 0 then DefaultMaxSessions else mx)\<rparr>"

abbreviation item_expired :: "time \<Rightarrow> 'd async_item \<Rightarrow> bool" where
  "item_expired now it \<equiv> after now (ai_expires it)"

text \<open>Expired items are evicted only when the store is at or over its capacity.\<close>

definition hs_evict :: "time \<Rightarrow> 'd handle_store \<Rightarrow> 'd handle_store" where
  "hs_evict now s =
     (if hs_max s \<le> int (length (hs_items s))
      then s\<lparr>hs_items := gsweep (\<lambda>_ it. item_expired now it) (hs_items s)\<rparr> else s)"

definition hs_insert :: "time \<Rightarrow> string \<Rightarrow> string \<Rightarrow> 'd option \<Rightarrow> 'd handle_store \<Rightarrow> 'd handle_store" where
  "hs_insert now k status data s =
     s\<lparr>hs_items := gset k \<lparr>ai_status = status, ai_data = data, ai_created = now,
                            ai_expires = now + hs_ttl s\<rparr> (hs_items s)\<rparr>"

text \<open>\<open>Create\<close>; \<open>rid\<close> is the identifier \<open>RandomID\<close> returned.\<close>

definition hs_create ::
  "string \<Rightarrow> time \<Rightarrow> string \<Rightarrow> 'd option \<Rightarrow> 'd handle_store \<Rightarrow> string \<times> 'd handle_store" where
  "hs_create rid now status data s = (rid, hs_insert now rid status data (hs_evict now s))"

definition item_update :: "time \<Rightarrow> duration \<Rightarrow> string \<Rightarrow> 'd option \<Rightarrow> 'd async_item \<Rightarrow> 'd async_item" where
  "item_update now ttl status data it =
     it\<lparr>ai_status := status, ai_data := (case data of None \<Rightarrow> ai_data it | Some d \<Rightarrow> Some d),
        ai_expires := now + ttl\<rparr>"

definition hs_create_with_id ::
  "string \<Rightarrow> time \<Rightarrow> string \<Rightarrow> 'd option \<Rightarrow> 'd handle_store \<Rightarrow> string \<times> 'd handle_store" where
  "hs_create_with_id k now status data s =
     (case gget (hs_items s) k of
        Some it \<Rightarrow> (k, s\<lparr>hs_items := gset k (item_update now (hs_ttl s) status data it) (hs_items s)\<rparr>)
      | None \<Rightarrow> (k, hs_insert now k status data (hs_evict now s)))"

definition hs_delete :: "string \<Rightarrow> 'd handle_store \<Rightarrow> 'd handle_store" where
  "hs_delete k s = s\<lparr>hs_items := gdel k (hs_items s)\<rparr>"

definition hs_get ::
  "time \<Rightarrow> string \<Rightarrow> 'd handle_store \<Rightarrow> (handle_error, string \<times> 'd option) result \<times> 'd handle_store" where
  "hs_get now k s =
     (case gget (hs_items s) k of
        None \<Rightarrow> (Inl ErrHandleNotFound, s)
      | Some it \<Rightarrow>
          if item_expired now it then (Inl ErrHandleExpired, s\<lparr>hs_items := gdel k (hs_items s)\<rparr>)
          else (Inr (ai_status it, ai_data it), s))"

definition hs_set ::
  "time \<Rightarrow> string \<Rightarrow> string \<Rightarrow> 'd option \<Rightarrow> 'd handle_store \<Rightarrow> handle_error option \<times> 'd handle_store" where
  "hs_set now k status data s =
     (case gget (hs_items s) k of
        None \<Rightarrow> (Some ErrHandleNotFound, s)
      | Some it \<Rightarrow>
          if item_expired now it then (Some ErrHandleExpired, s\<lparr>hs_items := gdel k (hs_items s)\<rparr>)
          else (None, s\<lparr>hs_items := gset k (item_update now (hs_ttl s) status data it) (hs_items s)\<rparr>))"

section \<open>The contract of the store\<close>

definition hs_inv :: "'d handle_store \<Rightarrow> bool" where
  "hs_inv s \<longleftrightarrow> gok (hs_items s)"

definition hs_live :: "time \<Rightarrow> 'd handle_store \<Rightarrow> string \<Rightarrow> (string \<times> 'd option) option" where
  "hs_live now s k =
     (case gget (hs_items s) k of
        None \<Rightarrow> None
      | Some it \<Rightarrow> if item_expired now it then None else Some (ai_status it, ai_data it))"

lemma hs_live_later: "hs_live t s k = None \<Longrightarrow> t \<le> u \<Longrightarrow> hs_live u s k = None"
  by (auto simp: hs_live_def split: option.splits if_splits)

lemma hs_delete_live: "hs_live t (hs_delete k s) k' = (if k' = k then None else hs_live t s k')"
  by (simp add: hs_live_def hs_delete_def)

interpretation hstore: expiring_store hs_live hs_get hs_delete hs_inv
proof (unfold_locales, goal_cases)
  case (1 s t k v)
  then show ?case by (auto simp: hs_get_def hs_live_def split: option.splits if_splits)
next
  case (2 s t k)
  then show ?case by (auto simp: hs_get_def hs_live_def split: option.splits if_splits)
next
  case (3 s t u k k')
  then show ?case by (auto simp: hs_get_def hs_live_def split: option.splits)
next
  case (4 s t k)
  then show ?case by (auto simp: hs_get_def hs_inv_def split: option.splits)
next
  case (5 s t u k)
  then show ?case by (rule_tac hs_live_later)
next
  case (6 s t k k')
  then show ?case by (rule_tac hs_delete_live)
next
  case (7 s k)
  then show ?case by (simp add: hs_inv_def hs_delete_def)
qed

lemma hs_evict_fields [simp]: "hs_ttl (hs_evict now s) = hs_ttl s" "hs_max (hs_evict now s) = hs_max s"
  by (simp_all add: hs_evict_def)

lemma hs_evict_inv [simp]: "hs_inv s \<Longrightarrow> hs_inv (hs_evict now s)"
  by (simp add: hs_inv_def hs_evict_def)

lemma hs_evict_live: "hs_inv s \<Longrightarrow> now \<le> u \<Longrightarrow> hs_live u (hs_evict now s) k = hs_live u s k"
  by (auto simp: hs_inv_def hs_evict_def hs_live_def gget_gsweep split: option.splits)

lemma hs_insert_live:
  "hs_live u (hs_insert now k status data s) k' =
   (if k' = k then (if after u (now + hs_ttl s) then None else Some (status, data))
    else hs_live u s k')"
  by (simp add: hs_insert_def hs_live_def)

lemma hs_update_live:
  "hs_live u (s\<lparr>hs_items := gset k (item_update now ttl status data it) (hs_items s)\<rparr>) k' =
   (if k' = k then (if after u (now + ttl) then None
                    else Some (status, case data of None \<Rightarrow> ai_data it | Some d \<Rightarrow> Some d))
    else hs_live u s k')"
  by (simp add: hs_live_def item_update_def)

section \<open>Capacity\<close>

datatype 'd hs_op =
    HCreate string time string "'d option"
  | HCreateWithID string time string "'d option"
  | HGet time string
  | HSet time string string "'d option"
  | HDelete string

fun hs_step :: "'d hs_op \<Rightarrow> 'd handle_store \<Rightarrow> 'd handle_store" where
  "hs_step (HCreate rid now st d) s = snd (hs_create rid now st d s)"
| "hs_step (HCreateWithID k now st d) s = snd (hs_create_with_id k now st d s)"
| "hs_step (HGet now k) s = snd (hs_get now k s)"
| "hs_step (HSet now k st d) s = snd (hs_set now k st d s)"
| "hs_step (HDelete k) s = hs_delete k s"

definition hs_run :: "'d hs_op list \<Rightarrow> 'd handle_store \<Rightarrow> 'd handle_store" where
  "hs_run ops s = fold hs_step ops s"

lemma hs_step_inv: "hs_inv s \<Longrightarrow> hs_inv (hs_step op s)"
  by (cases op)
    (auto simp: hs_inv_def hs_create_def hs_insert_def hs_create_with_id_def hs_get_def hs_set_def
      hs_delete_def hs_evict_def split: option.splits)

lemma hs_run_inv: "hs_inv s \<Longrightarrow> hs_inv (hs_run ops s)"
  by (induction ops arbitrary: s) (auto simp: hs_run_def hs_step_inv)

lemma hs_evict_over:
  assumes "hs_max s \<le> int (length (hs_items (hs_evict now s)))" "it \<in> snd ` set (hs_items (hs_evict now s))"
  shows "\<not> item_expired now it"
  using assms by (auto simp: hs_evict_def gsweep_def split: if_splits)

lemma hs_insert_over:
  assumes "0 \<le> hs_ttl s" and "\<And>it. hs_max s \<le> int (length (hs_items s)) \<Longrightarrow>
      it \<in> snd ` set (hs_items s) \<Longrightarrow> \<not> item_expired now it"
    and "hs_max s < int (length (hs_items (hs_insert now k st d s)))"
    and "it \<in> snd ` set (hs_items (hs_insert now k st d s))" and "hs_inv s"
  shows "\<not> item_expired now it"
proof -
  have "hs_max s \<le> int (length (hs_items s))"
    using assms(3) by (auto simp: hs_insert_def length_gset split: if_splits)
  with assms(1,2,4,5) show ?thesis
    by (auto simp: hs_insert_def set_gset hs_inv_def)
qed

section \<open>Properties\<close>

text \<open>
  C36. A handle lives exactly its TTL from the last operation that refreshed it. After
  \<open>CreateWithID\<close> (which never fails, whatever the store holds) the handle answers with the
  new status, and with the new data or, when nil data was passed for a known handle, with
  the data it had, up to and including the expiry instant, and with an error after it; every
  other handle answers as before. After an accepted \<open>Set\<close> the same holds.
\<close>

theorem handle_lifetime:
  assumes "hs_inv s" and "now \<le> u"
  shows "fst (hs_get u k (snd (hs_create_with_id k now st d s))) =
           (if after u (now + hs_ttl s) then Inl ErrHandleExpired
            else Inr (st, case d of Some x \<Rightarrow> Some x
                          | None \<Rightarrow> (case gget (hs_items s) k of None \<Rightarrow> None | Some it \<Rightarrow> ai_data it)))
    \<and> (fst (hs_set now k st d s) = None \<longrightarrow>
         fst (hs_get u k (snd (hs_set now k st d s))) =
         fst (hs_get u k (snd (hs_create_with_id k now st d s))))
    \<and> (fst (hs_set now k st d s) = None \<longleftrightarrow> (\<exists>v. fst (hs_get now k s) = Inr v))
    \<and> (\<forall>k'. k' \<noteq> k \<longrightarrow> hs_live u (snd (hs_create_with_id k now st d s)) k' = hs_live u s k'
         \<and> hs_live u (snd (hs_set now k st d s)) k' = hs_live u s k')"
proof (cases "gget (hs_items s) k")
  case None
  then show ?thesis using assms
    by (auto simp: hs_create_with_id_def hs_get_def hs_set_def hs_insert_live hs_evict_live
        split: option.splits) (auto simp: hs_insert_def split: option.splits)
next
  case (Some it)
  then show ?thesis using assms
    by (auto simp: hs_create_with_id_def hs_get_def hs_set_def hs_update_live
        split: option.splits) (auto simp: hs_live_def item_update_def split: option.splits)
qed

theorem handle_lifetime_witness:
  "let s = snd (hs_create_with_id ''h'' 0 ''pending'' (Some (1::int)) (NewAsyncHandleStore 10 1));
       s' = snd (hs_create_with_id ''h'' 5 ''running'' None s)
   in fst (hs_get 15 ''h'' s') = Inr (''running'', Some 1) \<and> fst (hs_get 16 ''h'' s') = Inl ErrHandleExpired"
proof -
  let ?s = "snd (hs_create_with_id ''h'' 0 ''pending'' (Some (1::int)) (NewAsyncHandleStore 10 1))"
  have s: "?s = \<lparr>hs_items = [(''h'', \<lparr>ai_status = ''pending'', ai_data = Some 1, ai_created = 0,
      ai_expires = 10\<rparr>)], hs_ttl = 10, hs_max = 1\<rparr>"
    by (simp add: hs_create_with_id_def NewAsyncHandleStore_def hs_insert_def hs_evict_def)
  have inv: "hs_inv ?s" by (simp add: s hs_inv_def)
  have "fst (hs_get 15 ''h'' (snd (hs_create_with_id ''h'' 5 ''running'' None ?s)))
      = Inr (''running'', Some 1)"
    using handle_lifetime [OF inv, of 5 15 "''h''" "''running''" None] by (simp add: s)
  moreover have "fst (hs_get 16 ''h'' (snd (hs_create_with_id ''h'' 5 ''running'' None ?s)))
      = Inl ErrHandleExpired"
    using handle_lifetime [OF inv, of 5 16 "''h''" "''running''" None] by (simp add: s)
  ultimately show ?thesis by (simp add: Let_def)
qed

text \<open>
  Growth past the capacity is made of live handles only: if, after \<open>Create\<close> or after the
  insertion of an unknown handle by \<open>CreateWithID\<close>, the store holds more than its capacity,
  then every entry it holds is unexpired at that instant. So memory is bounded by the
  capacity or by what was started within one TTL.
\<close>

theorem handle_store_overflow_is_live:
  assumes "hs_inv s" and "0 \<le> hs_ttl s"
    and "s' = snd (hs_create k now st d s) \<or>
         (k \<notin> gkeys (hs_items s) \<and> s' = snd (hs_create_with_id k now st d s))"
    and "hs_max s < int (length (hs_items s'))"
  shows "\<forall>k' it. gget (hs_items s') k' = Some it \<longrightarrow> now \<le> ai_expires it"
proof (intro allI impI)
  fix k' it
  assume get: "gget (hs_items s') k' = Some it"
  have "k \<notin> gkeys (hs_items s) \<Longrightarrow> gget (hs_items s) k = None" by (rule gget_None [THEN iffD2])
  then have s': "s' = hs_insert now k st d (hs_evict now s)"
    using assms(3) by (auto simp: hs_create_def hs_create_with_id_def)
  from get have "(k', it) \<in> set (hs_items s')" by (rule gget_SomeD)
  then have it: "it \<in> snd ` set (hs_items s')" by force
  have "\<not> item_expired now it"
  proof (rule hs_insert_over)
    show "0 \<le> hs_ttl (hs_evict now s)" using assms(2) by simp
    show "\<not> item_expired now x"
      if "hs_max (hs_evict now s) \<le> int (length (hs_items (hs_evict now s)))"
        and "x \<in> snd ` set (hs_items (hs_evict now s))" for x
      using that hs_evict_over by simp blast
    show "hs_max (hs_evict now s) < int (length (hs_items (hs_insert now k st d (hs_evict now s))))"
      using assms(4) s' by simp
    show "it \<in> snd ` set (hs_items (hs_insert now k st d (hs_evict now s)))"
      using it s' by simp
    show "hs_inv (hs_evict now s)" using assms(1) by simp
  qed
  then show "now \<le> ai_expires it" by simp
qed

theorem handle_store_overflow_is_live_witness:
  "let s = snd (hs_create ''a'' 0 ''p'' None (NewAsyncHandleStore 10 1 :: int handle_store));
       s' = snd (hs_create ''b'' 4 ''p'' None s)
   in length (hs_items s') = 2 \<and> (\<forall>k it. gget (hs_items s') k = Some it \<longrightarrow> 4 \<le> ai_expires it)"
proof -
  let ?s = "snd (hs_create ''a'' 0 ''p'' None (NewAsyncHandleStore 10 1 :: int handle_store))"
  let ?s' = "snd (hs_create ''b'' 4 ''p'' None ?s)"
  have s: "?s = \<lparr>hs_items = [(''a'', \<lparr>ai_status = ''p'', ai_data = None, ai_created = 0,
      ai_expires = 10\<rparr>)], hs_ttl = 10, hs_max = 1\<rparr>"
    by (simp add: hs_create_def NewAsyncHandleStore_def hs_insert_def hs_evict_def)
  have len: "length (hs_items ?s') = 2"
    by (simp add: s) (simp add: hs_create_def hs_insert_def hs_evict_def gsweep_def)
  have "\<forall>k it. gget (hs_items ?s') k = Some it \<longrightarrow> 4 \<le> ai_expires it"
    by (rule handle_store_overflow_is_live [of ?s ?s' "''b''" 4 "''p''" None])
      (use len in \<open>simp_all add: s hs_inv_def\<close>)
  with len show ?thesis by (simp only: Let_def)
qed

end
