(* ===== verification/Model.thy ===== *)
theory Model
  imports Prelude
begin

text \<open>
  The SDK-neutral vocabulary of \<open>model/\<close>: dynamic values, tool results, the status
  results (\<open>status_codes.go\<close>), the human hand-off result and its text rendering
  (\<open>human_handoff.go\<close>), the MCP Apps client capability (\<open>caps.go\<close>) and the feature sets
  and profiles of \<open>profile.go\<close>.
\<close>

section \<open>Dynamic values\<close>

text \<open>
  A value of type \<open>any\<close>, by its dynamic type. \<open>GTyped\<close> is a string of a named string type
  (a type assertion to \<open>string\<close> fails on it); \<open>GOther\<close> stands for every type the program
  does not look into.
\<close>

datatype gval =
    GNil
  | GBool bool
  | GInt int
  | GStr string
  | GTyped string string
  | GList "gval list"
  | GStrs "string list"
  | GMap "(string \<times> gval) list"
  | GStrMap "(string \<times> string) list"
  | GAnyMap "(gval \<times> gval) list"
  | GOther nat

type_synonym gdata = "(string, gval) gomap"

section \<open>Tool results\<close>

record 'el tool_result =
  tr_error :: bool
  tr_text :: string
  tr_content :: gval
  tr_elicitation :: "'el option"

definition StatusOk :: string where "StatusOk = ''ok''"
definition StatusPending :: string where "StatusPending = ''pending''"
definition StatusRunning :: string where "StatusRunning = ''running''"
definition StatusDone :: string where "StatusDone = ''done''"
definition StatusNeedsHuman :: string where "StatusNeedsHuman = ''needs_human''"
definition StatusRequiresAuth :: string where "StatusRequiresAuth = ''requires_auth''"
definition StatusError :: string where "StatusError = ''error''"

text \<open>The machine codes of an error result.\<close>

definition ErrCodeAuth :: string where "ErrCodeAuth = ''auth_error''"
definition ErrCodeNotFound :: string where "ErrCodeNotFound = ''not_found''"
definition ErrCodeExpired :: string where "ErrCodeExpired = ''expired''"
definition ErrCodeTimeout :: string where "ErrCodeTimeout = ''timeout''"
definition ErrCodeInvalidArgs :: string where "ErrCodeInvalidArgs = ''invalid_args''"
definition ErrCodeUnknown :: string where "ErrCodeUnknown = ''unknown''"

lemmas status_codes = StatusOk_def StatusPending_def StatusRunning_def StatusDone_def
  StatusNeedsHuman_def StatusRequiresAuth_def StatusError_def

text \<open>\<open>for k, v := range extra { sc[k] = v }\<close>\<close>

definition gmerge :: "('k, 'v) gomap \<Rightarrow> ('k, 'v) gomap \<Rightarrow> ('k, 'v) gomap" where
  "gmerge extra sc = fold (\<lambda>(k, v) m. gset k v m) extra sc"

definition StatusResult :: "string \<Rightarrow> string \<Rightarrow> gdata \<Rightarrow> 'el tool_result" where
  "StatusResult status text extra =
     \<lparr>tr_error = False, tr_text = text, tr_content = GMap (gmerge extra [(''status'', GStr status)]),
      tr_elicitation = None\<rparr>"

definition ErrorResult :: "string \<Rightarrow> string \<Rightarrow> gdata \<Rightarrow> 'el tool_result" where
  "ErrorResult code text extra =
     \<lparr>tr_error = True, tr_text = text,
      tr_content = GMap (gmerge extra (gset ''error'' (GStr code) [(''status'', GStr StatusError)])),
      tr_elicitation = None\<rparr>"

definition RequiresAuthResult :: "string \<Rightarrow> 'el tool_result" where
  "RequiresAuthResult detail =
     StatusResult StatusRequiresAuth
       ''Authentication required. Start a sign-in with auth_sso, have the user approve, then retry.''
       [(''resume_tool'', GStr ''auth_sso''), (''detail'', GStr detail)]"

section \<open>The human hand-off\<close>

definition ReasonSSOApproval :: string where "ReasonSSOApproval = ''sso_approval''"
definition ReasonInteractiveOnly :: string where "ReasonInteractiveOnly = ''interactive_only''"
definition ReasonCredentialEntry :: string where "ReasonCredentialEntry = ''credential_entry''"
definition ReasonConfirmation :: string where "ReasonConfirmation = ''confirmation''"

record needs_human =
  nh_reason :: string
  nh_action_url :: string
  nh_handle :: string
  nh_resume_tool :: string
  nh_detail :: string
  nh_in_use :: bool
  nh_revoke_tool :: string

definition handoff :: "string \<Rightarrow> string \<Rightarrow> string \<Rightarrow> needs_human" where
  "handoff reason resume_tool detail =
     \<lparr>nh_reason = reason, nh_action_url = [], nh_handle = [], nh_resume_tool = resume_tool,
      nh_detail = detail, nh_in_use = False, nh_revoke_tool = []\<rparr>"

text \<open>A template segment that is omitted when its field is empty.\<close>

abbreviation segment :: "string \<Rightarrow> string \<Rightarrow> string" where
  "segment field text \<equiv> (if field \<noteq> [] then text else [])"

definition NeedsHumanTextWith ::
  "string \<Rightarrow> string \<Rightarrow> string \<Rightarrow> string \<Rightarrow> string \<Rightarrow> string \<Rightarrow> string" where
  "NeedsHumanTextWith reason url handle resume_tool revoke_tool detail =
     (let hint = (if revoke_tool \<noteq> [] then ''use '' @ revoke_tool @ '' to revoke the in-progress flow''
                  else [])
      in ''needs_human: '' @ reason
         @ segment url ('' - open '' @ url)
         @ segment resume_tool ('' (resume with '' @ resume_tool
                                 @ segment handle (''; handle '' @ handle) @ '')'')
         @ segment hint ('' - '' @ hint)
         @ segment detail ('' - '' @ detail))"

definition NeedsHumanText :: "string \<Rightarrow> string \<Rightarrow> string \<Rightarrow> string \<Rightarrow> string \<Rightarrow> string" where
  "NeedsHumanText reason url handle resume_tool detail =
     NeedsHumanTextWith reason url handle resume_tool [] detail"

definition set_unless_empty :: "string \<Rightarrow> string \<Rightarrow> gdata \<Rightarrow> gdata" where
  "set_unless_empty k v sc = (if v \<noteq> [] then gset k (GStr v) sc else sc)"

definition needs_human_content :: "needs_human \<Rightarrow> gdata" where
  "needs_human_content n =
     (let sc = [(''status'', GStr StatusNeedsHuman),
                (''reason'', GTyped ''HandoffReason'' (nh_reason n))];
          sc = set_unless_empty ''action_url'' (nh_action_url n) sc;
          sc = set_unless_empty ''handle'' (nh_handle n) sc;
          sc = set_unless_empty ''resume_tool'' (nh_resume_tool n) sc;
          sc = set_unless_empty ''detail'' (nh_detail n) sc;
          sc = (if nh_in_use n then gset ''in_use'' (GBool True) sc else sc)
      in set_unless_empty ''revoke_tool'' (nh_revoke_tool n) sc)"

definition NeedsHumanResult :: "needs_human \<Rightarrow> 'el tool_result" where
  "NeedsHumanResult n =
     \<lparr>tr_error = False,
      tr_text = NeedsHumanTextWith (nh_reason n) (nh_action_url n) (nh_handle n)
                  (nh_resume_tool n) (nh_revoke_tool n) (nh_detail n),
      tr_content = GMap (needs_human_content n), tr_elicitation = None\<rparr>"

section \<open>Client capabilities and feature sets\<close>

definition mcpAppsMIMEType :: string where
  "mcpAppsMIMEType = ''text/html;profile=mcp-app''"

text \<open>\<open>ClientUICapabilities.SupportsApps\<close>; \<open>None\<close> is the nil receiver.\<close>

fun ui_supports_apps :: "string list option \<Rightarrow> bool" where
  "ui_supports_apps None = False"
| "ui_supports_apps (Some mts) = list_ex (\<lambda>mt. mt = mcpAppsMIMEType) mts"

type_synonym feature_set = "(string, bool) gomap"

definition fs_has :: "feature_set \<Rightarrow> string \<Rightarrow> bool" where
  "fs_has fs f = (case gget fs f of None \<Rightarrow> False | Some b \<Rightarrow> b)"

definition fs_has_all :: "feature_set \<Rightarrow> feature_set \<Rightarrow> bool" where
  "fs_has_all fs req = list_all (\<lambda>f. fs_has fs f) (map fst req)"

definition fs_clone :: "feature_set \<Rightarrow> feature_set" where
  "fs_clone fs = fold (\<lambda>(f, ok) out. gset f ok out) fs []"

section \<open>Facts about the results\<close>

lemma gget_gmerge:
  "gok extra \<Longrightarrow> gget (gmerge extra sc) k = (case gget extra k of Some v \<Rightarrow> Some v | None \<Rightarrow> gget sc k)"
proof (induction extra arbitrary: sc)
  case Nil
  then show ?case by (simp add: gmerge_def)
next
  case (Cons e extra)
  obtain a b where e: "e = (a, b)" by fastforce
  have "gget extra a = None"
    using Cons.prems e by (intro gget_None [THEN iffD2]) simp
  with Cons.IH [of "gset a b sc"] Cons.prems e show ?case
    by (auto simp: gmerge_def split: option.splits)
qed

lemma gget_unless_empty:
  "gget (set_unless_empty k v sc) k' = (if k' = k \<and> v \<noteq> [] then Some (GStr v) else gget sc k')"
  by (simp add: set_unless_empty_def)

lemma gget_in_use:
  "gget (if b then gset k v sc else sc) k' = (if k' = k \<and> b then Some v else gget sc k')"
  by simp

lemmas needs_human_lookups = needs_human_content_def Let_def gget_unless_empty gget_in_use

lemma needs_human_status: "gget (needs_human_content n) ''status'' = Some (GStr StatusNeedsHuman)"
  by (simp add: needs_human_lookups del: update.simps)

lemma needs_human_fields:
  "gget (needs_human_content n) ''handle'' = (if nh_handle n = [] then None else Some (GStr (nh_handle n)))"
  "gget (needs_human_content n) ''resume_tool''
     = (if nh_resume_tool n = [] then None else Some (GStr (nh_resume_tool n)))"
  "gget (needs_human_content n) ''action_url''
     = (if nh_action_url n = [] then None else Some (GStr (nh_action_url n)))"
  "gget (needs_human_content n) ''detail''
     = (if nh_detail n = [] then None else Some (GStr (nh_detail n)))"
  by (simp_all add: needs_human_lookups del: update.simps)

lemma fs_clone_has: "gok fs \<Longrightarrow> fs_has (fs_clone fs) f = fs_has fs f"
  using gget_gmerge [of fs "[]" f] by (simp add: fs_has_def fs_clone_def gmerge_def split: option.splits)

end
