(* ===== verification/Loopback.thy ===== *)
theory Loopback
  imports Prelude
begin

text \<open>
  \<open>transport/loopback/loopback.go\<close>: the listener or base URL the out-of-band routes are
  served from. The outcome of \<open>net.Listen\<close> (an error or the bound address) is an argument;
  the HTTP server itself is the network and is not modelled beyond "started".
\<close>

record loopback =
  lb_base :: string
  lb_trusted :: "string list"
  lb_listener :: "string option" \<comment> \<open>the address of the listener, when there is one\<close>
  lb_srv :: bool

definition new_loopback :: loopback where
  "new_loopback = \<lparr>lb_base = [], lb_trusted = [], lb_listener = None, lb_srv = False\<rparr>"

definition lb_SetBaseURL :: "string \<Rightarrow> loopback \<Rightarrow> loopback" where
  "lb_SetBaseURL url l = l\<lparr>lb_base := trim_right CHR ''/'' url\<rparr>"

text \<open>
  The result is the error, whether the routes were registered on a fresh mux, and the
  state.
\<close>

definition EnsureLoopback ::
  "('e, string) result \<Rightarrow> loopback \<Rightarrow> ('e option \<times> bool) \<times> loopback" where
  "EnsureLoopback listen l =
     (if lb_base l \<noteq> [] then ((None, False), l)
      else if lb_srv l then ((None, False), l)
      else (case listen of
              Inl e \<Rightarrow> ((Some e, False), l)
            | Inr addr \<Rightarrow> ((None, True), l\<lparr>lb_listener := Some addr, lb_srv := True\<rparr>)))"

definition lb_Stop :: "loopback \<Rightarrow> loopback" where
  "lb_Stop l = l\<lparr>lb_srv := False, lb_listener := None\<rparr>"

definition loopbackAddr :: "loopback \<Rightarrow> string" where
  "loopbackAddr l = (case lb_listener l of Some a \<Rightarrow> a | None \<Rightarrow> ''127.0.0.1:0'')"

definition URLFor :: "string \<Rightarrow> string \<Rightarrow> loopback \<Rightarrow> string" where
  "URLFor prefix token l =
     (if lb_base l \<noteq> [] then lb_base l @ ''/'' @ prefix @ ''/'' @ token
      else ''http://'' @ loopbackAddr l @ ''/'' @ prefix @ ''/'' @ token)"

definition Origin :: "loopback \<Rightarrow> string" where
  "Origin l = (if lb_base l \<noteq> [] then lb_base l else ''http://'' @ loopbackAddr l)"

definition AcceptedOrigins :: "loopback \<Rightarrow> string list" where
  "AcceptedOrigins l =
     (let origin = (if lb_base l = [] then ''http://'' @ loopbackAddr l else lb_base l)
      in (if origin \<noteq> [] then [origin] else []) @ lb_trusted l)"

text \<open>The body of the loop over the origins to add.\<close>

definition add_origin :: "string \<Rightarrow> string list \<Rightarrow> string list" where
  "add_origin o1 trusted =
     (let o2 = trim_right CHR ''/'' o1
      in if o2 = [] then trusted
         else if list_ex (\<lambda>ex. equal_fold ex o2) trusted then trusted
         else trusted @ [o2])"

definition AddTrustedOrigins :: "string list \<Rightarrow> loopback \<Rightarrow> loopback" where
  "AddTrustedOrigins origins l = l\<lparr>lb_trusted := fold add_origin origins (lb_trusted l)\<rparr>"

section \<open>The allowlist\<close>

text \<open>No empty origin, none with a trailing slash, no two that browsers would identify.\<close>

definition trusted_ok :: "string list \<Rightarrow> bool" where
  "trusted_ok ts \<longleftrightarrow> distinct (map to_lower ts) \<and> [] \<notin> set ts \<and> (\<forall>t \<in> set ts. \<not> has_suffix t ''/'')"

lemma trim_right_no_suffix: "\<not> has_suffix (trim_right c s) [c]"
proof -
  have "\<not> has_prefix (dropWhile (\<lambda>x. x = c) cs) [c]" for cs
    by (induction cs) auto
  then show ?thesis by (simp only: has_suffix_def trim_right_def rev_rev_ident rev_singleton_conv)
      (simp add: has_prefix_iff)
qed

lemma add_origin_ok: "trusted_ok ts \<Longrightarrow> trusted_ok (add_origin x ts)"
  using trim_right_no_suffix [of "CHR ''/''" x]
  by (auto simp: trusted_ok_def add_origin_def Let_def list_ex_iff equal_fold_def)

lemma add_origin_prefix: "\<exists>r. add_origin x ts = ts @ r"
  by (auto simp: add_origin_def Let_def)

lemma add_origins_prefix: "\<exists>r. fold add_origin xs ts = ts @ r"
proof (induction xs arbitrary: ts)
  case Nil
  then show ?case by simp
next
  case (Cons x xs)
  obtain r where r: "add_origin x ts = ts @ r" using add_origin_prefix by blast
  obtain q where "fold add_origin xs (ts @ r) = (ts @ r) @ q" using Cons.IH by blast
  with r show ?case by simp
qed

lemma add_origins_ok: "trusted_ok ts \<Longrightarrow> trusted_ok (fold add_origin xs ts)"
  by (induction xs arbitrary: ts) (auto simp: add_origin_ok)

lemma add_origin_covers:
  "trim_right CHR ''/'' x \<noteq> [] \<Longrightarrow> \<exists>t \<in> set (add_origin x ts). equal_fold t (trim_right CHR ''/'' x)"
  by (auto simp: add_origin_def Let_def list_ex_iff)

lemma add_origins_covers:
  "x \<in> set xs \<Longrightarrow> trim_right CHR ''/'' x \<noteq> [] \<Longrightarrow>
   \<exists>t \<in> set (fold add_origin xs ts). equal_fold t (trim_right CHR ''/'' x)"
proof (induction xs arbitrary: ts)
  case Nil
  then show ?case by simp
next
  case (Cons y ys)
  show ?case
  proof (cases "x = y")
    case True
    obtain t where t: "t \<in> set (add_origin x ts)" "equal_fold t (trim_right CHR ''/'' x)"
      using add_origin_covers [OF Cons.prems(2)] by blast
    moreover obtain r where "fold add_origin ys (add_origin x ts) = add_origin x ts @ r"
      using add_origins_prefix by blast
    ultimately show ?thesis using True by auto
  next
    case False
    with Cons show ?thesis by simp
  qed
qed

lemma add_origins_sound:
  "t \<in> set (fold add_origin xs ts) \<Longrightarrow> t \<in> set ts \<or> (\<exists>x \<in> set xs. t = trim_right CHR ''/'' x)"
proof (induction xs arbitrary: ts)
  case Nil
  then show ?case by simp
next
  case (Cons y ys)
  then have "t \<in> set (add_origin y ts) \<or> (\<exists>x \<in> set ys. t = trim_right CHR ''/'' x)" by simp
  then show ?case by (auto simp: add_origin_def Let_def split: if_splits)
qed

section \<open>Properties\<close>

text \<open>
  \<open>AddTrustedOrigins\<close> keeps the allowlist well formed (no empty entry, no trailing
  slash, no two entries equal up to case), keeps every origin that was trusted, trusts every
  non-empty origin it was given up to case, and adds nothing else; \<open>AcceptedOrigins\<close> is then
  the server's own origin followed by exactly that list.
\<close>

theorem trusted_origins_update:
  assumes "trusted_ok (lb_trusted l)"
  shows "let l' = AddTrustedOrigins origins l in
     trusted_ok (lb_trusted l')
   \<and> (\<exists>r. lb_trusted l' = lb_trusted l @ r
         \<and> (\<forall>t \<in> set r. \<exists>x \<in> set origins. t = trim_right CHR ''/'' x))
   \<and> (\<forall>x \<in> set origins. trim_right CHR ''/'' x \<noteq> [] \<longrightarrow>
        (\<exists>t \<in> set (AcceptedOrigins l'). equal_fold t (trim_right CHR ''/'' x)))
   \<and> AcceptedOrigins l' = Origin l # lb_trusted l'"
proof -
  let ?ts = "fold add_origin origins (lb_trusted l)"
  obtain r where r: "?ts = lb_trusted l @ r" using add_origins_prefix by blast
  have ok: "trusted_ok ?ts" using assms by (rule add_origins_ok)
  have new: "\<exists>x \<in> set origins. t = trim_right CHR ''/'' x" if "t \<in> set r" for t
  proof -
    have "t \<notin> set (lb_trusted l)" using ok that r by (auto simp: trusted_ok_def)
    then show ?thesis using add_origins_sound [of t origins "lb_trusted l"] r that by auto
  qed
  have acc: "AcceptedOrigins (AddTrustedOrigins origins l) = Origin l # ?ts"
    by (auto simp: AcceptedOrigins_def AddTrustedOrigins_def Origin_def loopbackAddr_def Let_def)
  show ?thesis
    using ok r new acc add_origins_covers [of _ origins "lb_trusted l"]
    by (fastforce simp: Let_def AddTrustedOrigins_def)
qed

theorem trusted_origins_update_witness:
  "lb_trusted (AddTrustedOrigins [''https://A.com/'', ''https://a.com'', ''/''] new_loopback)
     = [''https://A.com'']
   \<and> trusted_ok (lb_trusted (AddTrustedOrigins [''https://A.com/'', ''https://a.com'', ''/''] new_loopback))"
proof -
  have ok: "trusted_ok (lb_trusted new_loopback)" by (simp add: new_loopback_def trusted_ok_def)
  have val: "lb_trusted (AddTrustedOrigins [''https://A.com/'', ''https://a.com'', ''/''] new_loopback)
      = [''https://A.com'']" by code_simp
  from trusted_origins_update [OF ok, of "[''https://A.com/'', ''https://a.com'', ''/'']"] val
  show ?thesis by (simp only: Let_def)
qed

end
