(* ===== verification/Http.thy ===== *)
theory Http
  imports Prelude
begin

text \<open>
  What the handlers use of \<open>net/http\<close>: a request (method, path, headers, form), a response
  (status, headers, body), \<open>http.NotFound\<close>, \<open>http.Error\<close> and \<open>html.EscapeString\<close>. Header
  names are in canonical form and a header is its first value, as \<open>Header.Get\<close> reads it.
\<close>

record http_request =
  rq_method :: string
  rq_path :: string
  rq_headers :: "(string, string) gomap"

record http_response =
  hr_status :: nat
  hr_headers :: "(string, string) gomap"
  hr_body :: string

definition header_get :: "http_request \<Rightarrow> string \<Rightarrow> string" where
  "header_get r k = (case gget (rq_headers r) k of None \<Rightarrow> [] | Some v \<Rightarrow> v)"

definition http_Error :: "(string, string) gomap \<Rightarrow> string \<Rightarrow> nat \<Rightarrow> http_response" where
  "http_Error hs msg code =
     \<lparr>hr_status = code,
      hr_headers = gset ''X-Content-Type-Options'' ''nosniff''
                     (gset ''Content-Type'' ''text/plain; charset=utf-8'' (gdel ''Content-Length'' hs)),
      hr_body = msg @ [CHR 0x0A]\<rparr>"

definition http_NotFound :: http_response where
  "http_NotFound = http_Error [] ''404 page not found'' 404"

text \<open>\<open>html.EscapeString\<close> escapes five bytes.\<close>

definition html_escape_char :: "char \<Rightarrow> string" where
  "html_escape_char c =
     (if c = CHR ''&'' then ''&amp;''
      else if c = CHR 0x27 then ''&#39;''
      else if c = CHR ''<'' then ''&lt;''
      else if c = CHR ''>'' then ''&gt;''
      else if c = CHR 0x22 then ''&#34;''
      else [c])"

definition html_escape :: "string \<Rightarrow> string" where
  "html_escape s = concat (map html_escape_char s)"

lemma http_Error_status [simp]: "hr_status (http_Error hs msg code) = code"
  by (simp add: http_Error_def)

lemma http_NotFound_status [simp]: "hr_status http_NotFound = 404"
  by (simp add: http_NotFound_def)

text \<open>Escaped text holds no byte that opens a tag or closes an attribute.\<close>

lemma html_escape_safe: "set (html_escape s) \<inter> {CHR ''<'', CHR ''>'', CHR 0x22, CHR 0x27} = {}"
proof -
  have "set (html_escape_char c) \<inter> {CHR ''<'', CHR ''>'', CHR 0x22, CHR 0x27} = {}" for c
    by (simp add: html_escape_char_def)
  then show ?thesis by (auto simp: html_escape_def)
qed

section \<open>Contexts\<close>

text \<open>
  What the handlers use of a \<open>context.Context\<close>: the API credential \<open>credctx\<close> keeps under its
  own key, and whether the context can still be cancelled by its request.
\<close>

record go_context =
  cx_jwt :: "string option"
  cx_detached :: bool

definition cred_With :: "go_context \<Rightarrow> string \<Rightarrow> go_context" where
  "cred_With c jwt = c\<lparr>cx_jwt := Some jwt\<rparr>"

definition cred_From :: "go_context \<Rightarrow> string" where
  "cred_From c = (case cx_jwt c of Some v \<Rightarrow> v | None \<Rightarrow> [])"

definition WithoutCancel :: "go_context \<Rightarrow> go_context" where
  "WithoutCancel c = c\<lparr>cx_detached := True\<rparr>"

lemma cred_From_With [simp]: "cred_From (cred_With c jwt) = jwt"
  by (simp add: cred_From_def cred_With_def)

end
