(* ===== verification/Handoff.thy ===== *)
theory Handoff
  imports Http Loopback Contracts
begin

text \<open>
  \<open>handoff/handoff.go\<close>, \<open>sameorigin.go\<close> and \<open>notactive.go\<close>: the one-time endpoint behind every
  hand-off page. The endpoint's maps are changed only under its mutex, so each method is
  one step; \<open>handle\<close> holds the mutex only inside \<open>Resolve\<close> and \<open>Remove\<close>, so the steps of
  other goroutines (and of the concrete handler) between the two are an argument of it.
  The concrete handler, an interface, is a parameter, as are \<open>url.Parse\<close>, the token source
  and the listener. Payloads are opaque.
\<close>

section \<open>The not-active page\<close>

definition ReasonExpired :: string where "ReasonExpired = ''expired''"
definition ReasonUsed :: string where "ReasonUsed = ''used''"

definition defaultNotActivePage :: "http_request \<Rightarrow> string \<Rightarrow> string \<Rightarrow> http_response" where
  "defaultNotActivePage r reason detail =
     (let title = (if reason = ReasonExpired then ''Link Expired'' else ''Link No Longer Active'')
      in \<lparr>hr_status = 410, hr_headers = [(''Content-Type'', ''text/html; charset=utf-8'')],
          hr_body = ''<!DOCTYPE html><html><head><title>'' @ html_escape title
            @ ''</title></head><body><h1>'' @ html_escape title @ ''</h1><p>'' @ html_escape detail
            @ ''</p></body></html>''\<rparr>)"

section \<open>Same-origin check\<close>

definition origin_matches :: "string list \<Rightarrow> string \<Rightarrow> bool" where
  "origin_matches accepted candidate \<longleftrightarrow>
     candidate \<noteq> [] \<and> list_ex (\<lambda>a. equal_fold candidate a) accepted"

text \<open>\<open>url_parse\<close> gives the scheme and the host of a URL, \<open>None\<close> on a parse error.\<close>

definition SameOrigin ::
  "(string \<Rightarrow> (string \<times> string) option) \<Rightarrow> http_request \<Rightarrow> string list \<Rightarrow> bool" where
  "SameOrigin url_parse r accepted =
     (let origin = header_get r ''Origin''; referer = header_get r ''Referer''
      in if origin \<noteq> [] then origin_matches accepted origin
         else if referer \<noteq> [] then
           (case url_parse referer of
              None \<Rightarrow> False
            | Some (scheme, host) \<Rightarrow> origin_matches accepted (scheme @ ''://'' @ host))
         else False)"

section \<open>The endpoint\<close>

definition MaxSpentTombstones :: nat where
  "MaxSpentTombstones = 10000"

definition DefaultHandoffTTL :: duration where
  "DefaultHandoffTTL = 30 * minute"

record 'p item =
  it_payload :: 'p
  it_expires :: time

record 'p endpoint =
  he_items :: "(string, 'p item) gomap"
  he_spent :: "(string, time) gomap"
  he_order :: "string list"
  he_ttl :: duration
  he_prefix :: string
  he_page :: "http_request \<Rightarrow> string \<Rightarrow> string \<Rightarrow> http_response"
  he_reaper :: bool
  he_loopback :: loopback

definition new_endpoint :: "string \<Rightarrow> duration \<Rightarrow> 'p endpoint" where
  "new_endpoint prefix ttl =
     \<lparr>he_items = [], he_spent = [], he_order = [],
      he_ttl = (if ttl \<le> 0 then DefaultHandoffTTL else ttl),
      he_prefix = trim_right CHR ''/'' (trim_left CHR ''/'' prefix),
      he_page = defaultNotActivePage, he_reaper = False, he_loopback = new_loopback\<rparr>"

definition WithNotActivePage ::
  "(http_request \<Rightarrow> string \<Rightarrow> string \<Rightarrow> http_response) option \<Rightarrow> 'p endpoint \<Rightarrow> 'p endpoint" where
  "WithNotActivePage f h = (case f of None \<Rightarrow> h | Some p \<Rightarrow> h\<lparr>he_page := p\<rparr>)"

definition SetBaseURL :: "string \<Rightarrow> 'p endpoint \<Rightarrow> 'p endpoint" where
  "SetBaseURL url h = h\<lparr>he_loopback := lb_SetBaseURL url (he_loopback h)\<rparr>"

definition Mint ::
  "('e, string) result \<Rightarrow> string \<Rightarrow> time \<Rightarrow> 'p \<Rightarrow> 'p endpoint \<Rightarrow> string \<times> 'p endpoint" where
  "Mint listen token now payload h =
     (case EnsureLoopback listen (he_loopback h) of
        ((Some e, started), lb) \<Rightarrow> ([], h\<lparr>he_loopback := lb\<rparr>)
      | ((None, started), lb) \<Rightarrow>
          let h' = h\<lparr>he_loopback := lb,
                     he_items := gset token \<lparr>it_payload = payload, it_expires = now + he_ttl h\<rparr>
                                   (he_items h)\<rparr>
          in (URLFor (he_prefix h') token (he_loopback h'), h'))"

definition markSpent :: "string \<Rightarrow> time \<Rightarrow> 'p endpoint \<Rightarrow> 'p endpoint" where
  "markSpent token at h =
     (if gget (he_spent h) token \<noteq> None then h
      else h\<lparr>he_spent := gset token at (he_spent h), he_order := he_order h @ [token]\<rparr>)"

text \<open>The loop of \<open>pruneSpentLocked\<close>, on the order and the map, for a cap.\<close>

fun prune_fifo :: "nat \<Rightarrow> string list \<Rightarrow> (string, 'v) gomap \<Rightarrow> string list \<times> (string, 'v) gomap" where
  "prune_fifo cap [] spent = ([], spent)"
| "prune_fifo cap (oldest # rest) spent =
     (if cap < length spent then prune_fifo cap rest (gdel oldest spent)
      else (oldest # rest, spent))"

definition pruneSpent :: "'p endpoint \<Rightarrow> 'p endpoint" where
  "pruneSpent h =
     (case prune_fifo MaxSpentTombstones (he_order h) (he_spent h) of
        (order, spent) \<Rightarrow> h\<lparr>he_order := order, he_spent := spent\<rparr>)"

definition Resolve :: "time \<Rightarrow> string \<Rightarrow> 'p endpoint \<Rightarrow> ('p item option \<times> string) \<times> 'p endpoint" where
  "Resolve now token h0 =
     (let h = pruneSpent h0
      in if gget (he_spent h) token \<noteq> None then ((None, ReasonUsed), h)
         else (case gget (he_items h) token of
                 None \<Rightarrow> ((None, []), h)
               | Some it \<Rightarrow>
                   if after now (it_expires it)
                   then ((None, ReasonExpired),
                         markSpent token now (h\<lparr>he_items := gdel token (he_items h)\<rparr>))
                   else ((Some it, []), h)))"

definition lookup_item :: "time \<Rightarrow> string \<Rightarrow> 'p endpoint \<Rightarrow> 'p item option \<times> 'p endpoint" where
  "lookup_item now token h0 = (case Resolve now token h0 of ((it, reason), h) \<Rightarrow> (it, h))"

definition get_item :: "time \<Rightarrow> string \<Rightarrow> 'p endpoint \<Rightarrow> 'p item option \<times> 'p endpoint" where
  "get_item now token h = lookup_item now token h"

definition ep_Prefix :: "'p endpoint \<Rightarrow> string" where
  "ep_Prefix h = he_prefix h"

text \<open>A copy, filled entry by entry.\<close>

definition Spent :: "'p endpoint \<Rightarrow> (string, time) gomap" where
  "Spent h = fold (\<lambda>(k, v) m. gset k v m) (he_spent h) []"

definition RangeItems :: "(string \<Rightarrow> 'p item \<Rightarrow> 'w \<Rightarrow> 'w) \<Rightarrow> 'p endpoint \<Rightarrow> 'w \<Rightarrow> 'w" where
  "RangeItems fn h w = fold (\<lambda>(token, it). fn token it) (he_items h) w"

definition Remove :: "time \<Rightarrow> string \<Rightarrow> 'p endpoint \<Rightarrow> 'p endpoint" where
  "Remove now token h =
     pruneSpent (markSpent token now (h\<lparr>he_items := gdel token (he_items h)\<rparr>))"

definition Claim :: "time \<Rightarrow> string \<Rightarrow> 'p endpoint \<Rightarrow> bool \<times> 'p endpoint" where
  "Claim now token h =
     (if gget (he_items h) token = None then (False, h) else (True, Remove now token h))"

definition pruneExpired :: "time \<Rightarrow> 'p endpoint \<Rightarrow> 'p endpoint" where
  "pruneExpired now h =
     pruneSpent
       (fold (\<lambda>(token, it) g. if after now (it_expires it)
                then markSpent token now (g\<lparr>he_items := gdel token (he_items g)\<rparr>) else g)
          (he_items h) h)"

definition Count :: "time \<Rightarrow> 'p endpoint \<Rightarrow> nat \<times> 'p endpoint" where
  "Count now h = (let g = pruneExpired now h in (length (he_items g), g))"

definition StartReaper :: "'p endpoint \<Rightarrow> 'p endpoint" where
  "StartReaper h = (if he_reaper h then h else h\<lparr>he_reaper := True\<rparr>)"

definition Stop :: "'p endpoint \<Rightarrow> 'p endpoint" where
  "Stop h = h\<lparr>he_reaper := False, he_loopback := lb_Stop (he_loopback h)\<rparr>"

text \<open>The steps of the endpoint, as other goroutines may interleave them.\<close>

datatype 'p ep_op =
    EResolve time string
  | ERemove time string
  | EClaim time string
  | EMint "(string, string) result" string time 'p
  | EPrune time
  | EStop

fun ep_step :: "'p ep_op \<Rightarrow> 'p endpoint \<Rightarrow> 'p endpoint" where
  "ep_step (EResolve now k) h = snd (Resolve now k h)"
| "ep_step (ERemove now k) h = Remove now k h"
| "ep_step (EClaim now k) h = snd (Claim now k h)"
| "ep_step (EMint listen k now p) h = snd (Mint listen k now p h)"
| "ep_step (EPrune now) h = pruneExpired now h"
| "ep_step EStop h = Stop h"

definition ep_run :: "'p ep_op list \<Rightarrow> 'p endpoint \<Rightarrow> 'p endpoint" where
  "ep_run ops h = fold ep_step ops h"

section \<open>Serving a request\<close>

record 'p page_handler =
  ph_render :: "http_request \<Rightarrow> string \<Rightarrow> 'p item \<Rightarrow> http_response"
  ph_consume_on_get :: bool
  ph_post :: "http_request \<Rightarrow> string \<Rightarrow> 'p item \<Rightarrow> bool \<times> http_response"

datatype dispatch = NotDispatched | RanGET | RanPOST

definition spentPage :: "http_request \<Rightarrow> string \<Rightarrow> 'p endpoint \<Rightarrow> http_response" where
  "spentPage r reason h =
     (let detail = (if reason = ReasonExpired then ''This one-time link expired before it was used.''
                    else ''This one-time link cannot be used again.'')
      in he_page h r reason detail)"

definition request_token :: "http_request \<Rightarrow> 'p endpoint \<Rightarrow> string" where
  "request_token r h = trim_prefix (rq_path r) (''/'' @ he_prefix h @ ''/'')"

text \<open>
  \<open>handle\<close>: the request is resolved at \<open>now\<close>; \<open>mid\<close> are the steps on the endpoint while the
  concrete handler runs, its own and those of other goroutines; \<open>later\<close> is the clock when
  the handler has returned.
\<close>

definition handle ::
  "(string \<Rightarrow> (string \<times> string) option) \<Rightarrow> 'p page_handler \<Rightarrow> time \<Rightarrow> 'p ep_op list \<Rightarrow> time \<Rightarrow>
   http_request \<Rightarrow> 'p endpoint \<Rightarrow> (dispatch \<times> http_response) \<times> 'p endpoint" where
  "handle url_parse ph now mid later r h0 =
     (let token = request_token r h0
      in case Resolve now token h0 of
           ((None, reason), h) \<Rightarrow>
             if reason \<noteq> [] then ((NotDispatched, spentPage r reason h), h)
             else ((NotDispatched, http_NotFound), h)
         | ((Some it, reason), h) \<Rightarrow>
             if rq_method r = ''GET'' then
               let resp = ph_render ph r token it; h' = ep_run mid h
               in ((RanGET, resp), if ph_consume_on_get ph then Remove later token h' else h')
             else if rq_method r = ''POST'' then
               (if \<not> SameOrigin url_parse r (AcceptedOrigins (he_loopback h)) then
                  ((NotDispatched,
                    http_Error [(''X-Content-Type-Options'', ''nosniff'')] ''forbidden'' 403), h)
                else
                  let (consumed, resp) = ph_post ph r token it; h' = ep_run mid h
                  in ((RanPOST, resp), if consumed then Remove later token h' else h'))
             else
               ((NotDispatched,
                 http_Error [(''Allow'', ''GET, POST'')] ''method not allowed'' 405), h))"

section \<open>The tombstones\<close>

definition retained :: "nat \<Rightarrow> 'a list \<Rightarrow> 'a list" where
  "retained cap xs = drop (length xs - cap) xs"

lemma prune_fifo_exact:
  "fifo_inv order spent \<Longrightarrow> prune_fifo cap order spent = (order', spent') \<Longrightarrow>
     order' = retained cap order \<and> fifo_inv order' spent' \<and>
     (\<forall>k. gget spent' k = (if k \<in> set order' then gget spent k else None))"
proof (induction cap order spent rule: prune_fifo.induct)
  case (1 cap spent)
  then show ?case by (auto simp: retained_def fifo_inv_def)
next
  case (2 cap x xs spent)
  show ?case
  proof (cases "cap < length spent")
    case True
    have tail: "fifo_inv xs (gdel x spent)" using "2.prems"(1) by (rule fifo_tail)
    have len: "length spent = Suc (length xs)" using fifo_length [OF "2.prems"(1)] by simp
    have step: "prune_fifo cap xs (gdel x spent) = (order', spent')"
      using "2.prems"(2) True by simp
    note ih = "2.IH" [OF True tail step]
    have "Suc (length xs) - cap = Suc (length xs - cap)" using True len by simp
    then have "retained cap (x # xs) = retained cap xs" by (simp add: retained_def)
    moreover have "x \<notin> set order'"
      using ih "2.prems"(1) by (auto simp: retained_def fifo_inv_def dest: in_set_dropD)
    ultimately show ?thesis using ih by auto
  next
    case False
    then have "length (x # xs) \<le> cap" using fifo_length [OF "2.prems"(1)] by simp
    then have "order' = retained cap (x # xs)" "spent' = spent"
      using False "2.prems"(2) by (auto simp: retained_def)
    with "2.prems" False fifo_get [OF "2.prems"(1)] show ?thesis by simp
  qed
qed

lemma length_retained: "length (retained cap xs) = min cap (length xs)"
  by (simp add: retained_def)

lemma set_retained: "set (retained cap xs) \<subseteq> set xs"
  by (simp add: retained_def set_drop_subset)

lemma retained_id: "length xs \<le> cap \<Longrightarrow> retained cap xs = xs"
  by (simp add: retained_def)

definition ep_inv :: "'p endpoint \<Rightarrow> bool" where
  "ep_inv h \<longleftrightarrow> gok (he_items h) \<and> fifo_inv (he_order h) (he_spent h)"

lemma ep_inv_new: "ep_inv (new_endpoint prefix ttl)"
  by (simp add: ep_inv_def new_endpoint_def fifo_inv_def)

text \<open>What \<open>markSpent\<close> and \<open>pruneSpent\<close> do, field by field.\<close>

lemma markSpent_items [simp]: "he_items (markSpent k t h) = he_items h"
  by (simp add: markSpent_def)

lemma pruneSpent_items [simp]: "he_items (pruneSpent h) = he_items h"
  by (simp add: pruneSpent_def split: prod.splits)

lemma markSpent_static [simp]:
  "he_loopback (markSpent k t h) = he_loopback h" "he_prefix (markSpent k t h) = he_prefix h"
  "he_page (markSpent k t h) = he_page h" "he_ttl (markSpent k t h) = he_ttl h"
  by (simp_all add: markSpent_def)

lemma pruneSpent_static [simp]:
  "he_loopback (pruneSpent h) = he_loopback h" "he_prefix (pruneSpent h) = he_prefix h"
  "he_page (pruneSpent h) = he_page h" "he_ttl (pruneSpent h) = he_ttl h"
  by (simp_all add: pruneSpent_def split: prod.splits)

lemma markSpent_if:
  "markSpent k t h = (if k \<in> gkeys (he_spent h) then h
     else h\<lparr>he_spent := gset k t (he_spent h), he_order := he_order h @ [k]\<rparr>)"
  by (simp only: markSpent_def gget_not_None)

lemma markSpent_order:
  "he_order (markSpent k t h) = he_order h @ (if k \<in> gkeys (he_spent h) then [] else [k])"
  by (simp add: markSpent_if)

lemma markSpent_spent:
  "gget (he_spent (markSpent k t h)) j =
     (if j = k \<and> k \<notin> gkeys (he_spent h) then Some t else gget (he_spent h) j)"
  by (simp add: markSpent_if)

lemma markSpent_fifo:
  "fifo_inv (he_order h) (he_spent h) \<Longrightarrow>
   fifo_inv (he_order (markSpent k t h)) (he_spent (markSpent k t h))"
  by (auto simp: markSpent_if fifo_inv_def)

lemma markSpent_inv: "ep_inv h \<Longrightarrow> ep_inv (markSpent k t h)"
  by (simp add: ep_inv_def markSpent_fifo)

lemma pruneSpent_order: "ep_inv h \<Longrightarrow> he_order (pruneSpent h) = retained MaxSpentTombstones (he_order h)"
  using prune_fifo_exact [of "he_order h" "he_spent h" MaxSpentTombstones]
  by (simp add: pruneSpent_def ep_inv_def split: prod.splits)

lemma pruneSpent_inv: "ep_inv h \<Longrightarrow> ep_inv (pruneSpent h)"
  using prune_fifo_exact [of "he_order h" "he_spent h" MaxSpentTombstones]
  by (simp add: pruneSpent_def ep_inv_def split: prod.splits)

lemma pruneSpent_spent:
  "ep_inv h \<Longrightarrow> gget (he_spent (pruneSpent h)) k =
     (if k \<in> set (retained MaxSpentTombstones (he_order h)) then gget (he_spent h) k else None)"
  using prune_fifo_exact [of "he_order h" "he_spent h" MaxSpentTombstones]
  by (auto simp: pruneSpent_def ep_inv_def split: prod.splits)

lemma ep_inv_gdel: "ep_inv h \<Longrightarrow> ep_inv (h\<lparr>he_items := gdel k (he_items h)\<rparr>)"
  by (simp add: ep_inv_def)

lemma ep_inv_keys: "ep_inv h \<Longrightarrow> set (he_order h) = gkeys (he_spent h)"
  by (simp add: ep_inv_def fifo_inv_def)

section \<open>The steps\<close>

text \<open>What each operation does to the pending items and to the order of the tombstones.\<close>

abbreviation item_dead :: "time \<Rightarrow> 'p item \<Rightarrow> bool" where
  "item_dead now it \<equiv> after now (it_expires it)"

lemma Remove_inv: "ep_inv h \<Longrightarrow> ep_inv (Remove now k h)"
  by (simp add: Remove_def pruneSpent_inv markSpent_inv ep_inv_gdel)

lemma Remove_items [simp]: "he_items (Remove now k h) = gdel k (he_items h)"
  by (simp add: Remove_def)

lemma Remove_order:
  "ep_inv h \<Longrightarrow> he_order (Remove now k h) =
     retained MaxSpentTombstones (he_order h @ (if k \<in> gkeys (he_spent h) then [] else [k]))"
  by (simp add: Remove_def pruneSpent_order markSpent_inv ep_inv_gdel markSpent_order)

lemma Claim_inv: "ep_inv h \<Longrightarrow> ep_inv (snd (Claim now k h))"
  by (simp add: Claim_def Remove_inv)

lemma Claim_iff: "fst (Claim now k h) \<longleftrightarrow> k \<in> gkeys (he_items h)"
  using gget_None [of "he_items h" k] by (simp add: Claim_def)

lemma Claim_items: "he_items (snd (Claim now k h)) = gdel k (he_items h)"
  using gget_None [of "he_items h" k] by (simp add: Claim_def gdel_id)

text \<open>\<open>Resolve\<close> in three cases.\<close>

lemma Resolve_used:
  "k \<in> gkeys (he_spent (pruneSpent h)) \<Longrightarrow> Resolve now k h = ((None, ReasonUsed), pruneSpent h)"
  using gget_not_None [of "he_spent (pruneSpent h)" k] by (simp add: Resolve_def)

lemma Resolve_unknown:
  "k \<notin> gkeys (he_spent (pruneSpent h)) \<Longrightarrow> gget (he_items h) k = None \<Longrightarrow>
   Resolve now k h = ((None, []), pruneSpent h)"
  using gget_None [of "he_spent (pruneSpent h)" k] by (simp add: Resolve_def)

lemma Resolve_pending:
  "k \<notin> gkeys (he_spent (pruneSpent h)) \<Longrightarrow> gget (he_items h) k = Some it \<Longrightarrow>
   Resolve now k h =
     (if item_dead now it
      then ((None, ReasonExpired),
            markSpent k now (pruneSpent h\<lparr>he_items := gdel k (he_items h)\<rparr>))
      else ((Some it, []), pruneSpent h))"
  using gget_None [of "he_spent (pruneSpent h)" k] by (simp add: Resolve_def)

lemma Resolve_cases:
  obtains (used) "k \<in> gkeys (he_spent (pruneSpent h))" "Resolve now k h = ((None, ReasonUsed), pruneSpent h)"
    | (unknown) "k \<notin> gkeys (he_spent (pruneSpent h))" "gget (he_items h) k = None"
        "Resolve now k h = ((None, []), pruneSpent h)"
    | (expired) it where "k \<notin> gkeys (he_spent (pruneSpent h))" "gget (he_items h) k = Some it"
        "item_dead now it" "Resolve now k h = ((None, ReasonExpired),
            markSpent k now (pruneSpent h\<lparr>he_items := gdel k (he_items h)\<rparr>))"
    | (live) it where "k \<notin> gkeys (he_spent (pruneSpent h))" "gget (he_items h) k = Some it"
        "\<not> item_dead now it" "Resolve now k h = ((Some it, []), pruneSpent h)"
proof (cases "k \<in> gkeys (he_spent (pruneSpent h))")
  case True
  then show thesis using used Resolve_used by blast
next
  case False
  show thesis
  proof (cases "gget (he_items h) k")
    case None
    then show thesis using False unknown Resolve_unknown by blast
  next
    case (Some it)
    show thesis
      using False Some expired [of it] live [of it] Resolve_pending [OF False Some]
      by (cases "item_dead now it") auto
  qed
qed

lemma Resolve_inv: "ep_inv h \<Longrightarrow> ep_inv (snd (Resolve now k h))"
  by (rule Resolve_cases [of k h now])
    (simp_all add: pruneSpent_inv markSpent_inv, metis ep_inv_gdel markSpent_inv pruneSpent_inv pruneSpent_items)

lemma Resolve_items_sub: "gkeys (he_items (snd (Resolve now k h))) \<subseteq> gkeys (he_items h)"
  by (rule Resolve_cases [of k h now]) auto

lemma Resolve_frame:
  "k' \<noteq> k \<Longrightarrow> gget (he_items (snd (Resolve now k h))) k' = gget (he_items h) k'"
  by (rule Resolve_cases [of k h now]) auto

lemma Resolve_Some: "fst (fst (Resolve now k h)) = Some it \<Longrightarrow> gget (he_items h) k = Some it"
  by (rule Resolve_cases [of k h now]) auto

abbreviation expire_item :: "time \<Rightarrow> string \<times> 'p item \<Rightarrow> 'p endpoint \<Rightarrow> 'p endpoint" where
  "expire_item now \<equiv> \<lambda>(token, it) g. if after now (it_expires it)
     then markSpent token now (g\<lparr>he_items := gdel token (he_items g)\<rparr>) else g"

lemma expire_items_inv: "ep_inv g \<Longrightarrow> ep_inv (fold (expire_item now) its g)"
  by (induction its arbitrary: g) (auto simp: markSpent_inv ep_inv_gdel)

lemma expire_items_frame:
  "gget (he_items (fold (expire_item now) its g)) k =
     (if \<exists>it. (k, it) \<in> set its \<and> item_dead now it then None else gget (he_items g) k)"
  by (induction its arbitrary: g) (auto split: if_splits)

lemma expire_items_order:
  "ep_inv g \<Longrightarrow> gok its \<Longrightarrow>
   he_order (fold (expire_item now) its g) =
     he_order g @ filter (\<lambda>k. k \<notin> gkeys (he_spent g)) (map fst (filter (\<lambda>e. item_dead now (snd e)) its))"
proof (induction its arbitrary: g)
  case Nil
  then show ?case by simp
next
  case (Cons e its)
  obtain k it where e: "e = (k, it)" by fastforce
  show ?case
  proof (cases "item_dead now it")
    case True
    let ?g = "markSpent k now (g\<lparr>he_items := gdel k (he_items g)\<rparr>)"
    have inv: "ep_inv ?g" using Cons.prems(1) by (simp add: markSpent_inv ep_inv_gdel)
    have keys: "gkeys (he_spent ?g) = insert k (gkeys (he_spent g))"
      by (auto simp: markSpent_if)
    have "k \<notin> set (map fst its)" using Cons.prems(2) e by simp
    then have "filter (\<lambda>j. j \<notin> insert k (gkeys (he_spent g))) (map fst (filter (\<lambda>e. item_dead now (snd e)) its))
        = filter (\<lambda>j. j \<notin> gkeys (he_spent g)) (map fst (filter (\<lambda>e. item_dead now (snd e)) its))"
      by (intro filter_cong) auto
    then show ?thesis
      using Cons.IH [OF inv] Cons.prems(2) e True
      by (simp only: keys) (simp add: markSpent_order)
  next
    case False
    with Cons e show ?thesis by simp
  qed
qed

lemma pruneExpired_inv: "ep_inv h \<Longrightarrow> ep_inv (pruneExpired now h)"
  unfolding pruneExpired_def by (intro pruneSpent_inv expire_items_inv)

lemma pruneExpired_frame:
  "ep_inv h \<Longrightarrow> gget (he_items (pruneExpired now h)) k =
     (case gget (he_items h) k of None \<Rightarrow> None | Some it \<Rightarrow> if item_dead now it then None else Some it)"
  unfolding pruneExpired_def pruneSpent_items expire_items_frame
  by (cases "gget (he_items h) k")
    (auto simp: ep_inv_def dest: gget_SomeD gok_eq)

lemma pruneExpired_order:
  "ep_inv h \<Longrightarrow> he_order (pruneExpired now h) =
     retained MaxSpentTombstones (he_order h @ filter (\<lambda>k. k \<notin> gkeys (he_spent h))
       (map fst (filter (\<lambda>e. item_dead now (snd e)) (he_items h))))"
  unfolding pruneExpired_def
  by (subst pruneSpent_order) (simp_all add: expire_items_inv expire_items_order ep_inv_def [of h])

lemma Mint_cases:
  obtains (failed) lb where "Mint listen k now p h = ([], h\<lparr>he_loopback := lb\<rparr>)"
    | (minted) lb where "Mint listen k now p h = (URLFor (he_prefix h) k lb,
        h\<lparr>he_loopback := lb,
          he_items := gset k \<lparr>it_payload = p, it_expires = now + he_ttl h\<rparr> (he_items h)\<rparr>)"
proof -
  obtain err started lb where "EnsureLoopback listen (he_loopback h) = ((err, started), lb)"
    by (metis surj_pair)
  with failed [of lb] minted [of lb] show thesis
    by (cases err) (simp_all add: Mint_def Let_def)
qed

lemma Mint_inv: "ep_inv h \<Longrightarrow> ep_inv (snd (Mint listen k now p h))"
  by (rule Mint_cases [of listen k now p h]) (simp_all add: ep_inv_def)

lemma Mint_frame: "k' \<noteq> k \<Longrightarrow> gget (he_items (snd (Mint listen k now p h))) k' = gget (he_items h) k'"
  by (rule Mint_cases [of listen k now p h]) simp_all

lemma Mint_order: "he_order (snd (Mint listen k now p h)) = he_order h"
  by (rule Mint_cases [of listen k now p h]) simp_all

text \<open>A claimed token is claimed once: the endpoint provides the one-time contract.\<close>

definition ep_claim :: "time \<Rightarrow> string \<Rightarrow> 'p endpoint \<Rightarrow> unit option \<times> 'p endpoint" where
  "ep_claim now k h = (case Claim now k h of (ok, h') \<Rightarrow> (if ok then Some () else None, h'))"

definition ep_mint ::
  "time \<Rightarrow> string \<Rightarrow> (string, string) result \<times> 'p \<Rightarrow> 'p endpoint \<Rightarrow> 'p endpoint" where
  "ep_mint now k x h = snd (Mint (fst x) k now (snd x) h)"

interpretation handoffs: one_time_tokens ep_claim ep_mint "\<lambda>h k. k \<in> gkeys (he_items h)" ep_inv
proof (unfold_locales, goal_cases)
  case (1 h t k)
  then show ?case using Claim_iff [of t k h] by (simp add: ep_claim_def split: prod.splits if_splits)
next
  case (2 h t k)
  then show ?case using Claim_items [of t k h] by (simp add: ep_claim_def split: prod.splits)
next
  case (3 h t k k')
  then show ?case using Claim_items [of t k h] by (simp add: ep_claim_def split: prod.splits)
next
  case (4 h k' k t x)
  then show ?case using Mint_frame [OF 4(2), of "fst x" t "snd x" h] gget_not_None
    by (metis ep_mint_def)
next
  case (5 h t k)
  then show ?case using Claim_inv [of h t k] by (auto simp: ep_claim_def split: prod.splits)
next
  case (6 h t k x)
  then show ?case by (simp add: ep_mint_def Mint_inv)
qed

section \<open>Runs\<close>

fun mints_key :: "string \<Rightarrow> 'p ep_op \<Rightarrow> bool" where
  "mints_key k (EMint listen k' now p) = (k' = k)"
| "mints_key k _ = False"

text \<open>The tombstones a step makes, in order.\<close>

fun tombs_of :: "'p ep_op \<Rightarrow> 'p endpoint \<Rightarrow> string list" where
  "tombs_of (EResolve now k) h =
     (if snd (fst (Resolve now k h)) = ReasonExpired then [k] else [])"
| "tombs_of (ERemove now k) h = (if k \<in> gkeys (he_spent h) then [] else [k])"
| "tombs_of (EClaim now k) h =
     (if k \<in> gkeys (he_items h) \<and> k \<notin> gkeys (he_spent h) then [k] else [])"
| "tombs_of (EMint listen k now p) h = []"
| "tombs_of (EPrune now) h =
     filter (\<lambda>k. k \<notin> gkeys (he_spent h)) (map fst (filter (\<lambda>e. item_dead now (snd e)) (he_items h)))"
| "tombs_of EStop h = []"

fun tombs_made :: "'p ep_op list \<Rightarrow> 'p endpoint \<Rightarrow> string list" where
  "tombs_made [] h = []"
| "tombs_made (op # ops) h = tombs_of op h @ tombs_made ops (ep_step op h)"

lemma retained_retained [simp]: "retained cap (retained cap xs) = retained cap xs"
  by (simp add: retained_def)

lemma retained_append_left: "retained cap (retained cap xs @ ys) = retained cap (xs @ ys)"
proof (cases "length xs \<le> cap")
  case True
  then show ?thesis by (simp add: retained_id)
next
  case False
  then show ?thesis by (simp add: retained_def add.commute)
qed

lemma retained_mem: "length ys < cap \<Longrightarrow> x \<in> set (retained cap (xs @ x # ys))"
proof -
  assume "length ys < cap"
  then have n: "length (xs @ x # ys) - cap \<le> length xs" by simp
  have "drop (length (xs @ x # ys) - cap) (xs @ x # ys)
      = drop (length (xs @ x # ys) - cap) xs @ x # ys"
    using n by simp
  then show ?thesis by (simp add: retained_def)
qed

lemma ep_step_inv: "ep_inv h \<Longrightarrow> ep_inv (ep_step op h)"
  by (cases op)
    (simp_all add: Resolve_inv Remove_inv Claim_inv Mint_inv pruneExpired_inv,
     simp add: Stop_def ep_inv_def)

lemma ep_run_inv: "ep_inv h \<Longrightarrow> ep_inv (ep_run ops h)"
  by (induction ops arbitrary: h) (auto simp: ep_run_def ep_step_inv)

lemma Resolve_order:
  assumes "ep_inv h"
  shows "he_order (snd (Resolve now k h)) =
    retained MaxSpentTombstones (he_order h) @ tombs_of (EResolve now k) h"
proof -
  have distinct: "ReasonUsed \<noteq> ReasonExpired" "ReasonExpired \<noteq> []"
    by (simp_all add: ReasonUsed_def ReasonExpired_def)
  show ?thesis
    by (rule Resolve_cases [of k h now])
      (use assms distinct in \<open>simp_all add: pruneSpent_order markSpent_order\<close>)
qed

lemma ep_step_order:
  assumes "ep_inv h"
  shows "retained MaxSpentTombstones (he_order (ep_step op h))
     = retained MaxSpentTombstones (he_order h @ tombs_of op h)"
proof (cases op)
  case (EResolve now k)
  then show ?thesis using Resolve_order [OF assms, of now k] by (simp add: retained_append_left)
next
  case (ERemove now k)
  then show ?thesis using Remove_order [OF assms, of now k] by simp
next
  case (EClaim now k)
  then show ?thesis using Remove_order [OF assms, of now k] gget_not_None [of "he_items h" k]
    by (auto simp: Claim_def)
next
  case (EMint listen k now p)
  then show ?thesis by (simp add: Mint_order)
next
  case (EPrune now)
  then show ?thesis using pruneExpired_order [OF assms, of now] by simp
next
  case EStop
  then show ?thesis by (simp add: Stop_def)
qed

lemma ep_run_order:
  "ep_inv h \<Longrightarrow> retained MaxSpentTombstones (he_order (ep_run ops h))
     = retained MaxSpentTombstones (he_order h @ tombs_made ops h)"
proof (induction ops arbitrary: h)
  case Nil
  then show ?case by (simp add: ep_run_def)
next
  case (Cons op ops)
  have "retained MaxSpentTombstones (he_order (ep_run ops (ep_step op h)))
      = retained MaxSpentTombstones (he_order (ep_step op h) @ tombs_made ops (ep_step op h))"
    using Cons by (simp add: ep_step_inv)
  also have "\<dots> = retained MaxSpentTombstones
      (retained MaxSpentTombstones (he_order (ep_step op h)) @ tombs_made ops (ep_step op h))"
    by (simp only: retained_append_left)
  also have "\<dots> = retained MaxSpentTombstones (he_order h @ tombs_of op h @ tombs_made ops (ep_step op h))"
    using Cons.prems by (simp add: ep_step_order retained_append_left)
  finally show ?case by (simp add: ep_run_def)
qed

lemma ep_step_pending:
  assumes "ep_inv h" and "\<not> mints_key k op" and "k \<notin> gkeys (he_items h)"
  shows "k \<notin> gkeys (he_items (ep_step op h))"
proof (cases op)
  case (EResolve now k')
  then show ?thesis using assms(3) Resolve_items_sub [of now k' h] by auto
next
  case (EClaim now k')
  then show ?thesis using assms(3) by (simp add: Claim_items)
next
  case (EMint listen k' now p)
  then have "k \<noteq> k'" using assms(2) by auto
  then show ?thesis using EMint assms(3) gget_None Mint_frame by (metis ep_step.simps(4))
next
  case (EPrune now)
  have "gget (he_items h) k = None" using assms(3) by (rule gget_None [THEN iffD2])
  then have "gget (he_items (pruneExpired now h)) k = None"
    using pruneExpired_frame [OF assms(1)] by simp
  then show ?thesis using EPrune gget_None [of "he_items (pruneExpired now h)" k] by simp
qed (use assms(3) in \<open>simp_all add: Stop_def\<close>)

lemma ep_run_pending:
  "ep_inv h \<Longrightarrow> list_all (\<lambda>op. \<not> mints_key k op) ops \<Longrightarrow> k \<notin> gkeys (he_items h) \<Longrightarrow>
   k \<notin> gkeys (he_items (ep_run ops h))"
proof (induction ops arbitrary: h)
  case Nil
  then show ?case by (simp add: ep_run_def)
next
  case (Cons op ops)
  have "k \<notin> gkeys (he_items (ep_run ops (ep_step op h)))"
    using Cons.prems by (intro Cons.IH ep_step_inv ep_step_pending) simp_all
  then show ?case by (simp add: ep_run_def)
qed

section \<open>What a link is\<close>

text \<open>
  The abstract state of a one-time link at an instant: never issued (or its tombstone
  evicted), used, expired, or live with its item.
\<close>

datatype 'p link = LUnknown | LUsed | LExpired | LLive "'p item"

definition link_state :: "time \<Rightarrow> 'p endpoint \<Rightarrow> string \<Rightarrow> 'p link" where
  "link_state now h k =
     (if k \<in> set (retained MaxSpentTombstones (he_order h)) then LUsed
      else case gget (he_items h) k of
             None \<Rightarrow> LUnknown
           | Some it \<Rightarrow> if item_dead now it then LExpired else LLive it)"

lemma spent_iff_retained:
  "ep_inv h \<Longrightarrow> k \<in> gkeys (he_spent (pruneSpent h)) \<longleftrightarrow> k \<in> set (retained MaxSpentTombstones (he_order h))"
  using ep_inv_keys [OF pruneSpent_inv] pruneSpent_order by metis

lemma Resolve_link:
  assumes "ep_inv h"
  shows "Resolve now k h =
    (case link_state now h k of
       LUsed \<Rightarrow> ((None, ReasonUsed), pruneSpent h)
     | LUnknown \<Rightarrow> ((None, []), pruneSpent h)
     | LExpired \<Rightarrow> ((None, ReasonExpired),
                   markSpent k now (pruneSpent h\<lparr>he_items := gdel k (he_items h)\<rparr>))
     | LLive it \<Rightarrow> ((Some it, []), pruneSpent h))"
  using spent_iff_retained [OF assms, of k]
  by (cases rule: Resolve_cases [of k h now]) (auto simp: link_state_def)

lemma link_live_pending: "link_state now h k = LLive it \<Longrightarrow> k \<in> gkeys (he_items h)"
  by (auto simp: link_state_def dest: gget_in_keys split: if_splits option.splits)

lemma link_state_used:
  "ep_inv h \<Longrightarrow> he_order h = retained MaxSpentTombstones (xs @ [k]) \<Longrightarrow>
   length (tombs_made ops h) < MaxSpentTombstones \<Longrightarrow> link_state u (ep_run ops h) k = LUsed"
  using ep_run_order [of h ops] retained_mem [of "tombs_made ops h" MaxSpentTombstones k xs]
  by (simp add: link_state_def retained_append_left)

lemma request_token_prune [simp]: "request_token r (pruneSpent h) = request_token r h"
  by (simp add: request_token_def)

lemma reasons_distinct: "ReasonUsed \<noteq> ReasonExpired" "ReasonUsed \<noteq> []" "ReasonExpired \<noteq> []"
  by (simp_all add: ReasonUsed_def ReasonExpired_def)

lemma handle_not_live:
  assumes "ep_inv h" and "\<And>it. link_state now h (request_token r h) \<noteq> LLive it"
  shows "fst (handle url_parse ph now mid later r h) =
    (NotDispatched,
     case link_state now h (request_token r h) of
       LUsed \<Rightarrow> he_page h r ReasonUsed ''This one-time link cannot be used again.''
     | LExpired \<Rightarrow> he_page h r ReasonExpired ''This one-time link expired before it was used.''
     | _ \<Rightarrow> http_NotFound)"
proof (cases "link_state now h (request_token r h)")
  case (LLive it)
  with assms(2) show ?thesis by blast
qed (use assms(1) in \<open>simp_all add: handle_def Resolve_link Let_def spentPage_def reasons_distinct\<close>)

lemma handle_live:
  assumes "ep_inv h" and "link_state now h (request_token r h) = LLive it"
  shows "handle url_parse ph now mid later r h =
    (let k = request_token r h; h' = ep_run mid (pruneSpent h)
     in if rq_method r = ''GET'' then
          ((RanGET, ph_render ph r k it), if ph_consume_on_get ph then Remove later k h' else h')
        else if rq_method r = ''POST'' then
          (if SameOrigin url_parse r (AcceptedOrigins (he_loopback h))
           then ((RanPOST, snd (ph_post ph r k it)),
                 if fst (ph_post ph r k it) then Remove later k h' else h')
           else ((NotDispatched,
                  http_Error [(''X-Content-Type-Options'', ''nosniff'')] ''forbidden'' 403), pruneSpent h))
        else ((NotDispatched, http_Error [(''Allow'', ''GET, POST'')] ''method not allowed'' 405),
              pruneSpent h))"
  using assms by (simp add: handle_def Resolve_link Let_def split: prod.splits)

lemma handle_inv:
  assumes "ep_inv h"
  shows "ep_inv (snd (handle url_parse ph now mid later r h))"
proof (cases "link_state now h (request_token r h)")
  case (LLive it)
  then show ?thesis using assms
    by (simp add: handle_live Let_def Remove_inv ep_run_inv pruneSpent_inv)
next
  case LExpired
  then show ?thesis using assms Resolve_inv [OF assms, of now "request_token r h"]
    by (simp add: handle_def Resolve_link Let_def reasons_distinct)
qed (use assms in \<open>simp_all add: handle_def Resolve_link Let_def reasons_distinct pruneSpent_inv\<close>)

section \<open>Properties\<close>

text \<open>A concrete endpoint and requests to it.\<close>

definition demo_endpoint :: "unit endpoint" where
  "demo_endpoint = snd (Mint (Inr ''127.0.0.1:80'' :: (string, string) result) ''tok'' 0 ()
     (new_endpoint ''/seed/'' 10))"

definition demo_request :: "string \<Rightarrow> string \<Rightarrow> http_request" where
  "demo_request m origin =
     \<lparr>rq_method = m, rq_path = ''/seed/tok'', rq_headers = [(''Origin'', origin)]\<rparr>"

definition demo_handler :: "unit page_handler" where
  "demo_handler = \<lparr>ph_render = \<lambda>r k it. \<lparr>hr_status = 200, hr_headers = [], hr_body = ''secret''\<rparr>,
     ph_consume_on_get = True,
     ph_post = \<lambda>r k it. (True, \<lparr>hr_status = 200, hr_headers = [], hr_body = ''done''\<rparr>)\<rparr>"

definition demo_parse :: "string \<Rightarrow> (string \<times> string) option" where
  "demo_parse u = None"

lemma demo_endpoint_value:
  "demo_endpoint = \<lparr>he_items = [(''tok'', \<lparr>it_payload = (), it_expires = 10\<rparr>)], he_spent = [],
     he_order = [], he_ttl = 10, he_prefix = ''seed'', he_page = defaultNotActivePage,
     he_reaper = False,
     he_loopback = \<lparr>lb_base = [], lb_trusted = [], lb_listener = Some ''127.0.0.1:80'', lb_srv = True\<rparr>\<rparr>"
  by (simp add: demo_endpoint_def Mint_def new_endpoint_def EnsureLoopback_def new_loopback_def
      trim_right_def trim_left_def Let_def)

lemma demo_endpoint_inv: "ep_inv demo_endpoint"
  by (simp add: demo_endpoint_value ep_inv_def fifo_inv_def)

lemma demo_token: "request_token (demo_request m o1) demo_endpoint = ''tok''"
  by (simp add: demo_request_def demo_endpoint_value request_token_def trim_prefix_def)

lemma demo_live:
  "link_state 10 demo_endpoint ''tok'' = LLive \<lparr>it_payload = (), it_expires = 10\<rparr>"
  "link_state 11 demo_endpoint ''tok'' = LExpired"
  by (simp_all add: demo_endpoint_value link_state_def retained_def)

text \<open>
  C7. What a request to a one-time link gets is decided by the state of the link alone: the
  concrete handler runs only on a live link, for a GET, or for a POST of the same origin;
  every other request to a live link is answered 403 or 405, a used or expired link shows
  the not-active page with its reason, and a token that was never issued (or whose
  tombstone has been evicted) is a 404. Whatever runs meanwhile, the bookkeeping (distinct
  items and tombstones, an eviction order that lists exactly the tombstones) is preserved.
\<close>

theorem handle_outcome:
  assumes "ep_inv h" and "k = request_token r h"
  shows "fst (handle url_parse ph now mid later r h) =
     (case link_state now h k of
        LUnknown \<Rightarrow> (NotDispatched, http_NotFound)
      | LUsed \<Rightarrow> (NotDispatched, he_page h r ReasonUsed ''This one-time link cannot be used again.'')
      | LExpired \<Rightarrow> (NotDispatched,
                    he_page h r ReasonExpired ''This one-time link expired before it was used.'')
      | LLive it \<Rightarrow>
          if rq_method r = ''GET'' then (RanGET, ph_render ph r k it)
          else if rq_method r = ''POST'' then
            (if SameOrigin url_parse r (AcceptedOrigins (he_loopback h))
             then (RanPOST, snd (ph_post ph r k it))
             else (NotDispatched,
                   http_Error [(''X-Content-Type-Options'', ''nosniff'')] ''forbidden'' 403))
          else (NotDispatched, http_Error [(''Allow'', ''GET, POST'')] ''method not allowed'' 405))
     \<and> ep_inv (snd (handle url_parse ph now mid later r h))"
proof (cases "link_state now h (request_token r h)")
  case (LLive it)
  then show ?thesis using assms handle_inv [OF assms(1)]
    by (simp add: handle_live Let_def Remove_inv ep_run_inv pruneSpent_inv)
qed (use assms handle_inv [OF assms(1)] in \<open>simp_all add: handle_not_live\<close>)

theorem handle_outcome_witness:
  "fst (handle demo_parse demo_handler 11 [] 11 (demo_request ''GET'' []) demo_endpoint)
     = (NotDispatched, defaultNotActivePage (demo_request ''GET'' []) ReasonExpired
          ''This one-time link expired before it was used.'')
   \<and> fst (handle demo_parse demo_handler 10 [] 10 (demo_request ''PUT'' []) demo_endpoint)
     = (NotDispatched, http_Error [(''Allow'', ''GET, POST'')] ''method not allowed'' 405)"
proof -
  have m: "rq_method (demo_request ''PUT'' []) = ''PUT''" by (simp add: demo_request_def)
  have p: "he_page demo_endpoint = defaultNotActivePage" by (simp add: demo_endpoint_value)
  show ?thesis
    using handle_outcome [OF demo_endpoint_inv demo_token [symmetric], of demo_parse demo_handler 11 "[]" 11]
      handle_outcome [OF demo_endpoint_inv demo_token [symmetric], of demo_parse demo_handler 10 "[]" 10]
    by (simp add: demo_live m p)
qed

text \<open>
  C19. A consumed link stays consumed. Once a token has been removed or claimed, no request
  for it reaches the concrete handler, whatever the endpoint does in between, unless the
  token is minted again; and while fewer than \<open>MaxSpentTombstones\<close> other tombstones have
  been made since, the request is told that the link was used (410 by the default page)
  rather than that it never existed.
\<close>

theorem consumed_link_stays_consumed:
  assumes "ep_inv h" and "k \<notin> gkeys (he_spent h)"
    and "h1 = Remove t k h \<or> (k \<in> gkeys (he_items h) \<and> h1 = snd (Claim t k h))"
    and "list_all (\<lambda>op. \<not> mints_key k op) ops"
    and "request_token r (ep_run ops h1) = k"
  shows "fst (fst (handle url_parse ph now mid later r (ep_run ops h1))) = NotDispatched
    \<and> (length (tombs_made ops h1) < MaxSpentTombstones \<longrightarrow>
        link_state now (ep_run ops h1) k = LUsed
        \<and> snd (fst (handle url_parse ph now mid later r (ep_run ops h1)))
          = he_page (ep_run ops h1) r ReasonUsed ''This one-time link cannot be used again.'')"
proof -
  have h1: "h1 = Remove t k h"
    using assms(3) gget_not_None [of "he_items h" k] by (auto simp: Claim_def)
  have inv1: "ep_inv h1" using h1 Remove_inv [OF assms(1)] by simp
  have inv: "ep_inv (ep_run ops h1)" using inv1 by (rule ep_run_inv)
  have "k \<notin> gkeys (he_items h1)" using h1 by simp
  then have gone: "k \<notin> gkeys (he_items (ep_run ops h1))"
    using ep_run_pending [OF inv1 assms(4)] by simp
  have dead: "link_state now (ep_run ops h1) (request_token r (ep_run ops h1)) \<noteq> LLive it" for it
    using gone assms(5) link_live_pending by metis
  note nl = handle_not_live [OF inv dead]
  have order: "he_order h1 = retained MaxSpentTombstones (he_order h @ [k])"
    using h1 Remove_order [OF assms(1), of t k] assms(2) by simp
  have used: "length (tombs_made ops h1) < MaxSpentTombstones \<Longrightarrow> link_state now (ep_run ops h1) k = LUsed"
    by (rule link_state_used [OF inv1 order])
  show ?thesis using nl used assms(5) by simp
qed

theorem consumed_link_stays_consumed_witness:
  "snd (fst (handle demo_parse demo_handler 3 [] 3 (demo_request ''GET'' [])
      (ep_run [EPrune 2] (snd (Claim 1 ''tok'' demo_endpoint)))))
   = defaultNotActivePage (demo_request ''GET'' []) ReasonUsed ''This one-time link cannot be used again.''"
proof -
  let ?h1 = "snd (Claim 1 ''tok'' demo_endpoint)"
  have h1: "?h1 = demo_endpoint\<lparr>he_items := [], he_spent := [(''tok'', 1)], he_order := [''tok'']\<rparr>"
    by (simp add: Claim_def Remove_def demo_endpoint_value markSpent_def pruneSpent_def
        MaxSpentTombstones_def)
  have run: "ep_run [EPrune 2] ?h1 = ?h1"
    by (simp add: h1) (simp add: ep_run_def pruneExpired_def pruneSpent_def MaxSpentTombstones_def)
  have "request_token (demo_request ''GET'' []) (ep_run [EPrune 2] ?h1) = ''tok''"
    unfolding run unfolding h1 by (simp add: demo_request_def demo_endpoint_value request_token_def trim_prefix_def)
  note t = consumed_link_stays_consumed [OF demo_endpoint_inv _ _ _ this, of 1]
  have tm: "length (tombs_made [EPrune 2] ?h1) < MaxSpentTombstones"
    by (simp add: h1 MaxSpentTombstones_def)
  have pg: "he_page (ep_run [EPrune 2] ?h1) = defaultNotActivePage"
    unfolding run unfolding h1 by (simp add: demo_endpoint_value)
  have "snd (fst (handle demo_parse demo_handler 3 [] 3 (demo_request ''GET'' []) (ep_run [EPrune 2] ?h1)))
    = he_page (ep_run [EPrune 2] ?h1) (demo_request ''GET'' []) ReasonUsed
        ''This one-time link cannot be used again.''"
    by (rule t [THEN conjunct2, THEN mp, THEN conjunct2])
      (use tm in \<open>simp_all add: demo_endpoint_value\<close>)
  then show ?thesis by (simp only: pg)
qed



text \<open>
  \<open>Claim\<close> hands a token out once per mint: in any sequence of claims and mints, however
  the claims of different requests are ordered, a token is claimed with success at most as
  often as it was minted (counting the pending one at the start).
\<close>

theorem handoff_claimed_at_most_once:
  assumes "ep_inv h"
  shows "count_list (token_run ep_claim ep_mint es h) k
    \<le> mints_of k es + (if k \<in> gkeys (he_items h) then 1 else 0)"
  using assms by (rule handoffs.token_run_bound)

theorem handoff_claimed_at_most_once_witness:
  "count_list (token_run ep_claim ep_mint [TClaim 1 ''tok'', TClaim 2 ''tok''] demo_endpoint) ''tok'' \<le> 1"
  using handoff_claimed_at_most_once [OF demo_endpoint_inv, of "[TClaim 1 ''tok'', TClaim 2 ''tok'']" "''tok''"]
  by (simp add: demo_endpoint_value)

text \<open>
  Consumption on display is not atomic with the display: \<open>handle\<close> releases the mutex
  between \<open>Resolve\<close> and \<open>Remove\<close>, so a second GET of the same live link that arrives
  while the first is being rendered is rendered as well, although \<open>ConsumeOnGET\<close> is
  documented for flows that show a secret exactly once.
\<close>

theorem concurrent_get_renders_twice:
  assumes "ep_inv h" and "rq_method r = ''GET''"
    and "link_state now h (request_token r h) = LLive it" and "now' \<le> it_expires it"
  shows "fst (fst (handle url_parse ph now mid later r h)) = RanGET
    \<and> fst (fst (handle url_parse ph now' mid' later' r (snd (Resolve now (request_token r h) h)))) = RanGET"
proof -
  let ?h = "snd (Resolve now (request_token r h) h)"
  have h: "?h = pruneSpent h" using assms(1,3) by (simp add: Resolve_link)
  have tok: "request_token r ?h = request_token r h" by (simp add: h)
  have inv: "ep_inv ?h" using assms(1) by (simp add: h pruneSpent_inv)
  have "he_order ?h = retained MaxSpentTombstones (he_order h)"
    using assms(1) by (simp add: h pruneSpent_order)
  then have "link_state now' ?h (request_token r ?h) = LLive it"
    using assms(3,4) unfolding tok
    by (auto simp: link_state_def h split: if_splits option.splits)
  with assms inv show ?thesis by (simp add: handle_live Let_def)
qed

theorem concurrent_get_renders_twice_witness:
  "fst (fst (handle demo_parse demo_handler 5 [] 7 (demo_request ''GET'' []) demo_endpoint)) = RanGET
   \<and> fst (fst (handle demo_parse demo_handler 6 [] 8 (demo_request ''GET'' [])
       (snd (Resolve 5 ''tok'' demo_endpoint)))) = RanGET"
proof -
  have m: "rq_method (demo_request ''GET'' []) = ''GET''" by (simp add: demo_request_def)
  have l: "link_state 5 demo_endpoint (request_token (demo_request ''GET'' []) demo_endpoint)
      = LLive \<lparr>it_payload = (), it_expires = 10\<rparr>"
    unfolding demo_token by (simp add: demo_endpoint_value link_state_def retained_def)
  show ?thesis
    using concurrent_get_renders_twice [OF demo_endpoint_inv m l, of 6] by (simp add: demo_token)
qed

end
