(* ===== verification/HandoffRegistry.thy ===== *)
theory HandoffRegistry
  imports AsyncHandles Model
begin

text \<open>
  \<open>handoff/handoff_registry.go\<close>: the registry of resume continuations and the \<open>*_resume\<close>
  tool built on it and on the async handle store. A continuation is a value of type
  \<open>'c\<close>; what running it does, to its result and to the shared state, is a parameter. The
  cleanup callback acts on a state \<open>'w\<close> of its own (the server passes
  \<open>AsyncHandleStore.Delete\<close>). \<open>Begin\<close> and \<open>Prune\<close> call it after they release the
  registry's mutex.
\<close>

record 'c registry_entry =
  re_created :: time
  re_cont :: 'c

record ('c, 'w) registry =
  rg_cont :: "(string, 'c registry_entry) gomap"
  rg_ttl :: duration
  rg_max :: int
  rg_cleanup :: "(string \<Rightarrow> 'w \<Rightarrow> 'w) option"

definition NewHandoffRegistry :: "('c, 'w) registry" where
  "NewHandoffRegistry =
     \<lparr>rg_cont = [], rg_ttl = DefaultSessionTTL, rg_max = DefaultMaxSessions, rg_cleanup = None\<rparr>"

definition SetCleanup :: "(string \<Rightarrow> 'w \<Rightarrow> 'w) option \<Rightarrow> ('c, 'w) registry \<Rightarrow> ('c, 'w) registry" where
  "SetCleanup f r = r\<lparr>rg_cleanup := f\<rparr>"

definition entry_dead :: "duration \<Rightarrow> time \<Rightarrow> 'c registry_entry \<Rightarrow> bool" where
  "entry_dead ttl now e \<longleftrightarrow> now - re_created e > ttl"

definition reg_pruneLocked :: "time \<Rightarrow> ('c, 'w) registry \<Rightarrow> string list \<times> ('c, 'w) registry" where
  "reg_pruneLocked now r =
     (gswept (\<lambda>h e. entry_dead (rg_ttl r) now e) (rg_cont r),
      r\<lparr>rg_cont := gsweep (\<lambda>h e. entry_dead (rg_ttl r) now e) (rg_cont r)\<rparr>)"

text \<open>The scan for the oldest entry; the empty string stands for "none yet".\<close>

definition older_entry :: "string \<times> 'c registry_entry \<Rightarrow> string \<times> time \<Rightarrow> string \<times> time" where
  "older_entry x acc =
     (if fst acc = [] \<or> before (re_created (snd x)) (snd acc)
      then (fst x, re_created (snd x)) else acc)"

definition scan_oldest :: "(string, 'c registry_entry) gomap \<Rightarrow> string \<times> time" where
  "scan_oldest m = fold older_entry m ([], 0)"

definition run_cleanup :: "(string \<Rightarrow> 'w \<Rightarrow> 'w) option \<Rightarrow> string list \<Rightarrow> 'w \<Rightarrow> 'w" where
  "run_cleanup cleanup hs w =
     (case cleanup of None \<Rightarrow> w | Some f \<Rightarrow> fold (\<lambda>h w. if h \<noteq> [] then f h w else w) hs w)"

text \<open>
  \<open>Begin\<close>: the registry after it and, in order, the handles given to the cleanup; \<open>now\<close> is
  the clock at the sweep and \<open>now'\<close> at the registration.
\<close>

definition reg_begin_swept ::
  "time \<Rightarrow> time \<Rightarrow> string \<Rightarrow> 'c \<Rightarrow> ('c, 'w) registry \<Rightarrow> string list \<times> ('c, 'w) registry" where
  "reg_begin_swept now now' handle c r0 =
     (let (pruned, r1) = reg_pruneLocked now r0;
          (evicted, r2) =
            (if rg_max r1 \<le> int (length (rg_cont r1)) then
               let oldest = fst (scan_oldest (rg_cont r1))
               in if oldest \<noteq> [] \<and> oldest \<noteq> handle
                  then ([oldest], r1\<lparr>rg_cont := gdel oldest (rg_cont r1)\<rparr>) else ([], r1)
             else ([], r1))
      in (evicted @ pruned,
          r2\<lparr>rg_cont := gset handle \<lparr>re_created = now', re_cont = c\<rparr> (rg_cont r2)\<rparr>))"

definition reg_Begin ::
  "time \<Rightarrow> time \<Rightarrow> string \<Rightarrow> 'c \<Rightarrow> ('c, 'w) registry \<times> 'w \<Rightarrow> ('c, 'w) registry \<times> 'w" where
  "reg_Begin now now' handle c s =
     (case reg_begin_swept now now' handle c (fst s) of
        (swept, r) \<Rightarrow> (r, run_cleanup (rg_cleanup (fst s)) swept (snd s)))"

definition reg_Get :: "time \<Rightarrow> string \<Rightarrow> ('c, 'w) registry \<Rightarrow> 'c option" where
  "reg_Get now handle r =
     (case gget (rg_cont r) handle of
        None \<Rightarrow> None
      | Some e \<Rightarrow> if entry_dead (rg_ttl r) now e then None else Some (re_cont e))"

definition reg_End :: "string \<Rightarrow> ('c, 'w) registry \<Rightarrow> ('c, 'w) registry" where
  "reg_End handle r = r\<lparr>rg_cont := gdel handle (rg_cont r)\<rparr>"

definition reg_Prune :: "time \<Rightarrow> ('c, 'w) registry \<times> 'w \<Rightarrow> ('c, 'w) registry \<times> 'w" where
  "reg_Prune now s =
     (case reg_pruneLocked now (fst s) of
        (pruned, r) \<Rightarrow> (r, run_cleanup (rg_cleanup (fst s)) pruned (snd s)))"

section \<open>The resume tool\<close>

record resume_spec =
  rs_name :: string
  rs_title :: string
  rs_description :: string
  rs_restart_tool :: string
  rs_unknown_detail :: string
  rs_expired_detail :: string
  rs_dead_reason :: string
  rs_category :: string

definition CategoryCore :: string where "CategoryCore = ''core''"

definition CategoryOrDefault :: "resume_spec \<Rightarrow> string" where
  "CategoryOrDefault s = (if rs_category s = [] then CategoryCore else rs_category s)"

definition rs_title_or_default :: "resume_spec \<Rightarrow> string" where
  "rs_title_or_default s = (if rs_title s \<noteq> [] then rs_title s else ''Resume'')"

definition deadHandleReason :: "resume_spec \<Rightarrow> string" where
  "deadHandleReason s = (if rs_dead_reason s \<noteq> [] then rs_dead_reason s else ReasonCredentialEntry)"

definition status_of :: "gdata \<Rightarrow> string" where
  "status_of sc = (case gget sc ''status'' of Some (GStr s) \<Rightarrow> s | _ \<Rightarrow> [])"

definition isTerminalResume :: "'el tool_result \<Rightarrow> bool" where
  "isTerminalResume res =
     (case tr_content res of
        GMap sc \<Rightarrow> status_of sc \<noteq> [] \<and> status_of sc \<noteq> StatusNeedsHuman
      | _ \<Rightarrow> False)"

definition error_text :: "string \<Rightarrow> 'el tool_result" where
  "error_text text = \<lparr>tr_error = True, tr_text = text, tr_content = GNil, tr_elicitation = None\<rparr>"

definition restart_steer :: "string \<Rightarrow> string \<Rightarrow> string \<Rightarrow> 'el tool_result" where
  "restart_steer reason restart detail = NeedsHumanResult (handoff reason restart detail)"

text \<open>
  The state a resume works on: the registry and the handle store. \<open>decoded\<close> is the outcome
  of decoding the arguments; \<open>t1\<close> and \<open>t2\<close> are the clocks of the two lookups. A missing
  registry or store is \<open>None\<close>.
\<close>

type_synonym ('c, 'w, 'd) resume_state = "('c, 'w) registry \<times> 'd handle_store"

definition resume_handler ::
  "('c \<Rightarrow> string \<Rightarrow> 'd option \<Rightarrow> ('c, 'w, 'd) resume_state \<Rightarrow>
      (string, 'el tool_result) result \<times> ('c, 'w, 'd) resume_state) \<Rightarrow>
   resume_spec \<Rightarrow> (string, string) result \<Rightarrow> time \<Rightarrow> time \<Rightarrow>
   ('c, 'w, 'd) resume_state \<Rightarrow> 'el tool_result \<times> ('c, 'w, 'd) resume_state" where
  "resume_handler run spec decoded t1 t2 s =
     (case decoded of
        Inl msg \<Rightarrow> (error_text msg, s)
      | Inr handle \<Rightarrow>
          if handle = [] then (error_text ''handle is required'', s)
          else (case hs_get t1 handle (snd s) of
              (Inl err, store) \<Rightarrow>
                (restart_steer (deadHandleReason spec) (rs_restart_tool spec)
                   (if err = ErrHandleExpired then rs_expired_detail spec else rs_unknown_detail spec),
                 (reg_End handle (fst s), store))
            | (Inr (_, data), store) \<Rightarrow>
                (case reg_Get t2 handle (fst s) of
                   None \<Rightarrow>
                     (restart_steer (deadHandleReason spec) (rs_restart_tool spec)
                        ''This handle has no pending continuation; start a fresh flow.'',
                      (fst s, store))
                 | Some cont \<Rightarrow>
                     (case run cont handle data (fst s, store) of
                        (Inl _, s') \<Rightarrow>
                          (restart_steer ReasonCredentialEntry (rs_restart_tool spec)
                             ''The hand-off failed or expired; start a fresh flow.'', s')
                      | (Inr res, s') \<Rightarrow>
                          if isTerminalResume res then (res, (reg_End handle (fst s'), snd s'))
                          else (res, s')))))"

definition resume_tool ::
  "('c \<Rightarrow> string \<Rightarrow> 'd option \<Rightarrow> ('c, 'w, 'd) resume_state \<Rightarrow>
      (string, 'el tool_result) result \<times> ('c, 'w, 'd) resume_state) \<Rightarrow>
   resume_spec \<Rightarrow> bool \<Rightarrow> (string, string) result \<Rightarrow> time \<Rightarrow> time \<Rightarrow>
   ('c, 'w, 'd) resume_state \<Rightarrow> 'el tool_result \<times> ('c, 'w, 'd) resume_state" where
  "resume_tool run spec configured decoded t1 t2 s =
     (if \<not> configured
      then (NeedsHumanResult (handoff ReasonInteractiveOnly [] ''Resume is not configured for this server.''), s)
      else resume_handler run spec decoded t1 t2 s)"

section \<open>The registry's invariant\<close>

definition reg_inv :: "('c, 'w) registry \<Rightarrow> bool" where
  "reg_inv r \<longleftrightarrow> gok (rg_cont r) \<and> [] \<notin> gkeys (rg_cont r)"

lemma scan_oldest_fold:
  assumes "[] \<notin> fst ` set m" and "o0 \<noteq> []"
  shows "let (o1, a1) = fold older_entry m (o0, a0) in
     o1 \<noteq> [] \<and> a1 \<le> a0 \<and> (\<forall>e \<in> snd ` set m. a1 \<le> re_created e)
     \<and> ((o1, a1) = (o0, a0) \<or> (\<exists>e. (o1, e) \<in> set m \<and> re_created e = a1))"
  using assms
proof (induction m arbitrary: o0 a0)
  case Nil
  then show ?case by simp
next
  case (Cons x m)
  obtain k e where x: "x = (k, e)" by fastforce
  have k: "k \<noteq> []" and m: "[] \<notin> fst ` set m" using Cons.prems x by auto
  show ?case
  proof (cases "re_created e < a0")
    case True
    then show ?thesis
      using Cons.IH [OF m k, of "re_created e"] x Cons.prems(2)
      by (fastforce simp: older_entry_def Let_def split: prod.splits)
  next
    case False
    then show ?thesis
      using Cons.IH [OF m Cons.prems(2), of a0] x Cons.prems(2)
      by (fastforce simp: older_entry_def Let_def split: prod.splits)
  qed
qed

lemma scan_oldest_min:
  assumes "[] \<notin> gkeys m" and "m \<noteq> []"
  shows "\<exists>e. (fst (scan_oldest m), e) \<in> set m \<and> fst (scan_oldest m) \<noteq> [] \<and>
    (\<forall>k e'. (k, e') \<in> set m \<longrightarrow> re_created e \<le> re_created e')"
proof -
  obtain k e m' where m: "m = (k, e) # m'" using assms(2) by (cases m) auto
  have "k \<noteq> []" "[] \<notin> fst ` set m'" using assms(1) m by auto
  then show ?thesis
    using scan_oldest_fold [of m' k "re_created e"] m
    by (fastforce simp: scan_oldest_def older_entry_def Let_def split: prod.splits)
qed

abbreviation reg_kept :: "time \<Rightarrow> ('c, 'w) registry \<Rightarrow> (string, 'c registry_entry) gomap" where
  "reg_kept now r \<equiv> gsweep (\<lambda>h e. entry_dead (rg_ttl r) now e) (rg_cont r)"

abbreviation reg_full :: "time \<Rightarrow> ('c, 'w) registry \<Rightarrow> bool" where
  "reg_full now r \<equiv> rg_max r \<le> int (length (reg_kept now r))"

text \<open>The flow that makes room, if one has to: the oldest, unless it is the handle itself.\<close>

definition reg_victim :: "time \<Rightarrow> string \<Rightarrow> ('c, 'w) registry \<Rightarrow> string list" where
  "reg_victim now handle r =
     (let oldest = fst (scan_oldest (reg_kept now r))
      in if reg_full now r \<and> oldest \<noteq> [] \<and> oldest \<noteq> handle then [oldest] else [])"

lemma reg_victim_shape:
  obtains "reg_victim now handle r = []"
    | v where "reg_victim now handle r = [v]" "v \<noteq> handle"
  by (cases "reg_victim now handle r = []") (auto simp: reg_victim_def Let_def split: if_splits)

lemma reg_begin_swept_alt:
  "reg_begin_swept now now' handle c r =
     (reg_victim now handle r @ gswept (\<lambda>h e. entry_dead (rg_ttl r) now e) (rg_cont r),
      r\<lparr>rg_cont := gset handle \<lparr>re_created = now', re_cont = c\<rparr>
          (fold gdel (reg_victim now handle r) (reg_kept now r))\<rparr>)"
  by (simp add: reg_begin_swept_def reg_pruneLocked_def reg_victim_def Let_def)

lemma reg_begin_cont:
  "gget (rg_cont (snd (reg_begin_swept now now' handle c r))) k =
     (if k = handle then Some \<lparr>re_created = now', re_cont = c\<rparr>
      else if k \<in> set (reg_victim now handle r) then None else gget (reg_kept now r) k)"
  by (cases rule: reg_victim_shape [of now handle r]) (simp_all add: reg_begin_swept_alt)

lemma reg_begin_static [simp]:
  "rg_ttl (snd (reg_begin_swept now now' handle c r)) = rg_ttl r"
  "rg_max (snd (reg_begin_swept now now' handle c r)) = rg_max r"
  "rg_cleanup (snd (reg_begin_swept now now' handle c r)) = rg_cleanup r"
  by (simp_all add: reg_begin_swept_alt)

lemma reg_kept_inv:
  assumes "reg_inv r"
  shows "gok (reg_kept now r)" and "[] \<notin> gkeys (reg_kept now r)"
proof -
  show "gok (reg_kept now r)" using assms by (simp add: reg_inv_def)
  show "[] \<notin> gkeys (reg_kept now r)"
    using assms gkeys_gsweep_sub [of "\<lambda>h e. entry_dead (rg_ttl r) now e" "rg_cont r"]
    by (auto simp: reg_inv_def)
qed

lemma reg_begin_inv:
  assumes "reg_inv r" and "handle \<noteq> []"
  shows "reg_inv (snd (reg_begin_swept now now' handle c r))"
  using reg_kept_inv [OF assms(1), of now] assms(2)
  by (cases rule: reg_victim_shape [of now handle r]) (auto simp: reg_begin_swept_alt reg_inv_def)

text \<open>A victim is a live entry that no other live entry predates.\<close>

lemma reg_victim_oldest:
  assumes "reg_inv r" and "v \<in> set (reg_victim now handle r)"
  shows "v \<noteq> handle \<and> reg_full now r \<and>
    (\<exists>e. gget (reg_kept now r) v = Some e
      \<and> (\<forall>k e'. gget (reg_kept now r) k = Some e' \<longrightarrow> re_created e \<le> re_created e'))"
proof -
  let ?m = "reg_kept now r"
  have v: "v = fst (scan_oldest ?m)" "reg_full now r" "v \<noteq> []" "v \<noteq> handle"
    using assms(2) by (auto simp: reg_victim_def Let_def split: if_splits)
  have ne: "?m \<noteq> []" using v(1,3) by (auto simp: scan_oldest_def)
  obtain e where e: "(v, e) \<in> set ?m" "\<forall>k e'. (k, e') \<in> set ?m \<longrightarrow> re_created e \<le> re_created e'"
    using scan_oldest_min [OF reg_kept_inv(2) [OF assms(1)] ne] v(1) by blast
  have "gget ?m v = Some e" by (rule gget_mem [OF reg_kept_inv(1) [OF assms(1)] e(1)])
  moreover have "re_created e \<le> re_created e'" if "gget ?m k = Some e'" for k e'
    using e(2) gget_SomeD [OF that] by blast
  ultimately show ?thesis using v(2,4) by blast
qed

lemma reg_victim_exists:
  assumes "reg_inv r" and "reg_full now r" and "1 \<le> rg_max r" and "handle \<notin> gkeys (reg_kept now r)"
  shows "\<exists>v \<in> gkeys (reg_kept now r). reg_victim now handle r = [v]"
proof -
  have "reg_kept now r \<noteq> []" using assms(2,3) by auto
  then obtain e where "(fst (scan_oldest (reg_kept now r)), e) \<in> set (reg_kept now r)"
    "fst (scan_oldest (reg_kept now r)) \<noteq> []"
    using scan_oldest_min [OF reg_kept_inv(2) [OF assms(1)], of now] by blast
  moreover from this have "fst (scan_oldest (reg_kept now r)) \<in> gkeys (reg_kept now r)" by force
  ultimately show ?thesis using assms(2,4) by (auto simp: reg_victim_def Let_def)
qed

lemma reg_begin_count:
  assumes "reg_inv r" and "1 \<le> rg_max r" and "int (length (rg_cont r)) \<le> rg_max r"
  shows "int (length (rg_cont (snd (reg_begin_swept now now' handle c r)))) \<le> rg_max r"
proof -
  let ?m = "reg_kept now r"
  let ?vs = "reg_victim now handle r"
  let ?e = "\<lparr>re_created = now', re_cont = c\<rparr>"
  have len: "int (length ?m) \<le> rg_max r"
    using assms(3) length_gsweep [of "\<lambda>h e. entry_dead (rg_ttl r) now e" "rg_cont r"] by linarith
  have cont: "rg_cont (snd (reg_begin_swept now now' handle c r)) = gset handle ?e (fold gdel ?vs ?m)"
    by (simp add: reg_begin_swept_alt)
  have "int (length (gset handle ?e (fold gdel ?vs ?m))) \<le> rg_max r"
  proof (cases "handle \<in> gkeys ?m")
    case True
    have "length (gset handle ?e (fold gdel ?vs ?m)) \<le> length ?m"
    proof (cases rule: reg_victim_shape [of now handle r])
      case 1
      with True show ?thesis by (simp only: length_gset fold_simps id_apply if_True)
    next
      case (2 v)
      then show ?thesis using True length_gdel_le [of v ?m]
        by (simp only: length_gset fold_simps gkeys_gdel) simp
    qed
    with len show ?thesis by linarith
  next
    case new: False
    show ?thesis
    proof (cases "reg_full now r")
      case True
      then obtain v where v: "v \<in> gkeys ?m" "?vs = [v]"
        using reg_victim_exists [OF assms(1) _ assms(2) new] by blast
      have "0 < length ?m" using v(1) by (cases ?m) simp_all
      moreover have "length (gdel v ?m) = length ?m - 1"
        using v(1) length_gdel [OF reg_kept_inv(1) [OF assms(1)], of v now] by (simp only: if_True)
      moreover have "length (gset handle ?e (fold gdel ?vs ?m)) = Suc (length (gdel v ?m))"
        using new by (simp only: v(2) length_gset fold_simps gkeys_gdel) simp
      ultimately show ?thesis using len by linarith
    next
      case False
      then have "?vs = []" by (simp only: reg_victim_def Let_def) simp
      then have "length (gset handle ?e (fold gdel ?vs ?m)) = Suc (length ?m)"
        using new by (simp only: length_gset fold_simps id_apply if_False)
      with False show ?thesis by linarith
    qed
  qed
  then show ?thesis by (simp only: cont)
qed

lemma entry_dead_new: "entry_dead ttl u \<lparr>re_created = a, re_cont = c\<rparr> \<longleftrightarrow> u - a > ttl"
  by (simp add: entry_dead_def)

lemma reg_Get_kept:
  assumes "reg_inv r" and "now \<le> u"
  shows "(case gget (reg_kept now r) k of None \<Rightarrow> None
          | Some e \<Rightarrow> if entry_dead (rg_ttl r) u e then None else Some (re_cont e)) = reg_Get u k r"
  using assms
  by (auto simp: reg_Get_def reg_inv_def gget_gsweep entry_dead_def split: option.splits)

lemma reg_begin_get:
  assumes "reg_inv r" and "now \<le> u"
  shows "reg_Get u k (snd (reg_begin_swept now now' handle c r)) =
    (if k = handle then (if u - now' > rg_ttl r then None else Some c)
     else if k \<in> set (reg_victim now handle r) then None else reg_Get u k r)"
proof -
  have "reg_Get u k (snd (reg_begin_swept now now' handle c r)) =
    (case gget (rg_cont (snd (reg_begin_swept now now' handle c r))) k of None \<Rightarrow> None
     | Some e \<Rightarrow> if entry_dead (rg_ttl r) u e then None else Some (re_cont e))"
    by (simp only: reg_Get_def reg_begin_static)
  then show ?thesis
    using reg_Get_kept [OF assms, of k] by (auto simp: reg_begin_cont entry_dead_new)
qed

lemma reg_swept_dead:
  "reg_inv r \<Longrightarrow> k \<in> set (gswept (\<lambda>h e. entry_dead (rg_ttl r) now e) (rg_cont r)) \<longleftrightarrow>
     (\<exists>e. gget (rg_cont r) k = Some e \<and> entry_dead (rg_ttl r) now e)"
  by (force simp: set_gswept reg_inv_def dest: gget_SomeD intro: gget_mem)

section \<open>Runs of the registry\<close>

datatype 'c reg_op =
    RBegin time time string 'c
  | REnd string
  | RPrune time

fun reg_step :: "'c reg_op \<Rightarrow> ('c, 'w) registry \<times> 'w \<Rightarrow> ('c, 'w) registry \<times> 'w" where
  "reg_step (RBegin now now' h c) s = reg_Begin now now' h c s"
| "reg_step (REnd h) s = (reg_End h (fst s), snd s)"
| "reg_step (RPrune now) s = reg_Prune now s"

definition reg_run :: "'c reg_op list \<Rightarrow> ('c, 'w) registry \<times> 'w \<Rightarrow> ('c, 'w) registry \<times> 'w" where
  "reg_run ops s = fold reg_step ops s"

fun reg_op_named :: "'c reg_op \<Rightarrow> bool" where
  "reg_op_named (RBegin now now' h c) = (h \<noteq> [])"
| "reg_op_named _ = True"

lemma reg_Begin_fst: "fst (reg_Begin now now' h c s) = snd (reg_begin_swept now now' h c (fst s))"
  by (simp add: reg_Begin_def split: prod.splits)

lemma reg_Prune_fst: "rg_cont (fst (reg_Prune now s)) = reg_kept now (fst s)"
  "rg_max (fst (reg_Prune now s)) = rg_max (fst s)" "rg_ttl (fst (reg_Prune now s)) = rg_ttl (fst s)"
  by (simp_all add: reg_Prune_def reg_pruneLocked_def)

lemma reg_step_bounded:
  assumes "reg_inv (fst s)" and "1 \<le> rg_max (fst s)" and "int (length (rg_cont (fst s))) \<le> rg_max (fst s)"
    and "reg_op_named op"
  shows "reg_inv (fst (reg_step op s)) \<and> rg_max (fst (reg_step op s)) = rg_max (fst s)
    \<and> int (length (rg_cont (fst (reg_step op s)))) \<le> rg_max (fst s)"
proof (cases op)
  case (RBegin now now' h c)
  then have "h \<noteq> []" using assms(4) by simp
  then show ?thesis
    using RBegin reg_begin_inv [OF assms(1)] reg_begin_count [OF assms(1-3)] by (simp add: reg_Begin_fst)
next
  case (REnd h)
  have "int (length (gdel h (rg_cont (fst s)))) \<le> rg_max (fst s)"
    using assms(3) length_gdel_le [of h "rg_cont (fst s)"] by linarith
  with REnd assms(1) show ?thesis by (simp add: reg_End_def reg_inv_def)
next
  case (RPrune now)
  have "int (length (reg_kept now (fst s))) \<le> rg_max (fst s)"
    using assms(3) length_gsweep [of "\<lambda>h e. entry_dead (rg_ttl (fst s)) now e" "rg_cont (fst s)"]
    by linarith
  with RPrune reg_kept_inv [OF assms(1), of now] show ?thesis
    by (simp add: reg_Prune_fst reg_inv_def)
qed

lemma reg_run_bounded:
  "reg_inv (fst s) \<Longrightarrow> 1 \<le> rg_max (fst s) \<Longrightarrow> int (length (rg_cont (fst s))) \<le> rg_max (fst s) \<Longrightarrow>
   list_all reg_op_named ops \<Longrightarrow>
   int (length (rg_cont (fst (reg_run ops s)))) \<le> rg_max (fst s)"
proof (induction ops arbitrary: s)
  case Nil
  then show ?case by (simp add: reg_run_def)
next
  case (Cons op ops)
  have st: "reg_inv (fst (reg_step op s)) \<and> rg_max (fst (reg_step op s)) = rg_max (fst s)
    \<and> int (length (rg_cont (fst (reg_step op s)))) \<le> rg_max (fst s)"
    using Cons.prems by (intro reg_step_bounded) simp_all
  have "int (length (rg_cont (fst (reg_run ops (reg_step op s))))) \<le> rg_max (fst (reg_step op s))"
    using st Cons.prems by (intro Cons.IH) simp_all
  with st show ?case by (simp add: reg_run_def)
qed

section \<open>Properties\<close>

text \<open>
  The registry is bounded: whatever flows begin, end and are pruned, it never holds more
  than \<open>maxEntries\<close> continuations, as long as every flow has a non-empty handle (the empty
  string is the scan's sentinel).
\<close>

theorem registry_bounded:
  assumes "list_all reg_op_named ops"
  shows "int (length (rg_cont (fst (reg_run ops (NewHandoffRegistry, w))))) \<le> DefaultMaxSessions"
  using reg_run_bounded [of "(NewHandoffRegistry, w)" ops] assms
  by (simp add: NewHandoffRegistry_def reg_inv_def DefaultMaxSessions_def)

theorem registry_bounded_witness:
  "int (length (rg_cont (fst (reg_run [RBegin 0 0 ''a'' (1::nat), RPrune 5, RBegin 6 6 ''b'' 2]
     (NewHandoffRegistry, ()))))) \<le> DefaultMaxSessions"
  using registry_bounded [of "[RBegin 0 0 ''a'' (1::nat), RPrune 5, RBegin 6 6 ''b'' 2]" "()"] by simp

text \<open>
  What \<open>Begin\<close> does to the flows. The new continuation is the one the handle resumes for
  exactly its TTL. Every other flow resumes as before, except the one evicted for capacity;
  and a flow is evicted only when the live flows alone fill the registry, is never the
  flow being registered, and is one that no live flow predates.
\<close>

theorem begin_keeps_newer_flows:
  assumes "reg_inv r" and "now \<le> u" and "now \<le> now'"
  shows "reg_Get u k (fst (reg_Begin now now' handle c (r, w))) =
      (if k = handle then (if u - now' > rg_ttl r then None else Some c)
       else if k \<in> set (reg_victim now handle r) then None else reg_Get u k r)
   \<and> (\<forall>v \<in> set (reg_victim now handle r).
        v \<noteq> handle \<and> rg_max r \<le> int (length (reg_kept now r))
        \<and> (\<exists>e. gget (reg_kept now r) v = Some e
            \<and> (\<forall>j e'. gget (reg_kept now r) j = Some e' \<longrightarrow> re_created e \<le> re_created e')))"
  using reg_begin_get [OF assms(1,2), of k now' handle c] reg_victim_oldest [OF assms(1)]
  by (simp add: reg_Begin_fst)

definition demo_registry :: "(nat, string list) registry" where
  "demo_registry = \<lparr>rg_cont = [(''new'', \<lparr>re_created = 5, re_cont = 2\<rparr>), (''old'', \<lparr>re_created = 1, re_cont = 1\<rparr>)],
     rg_ttl = 10, rg_max = 2, rg_cleanup = Some (\<lambda>h w. w @ [h])\<rparr>"

lemma demo_registry_inv: "reg_inv demo_registry"
  by (simp add: demo_registry_def reg_inv_def)

theorem begin_keeps_newer_flows_witness:
  "reg_Get 7 ''old'' (fst (reg_Begin 6 6 ''h'' 3 (demo_registry, []))) = None
   \<and> reg_Get 7 ''new'' (fst (reg_Begin 6 6 ''h'' 3 (demo_registry, []))) = Some 2
   \<and> reg_Get 7 ''h'' (fst (reg_Begin 6 6 ''h'' 3 (demo_registry, []))) = Some 3"
proof -
  have v: "reg_victim 6 ''h'' demo_registry = [''old'']"
    by (simp add: reg_victim_def demo_registry_def gsweep_def entry_dead_def scan_oldest_def older_entry_def)
  note t = begin_keeps_newer_flows [OF demo_registry_inv, of 6 7 6, THEN conjunct1]
  show ?thesis
    using t [of "''old''" "''h''" 3 "[]"] t [of "''new''" "''h''" 3 "[]"] t [of "''h''" "''h''" 3 "[]"]
    unfolding v by (simp add: demo_registry_def reg_Get_def entry_dead_def)
qed

text \<open>
  The handles whose backing store entry \<open>Begin\<close> retires are the evicted flow and the
  expired ones, and the handle being registered is among them exactly when its own
  previous entry has expired: then the cleanup deletes the async handle the new flow is
  about to be resumed through, which the comment in \<open>Begin\<close> says must never happen.
\<close>

theorem begin_retires_own_expired_handle:
  assumes "reg_inv r"
  shows "handle \<in> set (fst (reg_begin_swept now now' handle c r)) \<longleftrightarrow>
     (\<exists>e. gget (rg_cont r) handle = Some e \<and> now - re_created e > rg_ttl r)"
proof -
  have "handle \<notin> set (reg_victim now handle r)"
    using reg_victim_oldest [OF assms] by blast
  then show ?thesis
    using reg_swept_dead [OF assms, of handle now]
    by (simp add: reg_begin_swept_alt entry_dead_def)
qed

theorem begin_retires_own_expired_handle_witness:
  "''old'' \<in> set (fst (reg_begin_swept 12 12 ''old'' 3 demo_registry))
   \<and> snd (reg_Begin 12 12 ''old'' 3 (demo_registry, [])) = [''old'']"
proof -
  have "''old'' \<in> set (fst (reg_begin_swept 12 12 ''old'' 3 demo_registry))"
    unfolding begin_retires_own_expired_handle [OF demo_registry_inv]
    by (simp add: demo_registry_def)
  then show ?thesis
    by (simp add: reg_Begin_def reg_begin_swept_def reg_pruneLocked_def demo_registry_def gsweep_def
        gswept_def entry_dead_def run_cleanup_def)
qed

lemma resume_dead:
  assumes "hs_inv (snd s)" and "h \<noteq> []" and "hs_live t1 (snd s) h = None"
  shows "resume_handler run spec (Inr h) t1 t2 s =
         (restart_steer (deadHandleReason spec) (rs_restart_tool spec)
            (if h \<in> gkeys (hs_items (snd s)) then rs_expired_detail spec else rs_unknown_detail spec),
          (reg_End h (fst s), hs_delete h (snd s)))"
proof (cases "gget (hs_items (snd s)) h")
  case None
  then have "h \<notin> gkeys (hs_items (snd s))" using gget_None [of "hs_items (snd s)" h] by simp
  with None assms(2) show ?thesis
    by (simp add: resume_handler_def hs_get_def hs_delete_def gdel_id)
next
  case (Some it)
  then have "h \<in> gkeys (hs_items (snd s))" by (rule gget_in_keys)
  with Some assms(2,3) show ?thesis
    by (simp add: resume_handler_def hs_get_def hs_live_def hs_delete_def split: if_splits)
qed

lemma resume_live:
  assumes "h \<noteq> []" and live: "hs_live t1 (snd s) h = Some (st, data)"
  shows "resume_handler run spec (Inr h) t1 t2 s =
         (case reg_Get t2 h (fst s) of
            None \<Rightarrow> (restart_steer (deadHandleReason spec) (rs_restart_tool spec)
                       ''This handle has no pending continuation; start a fresh flow.'', s)
          | Some cont \<Rightarrow>
             (case run cont h data s of
                (Inl e, s') \<Rightarrow> (restart_steer ReasonCredentialEntry (rs_restart_tool spec)
                                 ''The hand-off failed or expired; start a fresh flow.'', s')
              | (Inr res, s') \<Rightarrow> (res, if isTerminalResume res then (reg_End h (fst s'), snd s') else s')))"
proof -
  have get: "hs_get t1 h (snd s) = (Inr (st, data), snd s)"
    using live by (auto simp: hs_get_def hs_live_def split: option.splits if_splits)
  show ?thesis
    using assms(1) by (simp add: resume_handler_def get split: option.split prod.split sum.split)
qed


definition demo_spec :: resume_spec where
  "demo_spec = \<lparr>rs_name = ''auth_resume'', rs_title = [], rs_description = [], rs_restart_tool = ''auth_sso'',
     rs_unknown_detail = ''unknown'', rs_expired_detail = ''expired'', rs_dead_reason = [], rs_category = []\<rparr>"

definition demo_cont ::
  "nat \<Rightarrow> string \<Rightarrow> int option \<Rightarrow> (nat, string list, int) resume_state \<Rightarrow>
   (string, unit tool_result) result \<times> (nat, string list, int) resume_state" where
  "demo_cont c h d s = (Inr (StatusResult (if c = 2 then StatusDone else StatusNeedsHuman) [] []), s)"

definition demo_resume_state :: "(nat, string list, int) resume_state" where
  "demo_resume_state = (demo_registry, \<lparr>hs_items = [(''new'', \<lparr>ai_status = ''p'', ai_data = None,
     ai_created = 0, ai_expires = 20\<rparr>)], hs_ttl = 20, hs_max = 5\<rparr>)"

lemma isTerminalResume_status:
  "gok extra \<Longrightarrow> gget extra ''status'' = None \<Longrightarrow>
   isTerminalResume (StatusResult st text extra) \<longleftrightarrow> st \<noteq> [] \<and> st \<noteq> StatusNeedsHuman"
  by (simp add: isTerminalResume_def StatusResult_def status_of_def gget_gmerge)


text \<open>
  The protocol between the two theories that produce and consume results: a needs-human
  hand-off is never taken for a terminal result, so the flow it leaves pending stays
  resumable, while \<open>StatusResult\<close> with the status done, ok or error ends it, whatever
  extra fields it carries besides a status of their own.
\<close>

theorem needs_human_keeps_flow:
  "\<not> isTerminalResume (NeedsHumanResult n)
   \<and> (gok extra \<longrightarrow> gget extra ''status'' = None \<longrightarrow> st \<in> {StatusDone, StatusOk, StatusError} \<longrightarrow>
        isTerminalResume (StatusResult st text extra))"
proof (intro conjI impI)
  show "\<not> isTerminalResume (NeedsHumanResult n)"
    by (simp add: isTerminalResume_def NeedsHumanResult_def status_of_def needs_human_status)
qed (auto simp: isTerminalResume_status status_codes)

theorem needs_human_keeps_flow_witness:
  "isTerminalResume (StatusResult StatusDone ''bye'' [(''cid'', GStr ''x'')])"
  by (rule needs_human_keeps_flow [THEN conjunct2, THEN mp, THEN mp, THEN mp]) simp_all

end
