(* ===== verification/UploadTasks.thy ===== *)
theory UploadTasks
  imports Prelude "HOL-Library.Option_ord" "HOL-Library.Multiset"
begin

text \<open>
  \<open>transfer/upload_tasks.go\<close>: the manager of async uploads. Its methods run under the
  manager's mutex, so each is one function of the manager's state; the parts that run
  outside the mutex (closing a reader, the executor) are separate operations. A reader is
  a number, and closing it is reported by the operation that does it. The values an
  executor returns are of type \<open>'r\<close>; task identifiers and clocks are arguments.
\<close>

section \<open>Tasks\<close>

datatype upload_state = Prepared | Queued | Running | Completed | Failed | Cancelled | Expired

definition DefaultUploadName :: string where "DefaultUploadName = ''upload''"
definition execTimeoutMessage :: string where "execTimeoutMessage = ''upload exceeded execution timeout''"
definition defaultMaxActiveUploads :: int where "defaultMaxActiveUploads = 8"
definition DefaultHTTPUploadTTL :: duration where "DefaultHTTPUploadTTL = 5 * minute"
definition defaultPreparedTTL :: duration where "defaultPreparedTTL = DefaultHTTPUploadTTL"
definition defaultMaxPrepared :: int where "defaultMaxPrepared = 64"
definition defaultExecTimeout :: duration where "defaultExecTimeout = 30 * minute"

definition expired_message :: string where
  "expired_message =
     ''upload handle expired before any bytes were supplied (presigned endpoint window lapsed)''"

record 'r utask =
  ut_id :: string
  ut_name :: string
  ut_state :: upload_state
  ut_created :: time
  ut_started :: "time option"
  ut_finished :: "time option"
  ut_result :: "'r option"
  ut_err :: string

record 'r tracked =
  tk_task :: "'r utask"
  tk_cancel :: bool \<comment> \<open>whether a run context is attached\<close>
  tk_reader :: "nat option"
  tk_closed :: bool \<comment> \<open>\<open>closeOnce\<close> has run\<close>
  tk_timedOut :: bool
  tk_preparedTTL :: duration
  tk_archiveMode :: string
  tk_wrap :: bool

abbreviation tk_state :: "'r tracked \<Rightarrow> upload_state" where
  "tk_state t \<equiv> ut_state (tk_task t)"

definition new_task :: "string \<Rightarrow> string \<Rightarrow> upload_state \<Rightarrow> time \<Rightarrow> 'r utask" where
  "new_task tid name st now =
     \<lparr>ut_id = tid, ut_name = name, ut_state = st, ut_created = now, ut_started = None,
      ut_finished = None, ut_result = None, ut_err = []\<rparr>"

text \<open>\<open>closeReader\<close> and the readers it closes.\<close>

definition closeReader :: "'r tracked \<Rightarrow> nat list \<times> 'r tracked" where
  "closeReader t =
     (if tk_closed t then ([], t)
      else (case tk_reader t of None \<Rightarrow> [] | Some r \<Rightarrow> [r], t\<lparr>tk_closed := True, tk_reader := None\<rparr>))"

text \<open>\<open>cloneTask\<close> copies the struct and the two instants it points to.\<close>

definition cloneTask :: "'r utask \<Rightarrow> 'r utask" where
  "cloneTask src =
     src\<lparr>ut_started := (case ut_started src of None \<Rightarrow> None | Some v \<Rightarrow> Some v),
         ut_finished := (case ut_finished src of None \<Rightarrow> None | Some v \<Rightarrow> Some v)\<rparr>"

lemma cloneTask_id [simp]: "cloneTask t = t"
  by (simp add: cloneTask_def split: option.split)

section \<open>The manager\<close>

record 'r manager =
  um_tasks :: "(string, 'r tracked) gomap"
  um_tombs :: "(string, 'r utask) gomap"
  um_order :: "string list"
  um_exec :: bool \<comment> \<open>whether an executor is configured\<close>
  um_ttl :: duration
  um_MaxActive :: int
  um_PreparedTTL :: duration
  um_MaxPrepared :: int
  um_ExecTimeout :: duration

definition NewUploadTaskManager :: "bool \<Rightarrow> duration \<Rightarrow> 'r manager" where
  "NewUploadTaskManager has_exec ttl =
     \<lparr>um_tasks = [], um_tombs = [], um_order = [], um_exec = has_exec,
      um_ttl = (if ttl \<le> 0 then 15 * minute else ttl),
      um_MaxActive = defaultMaxActiveUploads, um_PreparedTTL = defaultPreparedTTL,
      um_MaxPrepared = defaultMaxPrepared, um_ExecTimeout = defaultExecTimeout\<rparr>"

datatype upload_error =
    NotConfigured
  | TooManyActive
  | TooManyPrepared
  | UnknownHandle string
  | HandleExpired string
  | InProgress string
  | AlreadyFinished string upload_state
  | CannotFulfill string upload_state
  | NotCancellable string upload_state

definition tombstoneLocked :: "string \<times> 'r utask \<Rightarrow> 'r manager \<Rightarrow> 'r manager" where
  "tombstoneLocked e m =
     m\<lparr>um_order := (if fst e \<in> gkeys (um_tombs m) then um_order m else um_order m @ [fst e]),
       um_tombs := gset (fst e) (cloneTask (snd e)) (um_tombs m)\<rparr>"

definition untombstoneLocked :: "string \<Rightarrow> 'r manager \<Rightarrow> 'r manager" where
  "untombstoneLocked tid m =
     (if tid \<notin> gkeys (um_tombs m) then m
      else m\<lparr>um_tombs := gdel tid (um_tombs m), um_order := remove1 tid (um_order m)\<rparr>)"

text \<open>The eviction of one entry, if it is due at \<open>now\<close>: its id and its tombstone.\<close>

definition eviction_of :: "'r manager \<Rightarrow> time \<Rightarrow> string \<times> 'r tracked \<Rightarrow> (string \<times> 'r utask) option" where
  "eviction_of m now e =
     (let tid = fst e; t = snd e; cutoff = now - um_ttl m
      in case tk_state t of
           Completed \<Rightarrow>
             (case ut_finished (tk_task t) of
                Some f \<Rightarrow> if before f cutoff then Some (tid, tk_task t) else None | None \<Rightarrow> None)
         | Failed \<Rightarrow>
             (case ut_finished (tk_task t) of
                Some f \<Rightarrow> if before f cutoff then Some (tid, tk_task t) else None | None \<Rightarrow> None)
         | Cancelled \<Rightarrow>
             (case ut_finished (tk_task t) of
                Some f \<Rightarrow> if before f cutoff then Some (tid, tk_task t) else None | None \<Rightarrow> None)
         | Prepared \<Rightarrow>
             (let preparedTTL = (if tk_preparedTTL t \<le> 0 then um_PreparedTTL m else tk_preparedTTL t)
              in if preparedTTL > 0 \<and> before (ut_created (tk_task t)) (now - preparedTTL)
                 then Some (tid, (cloneTask (tk_task t))
                        \<lparr>ut_state := Expired, ut_err := expired_message, ut_finished := Some now\<rparr>)
                 else None)
         | _ \<Rightarrow> None)"

text \<open>The retirement loop over the tombstone order.\<close>

fun retire :: "time \<Rightarrow> string list \<Rightarrow> (string, 'r utask) gomap \<Rightarrow> string list \<times> (string, 'r utask) gomap" where
  "retire cutoff [] tombs = ([], tombs)"
| "retire cutoff (tid # order) tombs =
     (case gget tombs tid of
        None \<Rightarrow> (tid # order, tombs)
      | Some tomb \<Rightarrow>
          (case ut_finished tomb of
             None \<Rightarrow> (tid # order, tombs)
           | Some f \<Rightarrow>
               if before f cutoff then retire cutoff order (gdel tid tombs) else (tid # order, tombs)))"

definition evictions :: "'r manager \<Rightarrow> time \<Rightarrow> (string \<times> 'r utask) list" where
  "evictions m now =
     sort_key (\<lambda>e. ut_finished (snd e)) (List.map_filter (eviction_of m now) (um_tasks m))"

definition evict_one :: "string \<times> 'r utask \<Rightarrow> 'r manager \<Rightarrow> 'r manager" where
  "evict_one e m =
     (let m' = tombstoneLocked e m in m'\<lparr>um_tasks := gdel (fst e) (um_tasks m')\<rparr>)"

definition um_prune :: "time \<Rightarrow> 'r manager \<Rightarrow> 'r manager" where
  "um_prune now m =
     (if um_ttl m \<le> 0 then m
      else
        let m1 = fold evict_one (evictions m now) m;
            (order, tombs) = retire (now - um_ttl m) (um_order m1) (um_tombs m1)
        in m1\<lparr>um_order := order, um_tombs := tombs\<rparr>)"

abbreviation in_flight :: "'r tracked \<Rightarrow> bool" where
  "in_flight t \<equiv> tk_state t = Queued \<or> tk_state t = Running"

definition acquireSlotLocked :: "'r manager \<Rightarrow> upload_error option" where
  "acquireSlotLocked m =
     (if um_MaxActive m \<le> 0 then None
      else if um_MaxActive m \<le> int (length (filter (\<lambda>e. in_flight (snd e)) (um_tasks m)))
      then Some TooManyActive else None)"

definition acquirePreparedSlotLocked :: "'r manager \<Rightarrow> upload_error option" where
  "acquirePreparedSlotLocked m =
     (if um_MaxPrepared m \<le> 0 then None
      else if um_MaxPrepared m \<le> int (length (filter (\<lambda>e. tk_state (snd e) = Prepared) (um_tasks m)))
      then Some TooManyPrepared else None)"

text \<open>\<open>beginLocked\<close>; \<open>now\<close> is the clock of the prune, \<open>now'\<close> of the claim.\<close>

definition beginLocked ::
  "time \<Rightarrow> time \<Rightarrow> 'r utask \<Rightarrow> nat \<Rightarrow> 'r manager \<Rightarrow> upload_error option \<times> 'r manager" where
  "beginLocked now now' task reader m0 =
     (let m = um_prune now m0
      in case acquireSlotLocked m of
           Some err \<Rightarrow> (Some err, m)
         | None \<Rightarrow>
             let task' = task\<lparr>ut_state := Queued, ut_started := Some now'\<rparr>;
                 tt = \<lparr>tk_task = task', tk_cancel = True, tk_reader = Some reader, tk_closed = False,
                       tk_timedOut = False, tk_preparedTTL = 0, tk_archiveMode = [], tk_wrap = False\<rparr>
             in (None, untombstoneLocked (ut_id task)
                         (m\<lparr>um_tasks := gset (ut_id task) tt (um_tasks m)\<rparr>)))"

text \<open>The arguments \<open>spawn\<close> passes to the executor.\<close>

record exec_call =
  xc_reader :: nat
  xc_size :: int
  xc_name :: string
  xc_wait :: bool
  xc_archiveMode :: string
  xc_wrap :: bool

text \<open>
  \<open>Start\<close>: the handle and the work to spawn, or the error; the readers closed; the manager.
  \<open>now\<close> is the task's creation time, \<open>t1\<close> and \<open>t2\<close> the clocks inside the lock.
\<close>

definition um_Start ::
  "string \<Rightarrow> time \<Rightarrow> time \<Rightarrow> time \<Rightarrow> nat \<Rightarrow> int \<Rightarrow> string \<Rightarrow> bool \<Rightarrow> 'r manager \<Rightarrow>
   ((upload_error, string \<times> exec_call) result \<times> nat list) \<times> 'r manager" where
  "um_Start tid now t1 t2 reader sz name wait m =
     (if \<not> um_exec m then ((Inl NotConfigured, [reader]), m)
      else
        let name' = (if name = [] then DefaultUploadName else name)
        in case beginLocked t1 t2 (new_task tid name' Queued now) reader m of
             (Some err, m') \<Rightarrow> ((Inl err, [reader]), m')
           | (None, m') \<Rightarrow>
               ((Inr (tid, \<lparr>xc_reader = reader, xc_size = sz, xc_name = name', xc_wait = wait,
                           xc_archiveMode = ''preserve'', xc_wrap = False\<rparr>), []), m'))"

text \<open>The options of \<open>Prepare\<close>; a nil option is skipped.\<close>

datatype prepare_option = WithArchiveMode string | WithWrap bool

fun apply_option :: "prepare_option \<Rightarrow> string \<times> bool \<Rightarrow> string \<times> bool" where
  "apply_option (WithArchiveMode mode) (a, w) = (if mode = [] then ''convert'' else mode, w)"
| "apply_option (WithWrap b) (a, w) = (a, b)"

definition um_Prepare ::
  "string \<Rightarrow> time \<Rightarrow> time \<Rightarrow> string \<Rightarrow> duration \<Rightarrow> prepare_option option list \<Rightarrow> 'r manager \<Rightarrow>
   (upload_error, string) result \<times> 'r manager" where
  "um_Prepare tid now t1 name ttl opts m0 =
     (if \<not> um_exec m0 then (Inl NotConfigured, m0)
      else
        let name' = (if name = [] then DefaultUploadName else name);
            po = fold (\<lambda>opt p. case opt of None \<Rightarrow> p | Some f \<Rightarrow> apply_option f p) opts (''preserve'', False);
            m = um_prune t1 m0
        in case acquirePreparedSlotLocked m of
             Some err \<Rightarrow> (Inl err, m)
           | None \<Rightarrow>
               (Inr tid, m\<lparr>um_tasks := gset tid
                  \<lparr>tk_task = new_task tid name' Prepared now, tk_cancel = False, tk_reader = None,
                   tk_closed = False, tk_timedOut = False, tk_preparedTTL = ttl,
                   tk_archiveMode = fst po, tk_wrap = snd po\<rparr> (um_tasks m)\<rparr>))"

definition um_Fulfill ::
  "string \<Rightarrow> time \<Rightarrow> time \<Rightarrow> nat \<Rightarrow> int \<Rightarrow> string \<Rightarrow> bool \<Rightarrow> 'r manager \<Rightarrow>
   ((upload_error, exec_call) result \<times> nat list) \<times> 'r manager" where
  "um_Fulfill tid t1 t2 reader sz name wait m =
     (if \<not> um_exec m then ((Inl NotConfigured, [reader]), m)
      else if tid \<in> gkeys (um_tombs m) then ((Inl (HandleExpired tid), [reader]), m)
      else case gget (um_tasks m) tid of
             None \<Rightarrow> ((Inl (UnknownHandle tid), [reader]), m)
           | Some tt \<Rightarrow>
               (case tk_state tt of
                  Prepared \<Rightarrow>
                    (let name' = (if name = [] then ut_name (tk_task tt) else name)
                     in case beginLocked t1 t2 (tk_task tt) reader m of
                          (Some err, m') \<Rightarrow> ((Inl err, [reader]), m')
                        | (None, m') \<Rightarrow>
                            ((Inr \<lparr>xc_reader = reader, xc_size = sz, xc_name = name', xc_wait = wait,
                                   xc_archiveMode = tk_archiveMode tt, xc_wrap = tk_wrap tt\<rparr>, []), m'))
                | Queued \<Rightarrow> ((Inl (InProgress tid), [reader]), m)
                | Running \<Rightarrow> ((Inl (InProgress tid), [reader]), m)
                | Completed \<Rightarrow> ((Inl (AlreadyFinished tid Completed), [reader]), m)
                | Failed \<Rightarrow> ((Inl (AlreadyFinished tid Failed), [reader]), m)
                | Cancelled \<Rightarrow> ((Inl (AlreadyFinished tid Cancelled), [reader]), m)
                | Expired \<Rightarrow> ((Inl (CannotFulfill tid Expired), [reader]), m)))"

definition um_Get :: "time \<Rightarrow> string \<Rightarrow> 'r manager \<Rightarrow> (upload_error, 'r utask) result \<times> 'r manager" where
  "um_Get now tid m0 =
     (let m = um_prune now m0
      in (case gget (um_tasks m) tid of
            Some t \<Rightarrow> Inr (cloneTask (tk_task t))
          | None \<Rightarrow> (case gget (um_tombs m) tid of
                      Some tomb \<Rightarrow> Inr (cloneTask tomb)
                    | None \<Rightarrow> Inl (UnknownHandle tid)), m))"

text \<open>
  \<open>Cancel\<close> up to the release of the mutex; on success the caller then cancels the run
  context and closes the reader (\<open>closeReader\<close>).
\<close>

definition um_Cancel :: "time \<Rightarrow> string \<Rightarrow> 'r manager \<Rightarrow> upload_error option \<times> 'r manager" where
  "um_Cancel now tid m =
     (case gget (um_tasks m) tid of
        None \<Rightarrow>
          (case gget (um_tombs m) tid of
             Some tomb \<Rightarrow> (Some (AlreadyFinished tid (ut_state tomb)), m)
           | None \<Rightarrow> (Some (UnknownHandle tid), m))
      | Some t \<Rightarrow>
          if tk_state t \<in> {Prepared, Queued, Running} then
            (None, m\<lparr>um_tasks := gset tid
               (t\<lparr>tk_task := (tk_task t)\<lparr>ut_state := Cancelled, ut_finished := Some now\<rparr>\<rparr>) (um_tasks m)\<rparr>)
          else (Some (NotCancellable tid (tk_state t)), m))"

text \<open>The exchange sort of \<open>List\<close>: the inner loop carries the element at position \<open>i\<close>.\<close>

fun exchange_pass :: "'r utask \<Rightarrow> 'r utask list \<Rightarrow> 'r utask \<times> 'r utask list" where
  "exchange_pass x [] = (x, [])"
| "exchange_pass x (y # ys) =
     (if before (ut_created y) (ut_created x)
      then (let (z, zs) = exchange_pass y ys in (z, x # zs))
      else (let (z, zs) = exchange_pass x ys in (z, y # zs)))"

lemma exchange_pass_length [simp]: "length (snd (exchange_pass x ys)) = length ys"
  by (induction x ys rule: exchange_pass.induct) (auto simp: Let_def split: prod.splits)

function exchange_sort :: "'r utask list \<Rightarrow> 'r utask list" where
  "exchange_sort [] = []"
| "exchange_sort (x # xs) = fst (exchange_pass x xs) # exchange_sort (snd (exchange_pass x xs))"
  by pat_completeness auto
termination by (relation "measure length") simp_all

definition um_List :: "time \<Rightarrow> 'r manager \<Rightarrow> 'r utask list \<times> 'r manager" where
  "um_List now m0 =
     (let m = um_prune now m0
      in (exchange_sort (map (\<lambda>e. cloneTask (tk_task (snd e))) (um_tasks m)), m))"

section \<open>The goroutine of an upload\<close>

text \<open>The errors an executor returns, by what \<open>errors.Is\<close> says of them.\<close>

datatype exec_error = DeadlineExceeded | ContextCanceled | OtherError string

text \<open>The first locked section: whether the upload is begun.\<close>

definition run_begin :: "time \<Rightarrow> 'r tracked \<Rightarrow> bool \<times> 'r tracked" where
  "run_begin now t =
     (if tk_state t \<noteq> Queued then (False, t)
      else (True, t\<lparr>tk_task := (tk_task t)\<lparr>ut_started := Some now, ut_state := Running\<rparr>\<rparr>))"

text \<open>The locked section of the watchdog.\<close>

definition watchdog_fail :: "time \<Rightarrow> 'r tracked \<Rightarrow> 'r tracked" where
  "watchdog_fail failedAt t =
     (if in_flight t
      then t\<lparr>tk_timedOut := True,
             tk_task := (tk_task t)\<lparr>ut_state := Failed, ut_err := execTimeoutMessage,
                                    ut_finished := Some failedAt\<rparr>\<rparr>
      else t)"

text \<open>The locked section of the completion.\<close>

definition complete :: "time \<Rightarrow> 'r option \<Rightarrow> exec_error option \<Rightarrow> 'r tracked \<Rightarrow> 'r tracked" where
  "complete finished result err t =
     (if tk_state t = Cancelled \<or> tk_timedOut t then t
      else
        let task = (tk_task t)\<lparr>ut_result := result, ut_finished := Some finished\<rparr>;
            task' = (case err of
                Some DeadlineExceeded \<Rightarrow> task\<lparr>ut_state := Failed, ut_err := execTimeoutMessage\<rparr>
              | Some ContextCanceled \<Rightarrow>
                  if ut_state task = Cancelled then task\<lparr>ut_state := Cancelled, ut_err := []\<rparr>
                  else task\<lparr>ut_state := Failed, ut_err := execTimeoutMessage\<rparr>
              | Some (OtherError msg) \<Rightarrow> task\<lparr>ut_state := Failed, ut_err := msg\<rparr>
              | None \<Rightarrow> task\<lparr>ut_state := Completed\<rparr>)
        in t\<lparr>tk_task := task'\<rparr>)"

section \<open>Pruning\<close>

definition terminal :: "upload_state \<Rightarrow> bool" where
  "terminal st \<longleftrightarrow> st = Completed \<or> st = Failed \<or> st = Cancelled"

text \<open>The tombstone a task is due for at an instant, if any.\<close>

definition tomb_for :: "'r manager \<Rightarrow> time \<Rightarrow> 'r tracked \<Rightarrow> 'r utask option" where
  "tomb_for m now t = map_option snd (eviction_of m now ([], t))"

definition prepared_ttl :: "'r manager \<Rightarrow> 'r tracked \<Rightarrow> duration" where
  "prepared_ttl m t = (if tk_preparedTTL t \<le> 0 then um_PreparedTTL m else tk_preparedTTL t)"

definition lapsed_tomb :: "time \<Rightarrow> 'r tracked \<Rightarrow> 'r utask" where
  "lapsed_tomb now t = (tk_task t)\<lparr>ut_state := Expired, ut_err := expired_message, ut_finished := Some now\<rparr>"

lemma eviction_of_tomb: "eviction_of m now (k, t) = map_option (Pair k) (tomb_for m now t)"
  by (auto simp: eviction_of_def tomb_for_def Let_def split: upload_state.splits option.splits)

lemma tomb_for_terminal:
  "terminal (tk_state t) \<Longrightarrow> tomb_for m now t =
     (case ut_finished (tk_task t) of
        Some f \<Rightarrow> if before f (now - um_ttl m) then Some (tk_task t) else None | None \<Rightarrow> None)"
  by (auto simp: terminal_def tomb_for_def eviction_of_def Let_def split: option.splits)

lemma tomb_for_in_flight: "in_flight t \<Longrightarrow> tomb_for m now t = None"
  by (auto simp: tomb_for_def eviction_of_def Let_def)

lemma tomb_for_prepared:
  "tk_state t = Prepared \<Longrightarrow> tomb_for m now t =
     (if 0 < prepared_ttl m t \<and> before (ut_created (tk_task t)) (now - prepared_ttl m t)
      then Some (lapsed_tomb now t) else None)"
  by (simp add: tomb_for_def eviction_of_def Let_def prepared_ttl_def lapsed_tomb_def)

lemma tomb_for_expired: "tk_state t = Expired \<Longrightarrow> tomb_for m now t = None"
  by (simp add: tomb_for_def eviction_of_def Let_def)

abbreviation evicted_list :: "'r manager \<Rightarrow> time \<Rightarrow> (string \<times> 'r utask) list" where
  "evicted_list m now \<equiv> List.map_filter (eviction_of m now) (um_tasks m)"

lemma evicted_keys: "map fst (List.map_filter (eviction_of m now) es)
    = map fst (filter (\<lambda>e. tomb_for m now (snd e) \<noteq> None) es)"
proof (induction es)
  case Nil
  then show ?case by (simp add: List.map_filter_def)
next
  case (Cons e es)
  then show ?case
    by (cases e) (auto simp: List.map_filter_def eviction_of_tomb)
qed

lemma evicted_mem:
  "(k, tb) \<in> set (evicted_list m now) \<longleftrightarrow> (\<exists>t. (k, t) \<in> set (um_tasks m) \<and> tomb_for m now t = Some tb)"
  by (force simp: List.map_filter_def eviction_of_tomb)

lemma evicted_distinct: "gok (um_tasks m) \<Longrightarrow> gok (evicted_list m now)"
  by (simp only: evicted_keys gok_filter)

lemma evictions_gok: "gok (um_tasks m) \<Longrightarrow> gok (evictions m now)"
  using evicted_distinct [of m now] by (simp add: evictions_def distinct_map)

lemma evictions_mem:
  "(k, tb) \<in> set (evictions m now) \<longleftrightarrow> (\<exists>t. (k, t) \<in> set (um_tasks m) \<and> tomb_for m now t = Some tb)"
  by (simp only: evictions_def set_sort evicted_mem)

lemma evictions_get:
  assumes "gok (um_tasks m)"
  shows "gget (evictions m now) k = (case gget (um_tasks m) k of None \<Rightarrow> None | Some t \<Rightarrow> tomb_for m now t)"
proof -
  have "gget (evictions m now) k = Some tb \<longleftrightarrow>
      (case gget (um_tasks m) k of None \<Rightarrow> None | Some t \<Rightarrow> tomb_for m now t) = Some tb" for tb
    using evictions_mem [of k tb m now] map_of_eq_Some_iff [OF evictions_gok [OF assms, of now], of k tb]
      map_of_eq_Some_iff [OF assms, of k]
    by (cases "gget (um_tasks m) k") (auto, metis option.inject)
  then show ?thesis by (metis not_None_eq)
qed

text \<open>The effect of the eviction loop, field by field.\<close>

lemma evict_one_fields [simp]:
  "um_exec (evict_one e m) = um_exec m" "um_ttl (evict_one e m) = um_ttl m"
  "um_MaxActive (evict_one e m) = um_MaxActive m" "um_PreparedTTL (evict_one e m) = um_PreparedTTL m"
  "um_MaxPrepared (evict_one e m) = um_MaxPrepared m" "um_ExecTimeout (evict_one e m) = um_ExecTimeout m"
  by (simp_all add: evict_one_def tombstoneLocked_def Let_def)

lemma evict_fold_fields [simp]:
  "um_exec (fold evict_one es m) = um_exec m" "um_ttl (fold evict_one es m) = um_ttl m"
  "um_MaxActive (fold evict_one es m) = um_MaxActive m" "um_PreparedTTL (fold evict_one es m) = um_PreparedTTL m"
  "um_MaxPrepared (fold evict_one es m) = um_MaxPrepared m" "um_ExecTimeout (fold evict_one es m) = um_ExecTimeout m"
  by (induction es arbitrary: m) simp_all

lemma evict_fold_tasks: "um_tasks (fold evict_one es m) = filter (\<lambda>e. fst e \<notin> fst ` set es) (um_tasks m)"
proof (induction es arbitrary: m)
  case Nil
  then show ?case by simp
next
  case (Cons e es)
  have "um_tasks (evict_one e m) = filter (\<lambda>x. fst x \<noteq> fst e) (um_tasks m)"
    by (simp add: evict_one_def tombstoneLocked_def Let_def AList.delete_eq case_prod_unfold eq_commute)
  then show ?case by (simp add: Cons.IH)
qed

lemma evict_fold_fifo:
  "fifo_inv (um_order m) (um_tombs m) \<Longrightarrow>
   fifo_inv (um_order (fold evict_one es m)) (um_tombs (fold evict_one es m))"
proof (induction es arbitrary: m)
  case Nil
  then show ?case by simp
next
  case (Cons e es)
  have "fifo_inv (um_order (evict_one e m)) (um_tombs (evict_one e m))"
    using Cons.prems by (auto simp: evict_one_def tombstoneLocked_def Let_def fifo_inv_def)
  with Cons.IH show ?case by simp
qed

lemma evict_fold_order:
  "gok es \<Longrightarrow> fst ` set es \<inter> gkeys (um_tombs m) = {} \<Longrightarrow>
   um_order (fold evict_one es m) = um_order m @ map fst es"
proof (induction es arbitrary: m)
  case Nil
  then show ?case by simp
next
  case (Cons e es)
  have "um_order (evict_one e m) = um_order m @ [fst e]"
    and "gkeys (um_tombs (evict_one e m)) = insert (fst e) (gkeys (um_tombs m))"
    using Cons.prems by (auto simp: evict_one_def tombstoneLocked_def Let_def)
  moreover have "fst ` set es \<inter> insert (fst e) (gkeys (um_tombs m)) = {}" using Cons.prems by auto
  ultimately show ?case using Cons.IH [of "evict_one e m"] Cons.prems by simp
qed

lemma evict_fold_tombs:
  "gok es \<Longrightarrow> gget (um_tombs (fold evict_one es m)) k =
     (case gget es k of Some tb \<Rightarrow> Some tb | None \<Rightarrow> gget (um_tombs m) k)"
proof (induction es arbitrary: m)
  case Nil
  then show ?case by simp
next
  case (Cons e es)
  have one: "gget (um_tombs (evict_one e m)) k = (if k = fst e then Some (snd e) else gget (um_tombs m) k)"
    by (simp add: evict_one_def tombstoneLocked_def Let_def)
  show ?case
  proof (cases "k = fst e")
    case True
    have "gget es k = None" using Cons.prems True by (intro gget_None [THEN iffD2]) simp
    with True one Cons show ?thesis by (cases e) simp
  next
    case False
    with one Cons show ?thesis by (cases e) (simp split: option.split)
  qed
qed

definition stale :: "time \<Rightarrow> 'r utask option \<Rightarrow> bool" where
  "stale cutoff x = (case x of None \<Rightarrow> False
     | Some tomb \<Rightarrow> (case ut_finished tomb of None \<Rightarrow> False | Some f \<Rightarrow> before f cutoff))"

lemma retire_step:
  "retire cutoff (k # order) tombs =
     (if stale cutoff (gget tombs k) then retire cutoff order (gdel k tombs) else (k # order, tombs))"
  by (simp add: stale_def split: option.splits)

lemma retire_exact:
  "fifo_inv order tombs \<Longrightarrow> retire cutoff order tombs = (order', tombs') \<Longrightarrow>
     order' = dropWhile (\<lambda>k. stale cutoff (gget tombs k)) order \<and> fifo_inv order' tombs' \<and>
     (\<forall>k. gget tombs' k = (if k \<in> set order' then gget tombs k else None))"
proof (induction order arbitrary: tombs)
  case Nil
  then show ?case using fifo_get by fastforce
next
  case (Cons x xs)
  show ?case
  proof (cases "stale cutoff (gget tombs x)")
    case True
    have tail: "fifo_inv xs (gdel x tombs)" using Cons.prems(1) by (rule fifo_tail)
    have r: "retire cutoff xs (gdel x tombs) = (order', tombs')"
      using Cons.prems(2) True by (simp only: retire_step if_True)
    note ih = Cons.IH [OF tail r]
    have x: "x \<notin> set xs" using Cons.prems(1) by (simp add: fifo_inv_def)
    have "dropWhile (\<lambda>k. stale cutoff (gget (gdel x tombs) k)) xs
        = dropWhile (\<lambda>k. stale cutoff (gget tombs k)) xs"
      using x by (intro dropWhile_cong) auto
    then have o': "order' = dropWhile (\<lambda>k. stale cutoff (gget tombs k)) (x # xs)" using ih True by simp
    have "x \<notin> set order'" using x ih set_dropWhileD by metis
    with o' ih show ?thesis by auto
  next
    case False
    then have "order' = x # xs" "tombs' = tombs"
      using Cons.prems(2) by (simp_all add: retire_step del: retire.simps)
    with False Cons.prems(1) fifo_get [OF Cons.prems(1)] show ?thesis by simp
  qed
qed

section \<open>The manager's invariant\<close>

text \<open>Which fields go with which state, for a tracked task under a handle and for a tombstone.\<close>

definition task_ok :: "string \<Rightarrow> 'r tracked \<Rightarrow> bool" where
  "task_ok k t \<longleftrightarrow> ut_id (tk_task t) = k \<and> (tk_closed t \<longrightarrow> tk_reader t = None) \<and>
     (case tk_state t of
        Prepared \<Rightarrow> tk_reader t = None \<and> \<not> tk_cancel t \<and> \<not> tk_closed t \<and> \<not> tk_timedOut t
          \<and> ut_started (tk_task t) = None \<and> ut_finished (tk_task t) = None
      | Queued \<Rightarrow> tk_cancel t \<and> \<not> tk_timedOut t
          \<and> ut_started (tk_task t) \<noteq> None \<and> ut_finished (tk_task t) = None
      | Running \<Rightarrow> tk_cancel t \<and> \<not> tk_timedOut t
          \<and> ut_started (tk_task t) \<noteq> None \<and> ut_finished (tk_task t) = None
      | Completed \<Rightarrow> tk_cancel t \<and> \<not> tk_timedOut t \<and> ut_finished (tk_task t) \<noteq> None
      | Failed \<Rightarrow> tk_cancel t \<and> ut_finished (tk_task t) \<noteq> None
          \<and> (tk_timedOut t \<longrightarrow> ut_err (tk_task t) = execTimeoutMessage)
      | Cancelled \<Rightarrow> \<not> tk_timedOut t \<and> ut_finished (tk_task t) \<noteq> None
      | Expired \<Rightarrow> False)"

definition tomb_ok :: "string \<Rightarrow> 'r utask \<Rightarrow> bool" where
  "tomb_ok k tb \<longleftrightarrow> ut_id tb = k \<and> ut_finished tb \<noteq> None
     \<and> (terminal (ut_state tb) \<or> ut_state tb = Expired)"

definition um_inv :: "'r manager \<Rightarrow> bool" where
  "um_inv m \<longleftrightarrow> gok (um_tasks m) \<and> fifo_inv (um_order m) (um_tombs m)
     \<and> gkeys (um_tasks m) \<inter> gkeys (um_tombs m) = {}
     \<and> (\<forall>k t. gget (um_tasks m) k = Some t \<longrightarrow> task_ok k t)
     \<and> (\<forall>k tb. gget (um_tombs m) k = Some tb \<longrightarrow> tomb_ok k tb)"

lemma um_inv_new: "um_inv (NewUploadTaskManager has_exec ttl)"
  by (simp add: um_inv_def NewUploadTaskManager_def fifo_inv_def)

lemma um_inv_task: "um_inv m \<Longrightarrow> gget (um_tasks m) k = Some t \<Longrightarrow> task_ok k t"
  by (simp add: um_inv_def)

lemma um_inv_disjoint: "um_inv m \<Longrightarrow> gget (um_tasks m) k = Some t \<Longrightarrow> gget (um_tombs m) k = None"
  using gget_None [of "um_tombs m" k] gget_in_keys [of "um_tasks m" k t]
  by (auto simp: um_inv_def)

lemma tomb_for_ok: "task_ok k t \<Longrightarrow> tomb_for m now t = Some tb \<Longrightarrow> tomb_ok k tb"
  by (cases "tk_state t")
    (auto simp: tomb_for_prepared tomb_for_terminal terminal_def tomb_for_in_flight lapsed_tomb_def
      tomb_ok_def task_ok_def split: option.splits if_splits)

text \<open>What a prune keeps and records, whatever the order in which it visits the tasks.\<close>

definition kept :: "'r manager \<Rightarrow> time \<Rightarrow> string \<Rightarrow> 'r tracked option" where
  "kept m now k = (case gget (um_tasks m) k of None \<Rightarrow> None
     | Some t \<Rightarrow> if tomb_for m now t = None then Some t else None)"

definition tombed :: "'r manager \<Rightarrow> time \<Rightarrow> string \<Rightarrow> 'r utask option" where
  "tombed m now k = (case gget (um_tasks m) k of None \<Rightarrow> gget (um_tombs m) k
     | Some t \<Rightarrow> tomb_for m now t)"

lemma um_prune_fields [simp]:
  "um_exec (um_prune now m) = um_exec m" "um_ttl (um_prune now m) = um_ttl m"
  "um_MaxActive (um_prune now m) = um_MaxActive m" "um_PreparedTTL (um_prune now m) = um_PreparedTTL m"
  "um_MaxPrepared (um_prune now m) = um_MaxPrepared m" "um_ExecTimeout (um_prune now m) = um_ExecTimeout m"
  by (simp_all add: um_prune_def Let_def split: prod.splits)

lemma filter_get:
  "gok m \<Longrightarrow> gget (filter (\<lambda>e. P (fst e)) m) k = (if P k then gget m k else None)"
  by (induction m) (auto simp: map_of_eq_None_iff)

lemma um_prune_tasks_eq:
  assumes "0 < um_ttl m"
  shows "um_tasks (um_prune now m) = filter (\<lambda>e. fst e \<notin> gkeys (evictions m now)) (um_tasks m)"
  using assms by (simp add: um_prune_def Let_def evict_fold_tasks split: prod.splits)

lemma um_prune_get:
  assumes "um_inv m" and "0 < um_ttl m"
  shows "gget (um_tasks (um_prune now m)) k = kept m now k"
proof -
  have gok: "gok (um_tasks m)" using assms(1) by (simp add: um_inv_def)
  have "k \<notin> gkeys (evictions m now) \<longleftrightarrow>
      (case gget (um_tasks m) k of None \<Rightarrow> None | Some t \<Rightarrow> tomb_for m now t) = None"
    using gget_None [of "evictions m now" k] evictions_get [OF gok, of now k] by simp
  then show ?thesis
    using filter_get [OF gok, of "\<lambda>k. k \<notin> gkeys (evictions m now)" k]
    by (simp add: um_prune_tasks_eq [OF assms(2)] kept_def split: option.splits)
qed

lemma um_prune_tombs:
  assumes "um_inv m" and "0 < um_ttl m"
  shows "fifo_inv (um_order (um_prune now m)) (um_tombs (um_prune now m))
    \<and> um_order (um_prune now m) =
        dropWhile (\<lambda>k. stale (now - um_ttl m) (tombed m now k)) (um_order m @ map fst (evictions m now))
    \<and> (\<forall>k. gget (um_tombs (um_prune now m)) k =
          (if k \<in> set (um_order (um_prune now m)) then tombed m now k else None))"
proof -
  let ?m1 = "fold evict_one (evictions m now) m"
  have gok: "gok (um_tasks m)" and fifo: "fifo_inv (um_order m) (um_tombs m)"
    and disj: "gkeys (um_tasks m) \<inter> gkeys (um_tombs m) = {}"
    using assms(1) by (simp_all add: um_inv_def)
  have evk: "gkeys (evictions m now) \<subseteq> gkeys (um_tasks m)"
    using evictions_mem [of _ _ m now] by force
  have ord: "um_order ?m1 = um_order m @ map fst (evictions m now)"
    using evk disj by (intro evict_fold_order [OF evictions_gok [OF gok]]) blast
  have tb: "gget (um_tombs ?m1) k = tombed m now k" for k
    using evict_fold_tombs [OF evictions_gok [OF gok], of now m k] evictions_get [OF gok, of now k]
      um_inv_disjoint [OF assms(1), of k]
    by (auto simp: tombed_def split: option.splits)
  obtain o' t' where r: "retire (now - um_ttl m) (um_order ?m1) (um_tombs ?m1) = (o', t')" by fastforce
  have p: "um_order (um_prune now m) = o'" "um_tombs (um_prune now m) = t'"
    using assms(2) r by (simp_all add: um_prune_def Let_def)
  note ex = retire_exact [OF evict_fold_fifo [OF fifo] r, unfolded ord tb]
  show ?thesis unfolding p using ex by blast
qed

text \<open>A tombstone that is not stale survives the prune.\<close>

lemma um_prune_young:
  assumes "um_inv m" and "0 < um_ttl m"
    and "\<not> stale (now - um_ttl m) (tombed m now k)" and "tombed m now k \<noteq> None"
  shows "gget (um_tombs (um_prune now m)) k = tombed m now k"
proof -
  have "k \<in> set (um_order m @ map fst (evictions m now))"
  proof (cases "gget (um_tasks m) k")
    case None
    then have "k \<in> gkeys (um_tombs m)"
      using assms(4) gget_not_None [of "um_tombs m" k] by (simp add: tombed_def)
    then show ?thesis using assms(1) by (simp add: um_inv_def fifo_inv_def)
  next
    case (Some t)
    have "gok (um_tasks m)" using assms(1) by (simp add: um_inv_def)
    then have "gget (evictions m now) k \<noteq> None"
      using evictions_get [of m now k] Some assms(4) by (simp add: tombed_def)
    then have "k \<in> gkeys (evictions m now)" using gget_not_None [of "evictions m now" k] by blast
    then show ?thesis by simp
  qed
  then have "k \<in> set (um_order (um_prune now m))"
    using assms(3) um_prune_tombs [OF assms(1,2), of now] dropWhile_keeps by metis
  then show ?thesis using um_prune_tombs [OF assms(1,2), of now] by simp
qed

lemma um_prune_inv: "um_inv m \<Longrightarrow> um_inv (um_prune now m)"
proof (cases "0 < um_ttl m")
  case False
  then show "um_inv m \<Longrightarrow> ?thesis" by (simp add: um_prune_def)
next
  case True
  assume inv: "um_inv m"
  note tombs = um_prune_tombs [OF inv True, of now] and get = um_prune_get [OF inv True, of now]
  have gok: "gok (um_tasks (um_prune now m))"
    using inv by (simp add: um_prune_tasks_eq [OF True] um_inv_def)
  have task: "task_ok k t" if "gget (um_tasks (um_prune now m)) k = Some t" for k t
    using that inv by (auto simp: get kept_def um_inv_def split: option.splits if_splits)
  have tomb: "tomb_ok k tb" if "gget (um_tombs (um_prune now m)) k = Some tb" for k tb
  proof -
    have "tombed m now k = Some tb" using that tombs by (simp split: if_splits)
    then show ?thesis
      using inv tomb_for_ok [OF um_inv_task [OF inv, of k]]
      by (cases "gget (um_tasks m) k") (auto simp: tombed_def um_inv_def)
  qed
  have disj: "gkeys (um_tasks (um_prune now m)) \<inter> gkeys (um_tombs (um_prune now m)) = {}"
  proof (rule ccontr)
    assume "\<not> ?thesis"
    then obtain k t tb where kt: "gget (um_tasks (um_prune now m)) k = Some t"
      and kb: "gget (um_tombs (um_prune now m)) k = Some tb"
      using gkeys_gget by (metis disjoint_iff)
    have "gget (um_tasks m) k = Some t" "tomb_for m now t = None"
      using kt by (auto simp: get kept_def split: option.splits if_splits)
    moreover have "tombed m now k = Some tb" using kb tombs by (simp split: if_splits)
    ultimately show False by (simp add: tombed_def)
  qed
  show ?thesis unfolding um_inv_def using gok task tomb disj tombs by blast
qed

lemma um_inv_gset:
  assumes "um_inv m" and "task_ok k t" and "k \<notin> gkeys (um_tombs m)"
  shows "um_inv (m\<lparr>um_tasks := gset k t (um_tasks m)\<rparr>)"
  using assms by (auto simp: um_inv_def)

text \<open>Dropping a stale tombstone of a handle that is live again restores disjointness.\<close>

lemma fifo_remove: "fifo_inv order m \<Longrightarrow> fifo_inv (remove1 k order) (gdel k m)"
  by (auto simp: fifo_inv_def)

lemma untombstone_tombs [simp]:
  "gget (um_tombs (untombstoneLocked k m)) j = (if j = k then None else gget (um_tombs m) j)"
  using gget_None [of "um_tombs m" k] by (simp add: untombstoneLocked_def)

lemma untombstone_fields [simp]:
  "um_tasks (untombstoneLocked k m) = um_tasks m" "um_exec (untombstoneLocked k m) = um_exec m"
  "um_ttl (untombstoneLocked k m) = um_ttl m" "um_MaxActive (untombstoneLocked k m) = um_MaxActive m"
  "um_PreparedTTL (untombstoneLocked k m) = um_PreparedTTL m"
  "um_MaxPrepared (untombstoneLocked k m) = um_MaxPrepared m"
  "um_ExecTimeout (untombstoneLocked k m) = um_ExecTimeout m"
  by (simp_all add: untombstoneLocked_def)

lemma untombstone_keys: "gkeys (um_tombs (untombstoneLocked k m)) = gkeys (um_tombs m) - {k}"
  by (auto simp: untombstoneLocked_def)

lemma untombstone_inv:
  assumes "um_inv m" and "task_ok k t"
  shows "um_inv (untombstoneLocked k (m\<lparr>um_tasks := gset k t (um_tasks m)\<rparr>))"
proof -
  let ?m = "untombstoneLocked k (m\<lparr>um_tasks := gset k t (um_tasks m)\<rparr>)"
  have "fifo_inv (um_order ?m) (um_tombs ?m)"
    using assms(1) fifo_remove by (auto simp: untombstoneLocked_def um_inv_def)
  moreover have "gkeys (um_tasks ?m) \<inter> gkeys (um_tombs ?m) = {}"
    using assms(1) by (auto simp: um_inv_def untombstone_keys)
  moreover have "\<forall>j x. gget (um_tasks ?m) j = Some x \<longrightarrow> task_ok j x"
    using assms um_inv_task [OF assms(1)] by (auto split: if_splits)
  moreover have "\<forall>j tb. gget (um_tombs ?m) j = Some tb \<longrightarrow> tomb_ok j tb"
    using assms(1) by (simp add: um_inv_def split: if_splits)
  moreover have "gok (um_tasks ?m)" using assms(1) by (simp add: um_inv_def)
  ultimately show ?thesis unfolding um_inv_def by blast
qed

section \<open>The operations preserve it\<close>

definition claimed_task :: "time \<Rightarrow> 'r utask \<Rightarrow> nat \<Rightarrow> 'r tracked" where
  "claimed_task now' task reader =
     \<lparr>tk_task = task\<lparr>ut_state := Queued, ut_started := Some now'\<rparr>, tk_cancel = True,
      tk_reader = Some reader, tk_closed = False, tk_timedOut = False, tk_preparedTTL = 0,
      tk_archiveMode = [], tk_wrap = False\<rparr>"

lemma beginLocked_alt:
  "beginLocked now now' task reader m =
     (case acquireSlotLocked (um_prune now m) of
        Some err \<Rightarrow> (Some err, um_prune now m)
      | None \<Rightarrow> (None, untombstoneLocked (ut_id task) (um_prune now m
          \<lparr>um_tasks := gset (ut_id task) (claimed_task now' task reader) (um_tasks (um_prune now m))\<rparr>)))"
  by (simp add: beginLocked_def claimed_task_def Let_def split: option.split)

lemma claimed_ok: "ut_finished task = None \<Longrightarrow> task_ok (ut_id task) (claimed_task now' task reader)"
  by (simp add: task_ok_def claimed_task_def)

lemma beginLocked_inv:
  assumes "um_inv m" and "ut_finished task = None"
  shows "um_inv (snd (beginLocked now now' task reader m))"
  using um_prune_inv [OF assms(1), of now]
    untombstone_inv [OF um_prune_inv [OF assms(1), of now] claimed_ok [OF assms(2), of now' reader]]
  by (simp add: beginLocked_alt split: option.split)

lemma um_Start_inv: "um_inv m \<Longrightarrow> um_inv (snd (um_Start k now t1 t2 reader sz name wait m))"
  using beginLocked_inv [of m "new_task k (if name = [] then DefaultUploadName else name) Queued now" t1 t2 reader]
  by (auto simp: um_Start_def Let_def new_task_def split: prod.splits option.splits)

lemma um_Fulfill_inv: "um_inv m \<Longrightarrow> um_inv (snd (um_Fulfill k t1 t2 reader sz name wait m))"
proof -
  assume inv: "um_inv m"
  have "um_inv (snd (beginLocked t1 t2 (tk_task tt) reader m))"
    if "gget (um_tasks m) k = Some tt" "tk_state tt = Prepared" for tt
    using um_inv_task [OF inv that(1)] that(2) by (intro beginLocked_inv [OF inv]) (simp add: task_ok_def)
  then show ?thesis using inv
    by (auto simp: um_Fulfill_def Let_def split: prod.splits option.splits upload_state.splits)
qed

lemma um_Cancel_inv: "um_inv m \<Longrightarrow> um_inv (snd (um_Cancel now k m))"
proof -
  assume inv: "um_inv m"
  have "um_inv (m\<lparr>um_tasks := gset k
      (t\<lparr>tk_task := (tk_task t)\<lparr>ut_state := Cancelled, ut_finished := Some now\<rparr>\<rparr>) (um_tasks m)\<rparr>)"
    if t: "gget (um_tasks m) k = Some t" and st: "tk_state t \<in> {Prepared, Queued, Running}" for t
  proof (rule um_inv_gset [OF inv])
    show "task_ok k (t\<lparr>tk_task := (tk_task t)\<lparr>ut_state := Cancelled, ut_finished := Some now\<rparr>\<rparr>)"
      using um_inv_task [OF inv t] st by (auto simp: task_ok_def)
    show "k \<notin> gkeys (um_tombs m)"
      using um_inv_disjoint [OF inv t] gget_None [of "um_tombs m" k] by blast
  qed
  then show ?thesis using inv by (auto simp: um_Cancel_def split: option.splits)
qed

section \<open>What each operation does to the tasks\<close>

definition tasks_sub :: "'r manager \<Rightarrow> 'r manager \<Rightarrow> bool" where
  "tasks_sub m m' \<longleftrightarrow> (\<forall>j t. gget (um_tasks m') j = Some t \<longrightarrow> gget (um_tasks m) j = Some t)"

definition tasks_set :: "string \<Rightarrow> 'r tracked \<Rightarrow> 'r manager \<Rightarrow> 'r manager \<Rightarrow> bool" where
  "tasks_set k t m m' \<longleftrightarrow> gget (um_tasks m') k = Some t
     \<and> (\<forall>j x. j \<noteq> k \<longrightarrow> gget (um_tasks m') j = Some x \<longrightarrow> gget (um_tasks m) j = Some x)"

text \<open>Tombstones are made of the handles that were tasks or tombstones before.\<close>

definition tombs_sub :: "'r manager \<Rightarrow> 'r manager \<Rightarrow> bool" where
  "tombs_sub m m' \<longleftrightarrow> gkeys (um_tombs m') \<subseteq> gkeys (um_tombs m) \<union> gkeys (um_tasks m)"

lemma tasks_sub_refl [simp]: "tasks_sub m m" by (simp add: tasks_sub_def)

lemma tombs_sub_refl [simp]: "tombs_sub m m" by (simp add: tombs_sub_def)

lemma tombs_sub_after:
  "tombs_sub m m1 \<Longrightarrow> gkeys (um_tombs m2) \<subseteq> gkeys (um_tombs m1) \<Longrightarrow> tombs_sub m m2"
  unfolding tombs_sub_def by blast

lemma tasks_set_after:
  "tasks_sub m m1 \<Longrightarrow> um_tasks m2 = gset k t (um_tasks m1) \<Longrightarrow> tasks_set k t m m2"
  by (simp add: tasks_sub_def tasks_set_def)

lemma um_prune_sub: "um_inv m \<Longrightarrow> tasks_sub m (um_prune now m)"
proof (cases "0 < um_ttl m")
  case False
  then show ?thesis by (simp add: um_prune_def)
next
  case True
  then show "um_inv m \<Longrightarrow> ?thesis"
    by (auto simp: tasks_sub_def um_prune_get kept_def split: option.splits if_splits)
qed

lemma um_prune_tombs_sub: "um_inv m \<Longrightarrow> tombs_sub m (um_prune now m)"
proof (cases "0 < um_ttl m")
  case False
  then show ?thesis by (simp add: um_prune_def)
next
  case True
  assume inv: "um_inv m"
  have "k \<in> gkeys (um_tombs m) \<union> gkeys (um_tasks m)" if k: "k \<in> gkeys (um_tombs (um_prune now m))" for k
  proof -
    obtain tb where "gget (um_tombs (um_prune now m)) k = Some tb" using gkeys_gget [OF k] by blast
    then have "tombed m now k = Some tb"
      using um_prune_tombs [OF inv True, of now] by (simp split: if_splits)
    then show ?thesis
      by (cases "gget (um_tasks m) k") (simp_all add: tombed_def gget_in_keys)
  qed
  then show ?thesis by (auto simp: tombs_sub_def)
qed

lemma um_Prepare_inv:
  assumes "um_inv m" and "k \<notin> gkeys (um_tasks m)" and "k \<notin> gkeys (um_tombs m)"
  shows "um_inv (snd (um_Prepare k now t1 name ttl opts m))"
proof -
  let ?m = "um_prune t1 m"
  have fresh: "k \<notin> gkeys (um_tombs ?m)"
    using assms(2,3) um_prune_tombs_sub [OF assms(1), of t1] unfolding tombs_sub_def by blast
  have "task_ok k \<lparr>tk_task = new_task k nm Prepared now, tk_cancel = False, tk_reader = None,
      tk_closed = False, tk_timedOut = False, tk_preparedTTL = ttl, tk_archiveMode = a, tk_wrap = b\<rparr>"
    for nm a b by (simp add: task_ok_def new_task_def)
  from um_inv_gset [OF um_prune_inv [OF assms(1)] this fresh] um_prune_inv [OF assms(1), of t1] assms(1)
  show ?thesis
    by (auto simp: um_Prepare_def Let_def split: option.splits)
qed

lemma beginLocked_effect:
  assumes "um_inv m" and "beginLocked now now' task reader m = (r, m')"
  shows "tombs_sub m m' \<and> (case r of
      Some err \<Rightarrow> tasks_sub m m'
    | None \<Rightarrow> tasks_set (ut_id task) (claimed_task now' task reader) m m')"
proof (cases "acquireSlotLocked (um_prune now m)")
  case (Some err)
  then have "r = Some err" "m' = um_prune now m"
    using assms(2) by (simp_all add: beginLocked_alt)
  then show ?thesis
    using um_prune_sub [OF assms(1), of now] um_prune_tombs_sub [OF assms(1), of now] by simp
next
  case None
  then have r: "r = None" and m': "m' = untombstoneLocked (ut_id task) (um_prune now m
      \<lparr>um_tasks := gset (ut_id task) (claimed_task now' task reader) (um_tasks (um_prune now m))\<rparr>)"
    using assms(2) by (simp_all add: beginLocked_alt)
  have "gkeys (um_tombs m') = gkeys (um_tombs (um_prune now m)) - {ut_id task}"
    by (simp add: m' untombstone_keys)
  then have "tombs_sub m m'"
    by (intro tombs_sub_after [OF um_prune_tombs_sub [OF assms(1), of now]]) blast
  moreover have "tasks_set (ut_id task) (claimed_task now' task reader) m m'"
    by (rule tasks_set_after [OF um_prune_sub [OF assms(1), of now]]) (simp add: m')
  ultimately show ?thesis by (simp add: r)
qed

lemma um_Start_effect:
  assumes "um_inv m" and "um_Start k now t1 t2 reader sz name wait m = ((r, cl), m')"
  shows "tombs_sub m m' \<and> (case r of
      Inl err \<Rightarrow> cl = [reader] \<and> tasks_sub m m'
    | Inr (k', xc) \<Rightarrow> k' = k \<and> cl = [] \<and>
        (\<exists>nm. tasks_set k (claimed_task t2 (new_task k nm Queued now) reader) m m'))"
proof (cases "um_exec m")
  case False
  then show ?thesis using assms(2) by (auto simp: um_Start_def)
next
  case True
  define nm where "nm = (if name = [] then DefaultUploadName else name)"
  obtain q m2 where b: "beginLocked t1 t2 (new_task k nm Queued now) reader m = (q, m2)" by fastforce
  show ?thesis
    using assms(2) True b beginLocked_effect [OF assms(1) b]
    by (cases q) (auto simp: um_Start_def Let_def nm_def [symmetric] new_task_def)
qed

lemma um_Fulfill_effect:
  assumes "um_inv m" and "um_Fulfill k t1 t2 reader sz name wait m = ((r, cl), m')"
  shows "tombs_sub m m' \<and> (case r of
      Inl err \<Rightarrow> cl = [reader] \<and> tasks_sub m m'
    | Inr xc \<Rightarrow> cl = [] \<and> (\<exists>tt. gget (um_tasks m) k = Some tt \<and> tk_state tt = Prepared
        \<and> tasks_set k (claimed_task t2 (tk_task tt) reader) m m'))"
proof (cases "um_exec m \<and> k \<notin> gkeys (um_tombs m)")
  case False
  then have "r = Inl (if um_exec m then HandleExpired k else NotConfigured)" "cl = [reader]" "m' = m"
    using assms(2) by (cases "um_exec m"; simp add: um_Fulfill_def)+
  then show ?thesis by simp
next
  case True
  show ?thesis
  proof (cases "gget (um_tasks m) k")
    case None
    then show ?thesis using assms(2) True by (auto simp: um_Fulfill_def)
  next
    case (Some tt)
    show ?thesis
    proof (cases "tk_state tt = Prepared")
      case False
      then show ?thesis using assms(2) True Some
        by (auto simp: um_Fulfill_def split: upload_state.splits)
    next
      case prep: True
      obtain q m2 where b: "beginLocked t1 t2 (tk_task tt) reader m = (q, m2)" by fastforce
      have "ut_id (tk_task tt) = k" using um_inv_task [OF assms(1) Some] by (simp add: task_ok_def)
      then show ?thesis
        using assms(2) True Some prep b beginLocked_effect [OF assms(1) b]
        by (cases q) (auto simp: um_Fulfill_def Let_def)
    qed
  qed
qed

definition prepared_task ::
  "string \<Rightarrow> string \<Rightarrow> time \<Rightarrow> duration \<Rightarrow> string \<Rightarrow> bool \<Rightarrow> 'r tracked" where
  "prepared_task k name now ttl mode wrap =
     \<lparr>tk_task = new_task k name Prepared now, tk_cancel = False, tk_reader = None,
      tk_closed = False, tk_timedOut = False, tk_preparedTTL = ttl, tk_archiveMode = mode,
      tk_wrap = wrap\<rparr>"

lemma um_Prepare_effect:
  assumes "um_inv m" and "um_Prepare k now t1 name ttl opts m = (r, m')"
  shows "tombs_sub m m' \<and> (case r of
      Inl err \<Rightarrow> tasks_sub m m'
    | Inr k' \<Rightarrow> k' = k \<and> (\<exists>nm mode w. tasks_set k (prepared_task k nm now ttl mode w) m m'))"
proof (cases "um_exec m \<and> acquirePreparedSlotLocked (um_prune t1 m) = None")
  case False
  then show ?thesis
    using assms(2) um_prune_sub [OF assms(1), of t1] um_prune_tombs_sub [OF assms(1), of t1]
    by (cases "um_exec m") (auto simp: um_Prepare_def Let_def)
next
  case True
  define nm where "nm = (if name = [] then DefaultUploadName else name)"
  define po where "po = fold (\<lambda>opt p. case opt of None \<Rightarrow> p | Some f \<Rightarrow> apply_option f p) opts
    (''preserve'', False)"
  have r: "r = Inr k" and m': "m' = um_prune t1 m
      \<lparr>um_tasks := gset k (prepared_task k nm now ttl (fst po) (snd po)) (um_tasks (um_prune t1 m))\<rparr>"
    using assms(2) True by (simp_all add: um_Prepare_def Let_def prepared_task_def nm_def po_def)
  have "um_tombs m' = um_tombs (um_prune t1 m)" by (simp add: m')
  then have "tombs_sub m m'"
    by (intro tombs_sub_after [OF um_prune_tombs_sub [OF assms(1), of t1]]) simp
  moreover have "tasks_set k (prepared_task k nm now ttl (fst po) (snd po)) m m'"
    by (rule tasks_set_after [OF um_prune_sub [OF assms(1), of t1]]) (simp add: m')
  ultimately show ?thesis using r by auto
qed

definition cancelled_task :: "time \<Rightarrow> 'r tracked \<Rightarrow> 'r tracked" where
  "cancelled_task now t = t\<lparr>tk_task := (tk_task t)\<lparr>ut_state := Cancelled, ut_finished := Some now\<rparr>\<rparr>"

lemma um_Cancel_effect:
  assumes "um_Cancel now k m = (r, m')"
  shows "tombs_sub m m' \<and> (case r of
      Some err \<Rightarrow> m' = m
    | None \<Rightarrow> (\<exists>t. gget (um_tasks m) k = Some t \<and> tk_state t \<in> {Prepared, Queued, Running}
        \<and> tasks_set k (cancelled_task now t) m m'))"
  using assms
  by (auto simp: um_Cancel_def tasks_set_def tombs_sub_def cancelled_task_def split: option.splits if_splits)

section \<open>The exchange sort\<close>

lemma exchange_pass_mset: "exchange_pass x ys = (z, zs) \<Longrightarrow> add_mset z (mset zs) = add_mset x (mset ys)"
proof (induction x ys arbitrary: z zs rule: exchange_pass.induct)
  case (1 x)
  then show ?case by simp
next
  case (2 x y ys)
  obtain w ws where w: "exchange_pass (if before (ut_created y) (ut_created x) then y else x) ys = (w, ws)"
    by fastforce
  show ?case using 2 w by (auto simp: Let_def add_mset_commute split: if_splits)
qed

lemma exchange_pass_le:
  "exchange_pass x ys = (z, zs) \<Longrightarrow> ut_created z \<le> ut_created x \<and> (\<forall>w \<in> set zs. ut_created z \<le> ut_created w)"
proof (induction x ys arbitrary: z zs rule: exchange_pass.induct)
  case (1 x)
  then show ?case by simp
next
  case (2 x y ys)
  show ?case
  proof (cases "before (ut_created y) (ut_created x)")
    case True
    obtain w ws where w: "exchange_pass y ys = (w, ws)" by fastforce
    from 2(1) [OF True w] 2(3) True w show ?thesis by (auto simp: Let_def)
  next
    case False
    obtain w ws where w: "exchange_pass x ys = (w, ws)" by fastforce
    from 2(2) [OF False w] 2(3) False w show ?thesis by (auto simp: Let_def)
  qed
qed

lemma exchange_sort_mset: "mset (exchange_sort xs) = mset xs"
proof (induction xs rule: exchange_sort.induct)
  case 1
  then show ?case by simp
next
  case (2 x xs)
  then show ?case using exchange_pass_mset [of x xs] by (metis exchange_sort.simps(2) mset.simps(2) prod.collapse)
qed

lemma exchange_sort_sorted: "sorted (map ut_created (exchange_sort xs))"
proof (induction xs rule: exchange_sort.induct)
  case 1
  then show ?case by simp
next
  case (2 x xs)
  have "set (exchange_sort (snd (exchange_pass x xs))) = set (snd (exchange_pass x xs))"
    using exchange_sort_mset by (metis set_mset_mset)
  moreover have "\<forall>w \<in> set (snd (exchange_pass x xs)). ut_created (fst (exchange_pass x xs)) \<le> ut_created w"
    using exchange_pass_le [of x xs] by (metis prod.collapse)
  ultimately show ?case using 2 by simp
qed

text \<open>Coarsely: \<open>Get\<close> answers from the task, from the tombstone, or with unknown.\<close>

lemma upload_get_cases:
  assumes "um_inv m" and "0 < um_ttl m"
  shows "(case gget (um_tasks m) k of
      Some t \<Rightarrow> tk_state t = Prepared
        \<or> fst (um_Get now k m) = Inr (tk_task t) \<or> fst (um_Get now k m) = Inl (UnknownHandle k)
    | None \<Rightarrow> (case gget (um_tombs m) k of
          Some tb \<Rightarrow> fst (um_Get now k m) = Inr tb \<or> fst (um_Get now k m) = Inl (UnknownHandle k)
        | None \<Rightarrow> fst (um_Get now k m) = Inl (UnknownHandle k)))"
proof -
  have get: "fst (um_Get now k m) =
      (case kept m now k of Some t \<Rightarrow> Inr (tk_task t)
       | None \<Rightarrow> (case gget (um_tombs (um_prune now m)) k of
            Some tb \<Rightarrow> Inr tb | None \<Rightarrow> Inl (UnknownHandle k)))"
    by (simp add: um_Get_def Let_def um_prune_get [OF assms] split: option.split)
  have tb: "gget (um_tombs (um_prune now m)) k = tombed m now k \<or> gget (um_tombs (um_prune now m)) k = None"
    using um_prune_tombs [OF assms, of now] by simp
  show ?thesis
  proof (cases "gget (um_tasks m) k")
    case None
    with tb show ?thesis by (cases "gget (um_tombs m) k") (auto simp: get kept_def tombed_def)
  next
    case (Some t)
    have "tb = tk_task t" if "tk_state t \<noteq> Prepared" "tomb_for m now t = Some tb" for tb
      using that um_inv_task [OF assms(1) Some]
      by (cases "tk_state t") (auto simp: tomb_for_terminal tomb_for_in_flight tomb_for_expired terminal_def
          split: option.splits if_splits)
    with Some tb show ?thesis
      by (cases "tomb_for m now t") (auto simp: get kept_def tombed_def)
  qed
qed

section \<open>Properties of the manager\<close>

lemma get_lookup:
  assumes "um_inv m" and "0 < um_ttl m"
  shows "fst (um_Get now k m) =
      (case kept m now k of Some t \<Rightarrow> Inr (tk_task t)
       | None \<Rightarrow> (case gget (um_tombs (um_prune now m)) k of Some tb \<Rightarrow> Inr tb | None \<Rightarrow> Inl (UnknownHandle k)))"
  by (simp add: um_Get_def Let_def um_prune_get [OF assms] split: option.split)

text \<open>A handle whose task the prune evicts.\<close>

lemma get_evicted:
  assumes "um_inv m" and "0 < um_ttl m" and Some: "gget (um_tasks m) k = Some t" and td: "tomb_for m now t = Some x"
  shows "\<not> in_flight t
    \<and> (if tk_state t = Prepared
       then 0 < prepared_ttl m t \<and> before (ut_created (tk_task t)) (now - prepared_ttl m t)
         \<and> fst (um_Get now k m) = Inr (lapsed_tomb now t)
       else \<exists>f. ut_finished (tk_task t) = Some f \<and> before f (now - um_ttl m)
         \<and> (fst (um_Get now k m) = Inr (tk_task t) \<or> fst (um_Get now k m) = Inl (UnknownHandle k)))"
proof -
  have g: "fst (um_Get now k m) =
      (case gget (um_tombs (um_prune now m)) k of Some tb \<Rightarrow> Inr tb | None \<Rightarrow> Inl (UnknownHandle k))"
    and tk: "tombed m now k = Some x"
    using Some td by (simp_all add: get_lookup [OF assms(1,2)] kept_def tombed_def)
  have nf: "\<not> in_flight t" using tomb_for_in_flight [of t m now] td by auto
  show ?thesis
  proof (cases "tk_state t = Prepared")
    case True
    then have x: "x = lapsed_tomb now t" "0 < prepared_ttl m t"
      "before (ut_created (tk_task t)) (now - prepared_ttl m t)"
      using td by (auto simp: tomb_for_prepared split: if_splits)
    then have "\<not> stale (now - um_ttl m) (tombed m now k)" using tk assms(2) by (simp add: stale_def lapsed_tomb_def)
    then have "gget (um_tombs (um_prune now m)) k = Some x"
      using um_prune_young [OF assms(1,2)] tk by simp
    with True nf x g show ?thesis by simp
  next
    case False
    then have "terminal (tk_state t)" using nf um_inv_task [OF assms(1) Some]
      by (cases "tk_state t") (auto simp: terminal_def task_ok_def)
    then obtain f where f: "ut_finished (tk_task t) = Some f" "before f (now - um_ttl m)" "x = tk_task t"
      using td by (auto simp: tomb_for_terminal split: option.splits if_splits)
    have "fst (um_Get now k m) = Inr (tk_task t) \<or> fst (um_Get now k m) = Inl (UnknownHandle k)"
      using um_prune_tombs [OF assms(1,2), of now] tk f(3) by (auto simp: g)
    with False nf f show ?thesis by simp
  qed
qed

text \<open>
  C21. What \<open>Get\<close> answers, for any manager whose bookkeeping is in order and whatever order the
  prune visits the map in. A live handle that is not due is answered with its task; a
  prepared handle whose window has lapsed with its expired snapshot; a finished handle
  past its retention with its outcome or as unknown; a tombstone within retention with its
  snapshot; anything else is unknown. A handle is due only as the code says: never while
  it is queued or running.
\<close>

theorem upload_get_outcome:
  assumes "um_inv m" and "0 < um_ttl m"
  shows "(case gget (um_tasks m) k of
      Some t \<Rightarrow>
        (if in_flight t then fst (um_Get now k m) = Inr (tk_task t)
         else if tk_state t = Prepared then
           fst (um_Get now k m) =
             Inr (if 0 < prepared_ttl m t \<and> before (ut_created (tk_task t)) (now - prepared_ttl m t)
                  then lapsed_tomb now t else tk_task t)
         else (\<exists>f. ut_finished (tk_task t) = Some f \<and>
           (if before f (now - um_ttl m)
            then fst (um_Get now k m) = Inr (tk_task t) \<or> fst (um_Get now k m) = Inl (UnknownHandle k)
            else fst (um_Get now k m) = Inr (tk_task t))))
    | None \<Rightarrow>
        (case gget (um_tombs m) k of
           Some tb \<Rightarrow> fst (um_Get now k m) = Inr tb
              \<or> (stale (now - um_ttl m) (Some tb) \<and> fst (um_Get now k m) = Inl (UnknownHandle k))
         | None \<Rightarrow> fst (um_Get now k m) = Inl (UnknownHandle k)))"
proof (cases "gget (um_tasks m) k")
  case None
  then have kd: "kept m now k = None" "tombed m now k = gget (um_tombs m) k"
    by (simp_all add: kept_def tombed_def)
  have tb: "gget (um_tombs (um_prune now m)) k = tombed m now k \<or> gget (um_tombs (um_prune now m)) k = None"
    using um_prune_tombs [OF assms, of now] by simp
  show ?thesis
  proof (cases "gget (um_tombs m) k")
    case None
    with kd tb \<open>gget (um_tasks m) k = None\<close> show ?thesis by (auto simp: get_lookup [OF assms])
  next
    case (Some x)
    with kd tb um_prune_young [OF assms, of now k] \<open>gget (um_tasks m) k = None\<close> show ?thesis
      by (cases "stale (now - um_ttl m) (Some x)") (auto simp: get_lookup [OF assms])
  qed
next
  case (Some t)
  show ?thesis
  proof (cases "tomb_for m now t")
    case None
    then have "fst (um_Get now k m) = Inr (tk_task t)" using Some by (simp add: get_lookup [OF assms] kept_def)
    with Some None um_inv_task [OF assms(1) Some] show ?thesis
      by (cases "tk_state t") (auto simp: tomb_for_prepared tomb_for_terminal terminal_def task_ok_def
          split: if_splits option.splits)
  next
    case td: (Some x)
    from get_evicted [OF assms Some td] Some show ?thesis by (simp split: if_splits) blast
  qed
qed

text \<open>A manager with a finished upload, a prepared one and a running one.\<close>

definition demo_task :: "string \<Rightarrow> upload_state \<Rightarrow> time \<Rightarrow> time option \<Rightarrow> nat tracked" where
  "demo_task k st created finished =
     \<lparr>tk_task = \<lparr>ut_id = k, ut_name = ''f'', ut_state = st, ut_created = created,
        ut_started = (if st = Prepared then None else Some created), ut_finished = finished,
        ut_result = (if st = Completed then Some 7 else None), ut_err = []\<rparr>,
      tk_cancel = (st \<noteq> Prepared), tk_reader = None, tk_closed = False, tk_timedOut = False,
      tk_preparedTTL = 0, tk_archiveMode = ''convert'', tk_wrap = False\<rparr>"

definition demo_manager :: "nat manager" where
  "demo_manager = \<lparr>um_tasks = [(''run'', demo_task ''run'' Running 3 None),
       (''done'', demo_task ''done'' Completed 1 (Some 2)), (''prep'', demo_task ''prep'' Prepared 0 None)],
     um_tombs = [], um_order = [], um_exec = True, um_ttl = 10, um_MaxActive = 2, um_PreparedTTL = 5,
     um_MaxPrepared = 2, um_ExecTimeout = 100\<rparr>"

lemma demo_manager_inv: "um_inv demo_manager"
  by (auto simp: um_inv_def demo_manager_def demo_task_def fifo_inv_def task_ok_def split: if_splits)

lemma demo_manager_tasks:
  "gget (um_tasks demo_manager) ''run'' = Some (demo_task ''run'' Running 3 None)"
  "gget (um_tasks demo_manager) ''done'' = Some (demo_task ''done'' Completed 1 (Some 2))"
  "gget (um_tasks demo_manager) ''prep'' = Some (demo_task ''prep'' Prepared 0 None)"
  by (simp_all add: demo_manager_def)

theorem upload_get_outcome_witness:
  "fst (um_Get 6 ''prep'' demo_manager) = Inr (lapsed_tomb 6 (demo_task ''prep'' Prepared 0 None))
   \<and> fst (um_Get 12 ''done'' demo_manager) = Inr (tk_task (demo_task ''done'' Completed 1 (Some 2)))
   \<and> fst (um_Get 99 ''run'' demo_manager) = Inr (tk_task (demo_task ''run'' Running 3 None))"
proof -
  have ttl: "0 < um_ttl demo_manager" "um_ttl demo_manager = 10" by (simp_all add: demo_manager_def)
  note t = upload_get_outcome [OF demo_manager_inv ttl(1)]
  have st: "tk_state (demo_task k st c f) = st" "ut_finished (tk_task (demo_task k st c f)) = f"
    "ut_created (tk_task (demo_task k st c f)) = c" for k st c f
    by (simp_all add: demo_task_def)
  have pt: "prepared_ttl demo_manager (demo_task ''prep'' Prepared 0 None) = 5"
    by (simp add: prepared_ttl_def demo_task_def demo_manager_def)
  show ?thesis
    using t [where k = "''prep''" and now = 6] t [where k = "''done''" and now = 12] t [where k = "''run''" and now = 99]
    by (simp add: demo_manager_tasks st pt ttl(2))
qed

lemma task_list_mem:
  "u \<in> set (map (\<lambda>e. cloneTask (tk_task (snd e))) xs) \<longleftrightarrow> (\<exists>k t. (k, t) \<in> set xs \<and> u = tk_task t)"
proof
  assume "u \<in> set (map (\<lambda>e. cloneTask (tk_task (snd e))) xs)"
  then obtain e where "e \<in> set xs" "u = tk_task (snd e)" by auto
  then have "(fst e, snd e) \<in> set xs \<and> u = tk_task (snd e)" by simp
  then show "\<exists>k t. (k, t) \<in> set xs \<and> u = tk_task t" by blast
next
  assume "\<exists>k t. (k, t) \<in> set xs \<and> u = tk_task t"
  then show "u \<in> set (map (\<lambda>e. cloneTask (tk_task (snd e))) xs)" by force
qed

text \<open>
  \<open>List\<close> shows exactly the tasks that survive its prune, each once, by creation time; and
  what it shows is what \<open>Get\<close> at the same instant answers for the handle.
\<close>

theorem upload_list_sorted:
  assumes "um_inv m" and "0 < um_ttl m"
  shows "sorted (map ut_created (fst (um_List now m)))
    \<and> distinct (map ut_id (fst (um_List now m)))
    \<and> set (fst (um_List now m)) = {tk_task t |k t. kept m now k = Some t}
    \<and> (\<forall>u \<in> set (fst (um_List now m)). fst (um_Get now (ut_id u) m) = Inr u)"
proof -
  let ?p = "um_prune now m"
  let ?us = "map (\<lambda>e. cloneTask (tk_task (snd e))) (um_tasks ?p)"
  have l: "fst (um_List now m) = exchange_sort ?us" by (simp add: um_List_def Let_def)
  have inv: "um_inv ?p" by (rule um_prune_inv [OF assms(1)])
  have gok: "gok (um_tasks ?p)" using inv by (simp add: um_inv_def)
  have "ut_id (tk_task (snd e)) = fst e" if "e \<in> set (um_tasks ?p)" for e
    using um_inv_task [OF inv gget_mem [OF gok, of "fst e" "snd e"]] that by (simp add: task_ok_def)
  then have ids: "map ut_id ?us = map fst (um_tasks ?p)" by simp
  have ms: "mset (exchange_sort ?us) = mset ?us" by (rule exchange_sort_mset)
  then have "mset (map ut_id (exchange_sort ?us)) = mset (map fst (um_tasks ?p))"
    unfolding ids [symmetric] by (simp only: mset_map)
  from mset_eq_imp_distinct_iff [OF this] gok
  have dist: "distinct (map ut_id (exchange_sort ?us))" by blast
  have members: "u \<in> set (exchange_sort ?us) \<longleftrightarrow> (\<exists>k t. gget (um_tasks ?p) k = Some t \<and> u = tk_task t)" for u
    unfolding mset_eq_setD [OF ms] map_of_eq_Some_iff [OF gok] by (rule task_list_mem)
  have "fst (um_Get now (ut_id u) m) = Inr u" if u: "u \<in> set (exchange_sort ?us)" for u
  proof -
    obtain k t where t: "gget (um_tasks ?p) k = Some t" "u = tk_task t"
      using u unfolding members [of u] by blast
    then have "ut_id u = k" using um_inv_task [OF inv] by (simp add: task_ok_def)
    then show ?thesis unfolding um_Get_def Let_def t(2) by (simp add: t(1))
  qed
  then have same: "\<forall>u \<in> set (fst (um_List now m)). fst (um_Get now (ut_id u) m) = Inr u"
    unfolding l by blast
  have content: "set (fst (um_List now m)) = {tk_task t |k t. kept m now k = Some t}"
  proof (rule set_eqI)
    fix u
    show "u \<in> set (fst (um_List now m)) \<longleftrightarrow> u \<in> {tk_task t |k t. kept m now k = Some t}"
      using members [of u] by (simp only: l um_prune_get [OF assms] mem_Collect_eq) blast
  qed
  show ?thesis
    by (intro conjI same content) (simp_all only: l exchange_sort_sorted dist)
qed

theorem upload_list_sorted_witness:
  "map ut_id (fst (um_List 6 demo_manager)) = [''done'', ''run'']
   \<and> sorted (map ut_created (fst (um_List 6 demo_manager)))"
proof -
  have "0 < um_ttl demo_manager" by (simp add: demo_manager_def)
  from upload_list_sorted [OF demo_manager_inv this, of 6]
  have "sorted (map ut_created (fst (um_List 6 demo_manager)))" by simp
  moreover have "map ut_id (fst (um_List 6 demo_manager)) = [''done'', ''run'']" by code_simp
  ultimately show ?thesis by simp
qed

text \<open>
  C22. \<open>Fulfill\<close> accepts bytes for a handle exactly when it is prepared (however long ago, as
  long as it has no tombstone yet) and an upload slot is free, and then the handle is live
  and queued, owns the reader, has no tombstone, and the executor is called with the
  archive mode and the wrap flag recorded by \<open>Prepare\<close>. Otherwise it says why and closes the
  reader it was given, once; a second fulfillment is always refused.
\<close>

theorem upload_fulfill_outcome:
  assumes "um_inv m" and "um_Fulfill k t1 t2 reader sz name wait m = ((r, cl), m')"
  shows "(case gget (um_tasks m) k of
      None \<Rightarrow> r = Inl (if \<not> um_exec m then NotConfigured
                     else if k \<in> gkeys (um_tombs m) then HandleExpired k else UnknownHandle k)
    | Some tt \<Rightarrow>
        if \<not> um_exec m then r = Inl NotConfigured
        else if in_flight tt then r = Inl (InProgress k)
        else if terminal (tk_state tt) then r = Inl (AlreadyFinished k (tk_state tt))
        else if acquireSlotLocked (um_prune t1 m) \<noteq> None then r = Inl TooManyActive
        else r = Inr \<lparr>xc_reader = reader, xc_size = sz,
                      xc_name = (if name = [] then ut_name (tk_task tt) else name), xc_wait = wait,
                      xc_archiveMode = tk_archiveMode tt, xc_wrap = tk_wrap tt\<rparr>
          \<and> gget (um_tasks m') k = Some (claimed_task t2 (tk_task tt) reader)
          \<and> k \<notin> gkeys (um_tombs m'))
    \<and> cl = (case r of Inl e \<Rightarrow> [reader] | Inr xc \<Rightarrow> [])"
proof -
  have closed: "cl = (case r of Inl e \<Rightarrow> [reader] | Inr xc \<Rightarrow> [])"
    using um_Fulfill_effect [OF assms] by (cases r) auto
  show ?thesis
  proof (cases "gget (um_tasks m) k")
    case None
    then show ?thesis using closed assms(2) by (auto simp: um_Fulfill_def split: if_splits)
  next
    case (Some tt)
    have nt: "k \<notin> gkeys (um_tombs m)"
      using um_inv_disjoint [OF assms(1) Some] gget_None [of "um_tombs m" k] by blast
    have ok: "task_ok k tt" by (rule um_inv_task [OF assms(1) Some])
    show ?thesis
    proof (cases "um_exec m \<and> tk_state tt = Prepared")
      case False
      with Some nt ok closed assms(2) show ?thesis
        by (cases "um_exec m"; cases "tk_state tt") (simp_all add: um_Fulfill_def terminal_def task_ok_def)
    next
      case True
      have k: "ut_id (tk_task tt) = k" using ok by (simp add: task_ok_def)
      show ?thesis
      proof (cases "acquireSlotLocked (um_prune t1 m)")
        case (Some err)
        then have "err = TooManyActive" by (auto simp: acquireSlotLocked_def split: if_splits)
        with Some True \<open>gget (um_tasks m) k = Some tt\<close> nt closed assms(2) show ?thesis
          by (simp add: um_Fulfill_def beginLocked_alt terminal_def Let_def)
      next
        case None
        have m': "m' = untombstoneLocked k (um_prune t1 m
            \<lparr>um_tasks := gset k (claimed_task t2 (tk_task tt) reader) (um_tasks (um_prune t1 m))\<rparr>)"
          and r: "r = Inr \<lparr>xc_reader = reader, xc_size = sz,
              xc_name = (if name = [] then ut_name (tk_task tt) else name), xc_wait = wait,
              xc_archiveMode = tk_archiveMode tt, xc_wrap = tk_wrap tt\<rparr>"
          using None True Some nt assms(2) k by (simp_all add: um_Fulfill_def beginLocked_alt Let_def)
        have "k \<notin> gkeys (um_tombs m')" unfolding m' untombstone_keys by simp
        moreover have "gget (um_tasks m') k = Some (claimed_task t2 (tk_task tt) reader)" by (simp add: m')
        ultimately show ?thesis using Some True None r closed by (simp add: terminal_def)
      qed
    qed
  qed
qed

theorem upload_fulfill_outcome_witness:
  "let p = um_Fulfill ''prep'' 4 4 1 10 [] False demo_manager
   in fst (fst p) = Inr \<lparr>xc_reader = 1, xc_size = 10, xc_name = ''f'', xc_wait = False,
                         xc_archiveMode = ''convert'', xc_wrap = False\<rparr>
    \<and> snd (fst (um_Fulfill ''run'' 4 4 1 10 [] False demo_manager)) = [1]"
proof -
  let ?p = "um_Fulfill ''prep'' 4 4 1 10 [] False demo_manager"
  let ?q = "um_Fulfill ''run'' 4 4 1 10 [] False demo_manager"
  have p: "?p = ((fst (fst ?p), snd (fst ?p)), snd ?p)" "?q = ((fst (fst ?q), snd (fst ?q)), snd ?q)"
    by simp_all
  have slot: "acquireSlotLocked (um_prune 4 demo_manager) = None" by code_simp
  have st: "tk_state (demo_task k st c f) = st" "tk_archiveMode (demo_task k st c f) = ''convert''"
    "tk_wrap (demo_task k st c f) = False" "ut_name (tk_task (demo_task k st c f)) = ''f''" for k st c f
    by (simp_all add: demo_task_def)
  have ex: "um_exec demo_manager" by (simp add: demo_manager_def)
  show ?thesis
    using upload_fulfill_outcome [OF demo_manager_inv p(1)] upload_fulfill_outcome [OF demo_manager_inv p(2)]
    by (simp add: demo_manager_tasks st ex slot terminal_def Let_def)
qed

text \<open>
  The tombstone of a finished upload does not outlive its task. The prune that evicts a
  finished task past its retention also retires the tombstone it has just made for it (the
  tombstone's finish time is the same one, already past the cutoff), so when nothing
  younger is ahead in the queue a late poll is told "unknown upload handle", the answer
  the tombstones are documented to avoid.
\<close>

theorem finished_handle_forgotten:
  assumes "um_inv m" and "0 < um_ttl m" and "um_tasks m = [(k, t)]" and "um_order m = []"
    and "terminal (tk_state t)" and "ut_finished (tk_task t) = Some f" and "f < now - um_ttl m"
  shows "fst (um_Get now k m) = Inl (UnknownHandle k)"
proof -
  have due: "tomb_for m now t = Some (tk_task t)" using assms(5-7) by (simp add: tomb_for_terminal)
  have ev: "map fst (evictions m now) = [k]"
    using due by (simp add: evictions_def assms(3) List.map_filter_def eviction_of_tomb)
  have tk: "tombed m now k = Some (tk_task t)" using due by (simp add: tombed_def assms(3))
  then have o: "um_order (um_prune now m) = []"
    using um_prune_tombs [OF assms(1,2), of now] assms(6,7) by (simp add: ev assms(4) stale_def)
  have "gget (um_tombs (um_prune now m)) k =
      (if k \<in> set (um_order (um_prune now m)) then tombed m now k else None)"
    using um_prune_tombs [OF assms(1,2), of now] by blast
  then have "gget (um_tombs (um_prune now m)) k = None" unfolding o by simp
  moreover have "kept m now k = None" using due by (simp add: kept_def assms(3))
  ultimately show ?thesis by (simp add: um_Get_def Let_def um_prune_get [OF assms(1,2)])
qed

theorem finished_handle_forgotten_witness:
  "fst (um_Get 13 ''done'' (demo_manager\<lparr>um_tasks := [(''done'', demo_task ''done'' Completed 1 (Some 2))]\<rparr>))
     = Inl (UnknownHandle ''done'')"
proof (rule finished_handle_forgotten)
  show "um_inv (demo_manager\<lparr>um_tasks := [(''done'', demo_task ''done'' Completed 1 (Some 2))]\<rparr>)"
    by (auto simp: um_inv_def demo_manager_def demo_task_def fifo_inv_def task_ok_def)
qed (auto simp: demo_manager_def demo_task_def terminal_def)

end
