(* ===== verification/UploadSystem.thy ===== *)
theory UploadSystem
  imports UploadTasks
begin

text \<open>
  The uploads as a transition system: the manager of \<open>transfer/upload_tasks.go\<close> together with
  the goroutines \<open>spawn\<close> starts, their watchdogs and the callers of \<open>Cancel\<close> that have yet
  to close a reader. A step is one section under the mutex, or one action outside it
  (the executor returning, a reader being closed), so every interleaving of the code is a
  sequence of steps. A tracked task that was evicted from the manager's map while its
  goroutine still refers to it is kept among the orphans.
\<close>

section \<open>The system\<close>

datatype 'r go_pc =
    Spawned exec_call
  | Executing
  | Returned "'r option" "exec_error option"
  | Closing
  | Finished

text \<open>The watchdog timer: not set, armed, fired (reader closed), done, disarmed.\<close>

datatype watchdog = NoDog | Armed | Fired | DogDone | Disarmed

record 'r goroutine =
  go_pc :: "'r go_pc"
  go_dog :: watchdog

record 'r upload_sys =
  sy_mgr :: "'r manager"
  sy_orphans :: "(string, 'r tracked) gomap"
  sy_gos :: "(string, 'r goroutine) gomap"
  sy_pend :: "string list" \<comment> \<open>cancelled, reader not yet closed by \<open>Cancel\<close>\<close>
  sy_used :: "string list" \<comment> \<open>identifiers generated\<close>
  sy_readers :: "nat list" \<comment> \<open>readers handed to the manager\<close>
  sy_closed :: "nat list" \<comment> \<open>the \<open>Close\<close> calls, in order\<close>
  sy_runs :: "(string \<times> exec_call) list" \<comment> \<open>the calls of the executor, in order\<close>

definition init_sys :: "'r manager \<Rightarrow> 'r upload_sys" where
  "init_sys m = \<lparr>sy_mgr = m, sy_orphans = [], sy_gos = [], sy_pend = [], sy_used = [],
     sy_readers = [], sy_closed = [], sy_runs = []\<rparr>"

definition obj_of :: "'r upload_sys \<Rightarrow> string \<Rightarrow> 'r tracked option" where
  "obj_of s k = (case gget (um_tasks (sy_mgr s)) k of Some t \<Rightarrow> Some t | None \<Rightarrow> gget (sy_orphans s) k)"

definition set_obj :: "string \<Rightarrow> 'r tracked \<Rightarrow> 'r upload_sys \<Rightarrow> 'r upload_sys" where
  "set_obj k t s =
     (if k \<in> gkeys (um_tasks (sy_mgr s))
      then s\<lparr>sy_mgr := (sy_mgr s)\<lparr>um_tasks := gset k t (um_tasks (sy_mgr s))\<rparr>\<rparr>
      else s\<lparr>sy_orphans := gset k t (sy_orphans s)\<rparr>)"

definition close_obj :: "string \<Rightarrow> 'r upload_sys \<Rightarrow> 'r upload_sys" where
  "close_obj k s =
     (case obj_of s k of
        None \<Rightarrow> s
      | Some t \<Rightarrow> (case closeReader t of (cl, t') \<Rightarrow> (set_obj k t' s)\<lparr>sy_closed := sy_closed s @ cl\<rparr>))"

text \<open>A step of the manager: evicted entries become orphans.\<close>

definition with_mgr :: "'r manager \<Rightarrow> 'r upload_sys \<Rightarrow> 'r upload_sys" where
  "with_mgr m s =
     s\<lparr>sy_mgr := m,
       sy_orphans := filter (\<lambda>e. fst e \<notin> gkeys (um_tasks m)) (um_tasks (sy_mgr s)) @ sy_orphans s\<rparr>"

definition set_go :: "string \<Rightarrow> 'r go_pc \<Rightarrow> watchdog \<Rightarrow> 'r upload_sys \<Rightarrow> 'r upload_sys" where
  "set_go k pc dog s = s\<lparr>sy_gos := gset k \<lparr>go_pc = pc, go_dog = dog\<rparr> (sy_gos s)\<rparr>"

datatype 'r uevent =
    UStart string time time time nat int string bool
  | UPrepare string time time string duration "prepare_option option list"
  | UFulfill string time time nat int string bool
  | UGet time string
  | UList time
  | UCancel time string
  | UCancelClose string
  | GBegin time string
  | GReturn "'r option" "exec_error option" string
  | GComplete time string
  | GClose string
  | WClose string
  | WFail time string

text \<open>The state after an event, \<open>None\<close> when the event cannot happen.\<close>

fun fire :: "'r uevent \<Rightarrow> 'r upload_sys \<Rightarrow> 'r upload_sys option" where
  "fire (UStart k now t1 t2 reader sz name wait) s =
     (if k \<in> set (sy_used s) \<or> reader \<in> set (sy_readers s) then None
      else (case um_Start k now t1 t2 reader sz name wait (sy_mgr s) of
          ((Inl err, cl), m) \<Rightarrow>
            Some ((with_mgr m s)\<lparr>sy_used := k # sy_used s, sy_readers := reader # sy_readers s,
                                 sy_closed := sy_closed s @ cl\<rparr>)
        | ((Inr (k', xc), cl), m) \<Rightarrow>
            Some (set_go k (Spawned xc) NoDog
              ((with_mgr m s)\<lparr>sy_used := k # sy_used s, sy_readers := reader # sy_readers s,
                              sy_closed := sy_closed s @ cl\<rparr>))))"
| "fire (UPrepare k now t1 name ttl opts) s =
     (if k \<in> set (sy_used s) then None
      else Some ((with_mgr (snd (um_Prepare k now t1 name ttl opts (sy_mgr s))) s)
                   \<lparr>sy_used := k # sy_used s\<rparr>))"
| "fire (UFulfill k t1 t2 reader sz name wait) s =
     (if reader \<in> set (sy_readers s) then None
      else (case um_Fulfill k t1 t2 reader sz name wait (sy_mgr s) of
          ((Inl err, cl), m) \<Rightarrow>
            Some ((with_mgr m s)\<lparr>sy_readers := reader # sy_readers s, sy_closed := sy_closed s @ cl\<rparr>)
        | ((Inr xc, cl), m) \<Rightarrow>
            Some (set_go k (Spawned xc) NoDog
              ((with_mgr m s)\<lparr>sy_readers := reader # sy_readers s, sy_closed := sy_closed s @ cl\<rparr>))))"
| "fire (UGet now k) s = Some (with_mgr (snd (um_Get now k (sy_mgr s))) s)"
| "fire (UList now) s = Some (with_mgr (snd (um_List now (sy_mgr s))) s)"
| "fire (UCancel now k) s =
     (case um_Cancel now k (sy_mgr s) of
        (Some err, m) \<Rightarrow> Some (with_mgr m s)
      | (None, m) \<Rightarrow> Some ((with_mgr m s)\<lparr>sy_pend := k # sy_pend s\<rparr>))"
| "fire (UCancelClose k) s =
     (if k \<notin> set (sy_pend s) then None
      else Some (close_obj k (s\<lparr>sy_pend := filter (\<lambda>j. j \<noteq> k) (sy_pend s)\<rparr>)))"
| "fire (GBegin now k) s =
     (case (gget (sy_gos s) k, obj_of s k) of
        (Some g, Some t) \<Rightarrow>
          (case go_pc g of
             Spawned xc \<Rightarrow>
               (case run_begin now t of
                  (False, t') \<Rightarrow> Some (set_go k Finished (go_dog g) s)
                | (True, t') \<Rightarrow> Some ((set_go k Executing Armed (set_obj k t' s))
                                       \<lparr>sy_runs := sy_runs s @ [(k, xc)]\<rparr>))
           | _ \<Rightarrow> None)
      | _ \<Rightarrow> None)"
| "fire (GReturn res err k) s =
     (case gget (sy_gos s) k of
        Some g \<Rightarrow>
          (case go_pc g of
             Executing \<Rightarrow>
               Some (if go_dog g = Armed then set_go k (Returned res err) Disarmed s
                     else close_obj k (set_go k (Returned res err) (go_dog g) s))
           | _ \<Rightarrow> None)
      | None \<Rightarrow> None)"
| "fire (GComplete now k) s =
     (case (gget (sy_gos s) k, obj_of s k) of
        (Some g, Some t) \<Rightarrow>
          (case go_pc g of
             Returned res err \<Rightarrow> Some (set_go k Closing (go_dog g) (set_obj k (complete now res err t) s))
           | _ \<Rightarrow> None)
      | _ \<Rightarrow> None)"
| "fire (GClose k) s =
     (case gget (sy_gos s) k of
        Some g \<Rightarrow>
          (case go_pc g of
             Closing \<Rightarrow> Some (close_obj k (set_go k Finished (go_dog g) s))
           | _ \<Rightarrow> None)
      | None \<Rightarrow> None)"
| "fire (WClose k) s =
     (case gget (sy_gos s) k of
        Some g \<Rightarrow> (if go_dog g = Armed then Some (close_obj k (set_go k (go_pc g) Fired s)) else None)
      | None \<Rightarrow> None)"
| "fire (WFail now k) s =
     (case (gget (sy_gos s) k, obj_of s k) of
        (Some g, Some t) \<Rightarrow>
          (if go_dog g = Fired then Some (set_go k (go_pc g) DogDone (set_obj k (watchdog_fail now t) s))
           else None)
      | _ \<Rightarrow> None)"

text \<open>The step relation and the states reachable from an empty manager.\<close>

inductive ustep :: "'r upload_sys \<Rightarrow> 'r uevent \<Rightarrow> 'r upload_sys \<Rightarrow> bool" where
  ustepI: "fire ev s = Some s' \<Longrightarrow> ustep s ev s'"

inductive_cases ustepE: "ustep s ev s'"

inductive ureach :: "'r manager \<Rightarrow> 'r upload_sys \<Rightarrow> bool" for m where
  ureach_init: "ureach m (init_sys m)"
| ureach_step: "ureach m s \<Longrightarrow> ustep s ev s' \<Longrightarrow> ureach m s'"

section \<open>Objects and goroutines\<close>

lemma obj_of_set_obj [simp]: "obj_of (set_obj k t s) j = (if j = k then Some t else obj_of s j)"
proof -
  have "k \<notin> gkeys (um_tasks (sy_mgr s)) \<Longrightarrow> gget (um_tasks (sy_mgr s)) k = None"
    by (rule gget_None [THEN iffD2])
  then show ?thesis by (auto simp: obj_of_def set_obj_def split: option.split)
qed

lemma set_obj_fields [simp]:
  "sy_gos (set_obj k t s) = sy_gos s" "sy_pend (set_obj k t s) = sy_pend s"
  "sy_used (set_obj k t s) = sy_used s" "sy_readers (set_obj k t s) = sy_readers s"
  "sy_closed (set_obj k t s) = sy_closed s" "sy_runs (set_obj k t s) = sy_runs s"
  "um_tombs (sy_mgr (set_obj k t s)) = um_tombs (sy_mgr s)"
  by (simp_all add: set_obj_def)

lemma obj_of_ext [simp]:
  "obj_of (s\<lparr>sy_gos := a\<rparr>) = obj_of s" "obj_of (s\<lparr>sy_pend := b\<rparr>) = obj_of s"
  "obj_of (s\<lparr>sy_used := c\<rparr>) = obj_of s" "obj_of (s\<lparr>sy_readers := d\<rparr>) = obj_of s"
  "obj_of (s\<lparr>sy_closed := d'\<rparr>) = obj_of s" "obj_of (s\<lparr>sy_runs := e\<rparr>) = obj_of s"
  by (simp_all add: obj_of_def fun_eq_iff split: option.split)

lemma set_go_fields [simp]:
  "sy_gos (set_go k pc dog s) = gset k \<lparr>go_pc = pc, go_dog = dog\<rparr> (sy_gos s)"
  "obj_of (set_go k pc dog s) = obj_of s" "sy_orphans (set_go k pc dog s) = sy_orphans s"
  "sy_pend (set_go k pc dog s) = sy_pend s" "sy_used (set_go k pc dog s) = sy_used s"
  "sy_readers (set_go k pc dog s) = sy_readers s" "sy_closed (set_go k pc dog s) = sy_closed s"
  "sy_runs (set_go k pc dog s) = sy_runs s" "sy_mgr (set_go k pc dog s) = sy_mgr s"
  by (simp_all add: set_go_def)

lemma with_mgr_fields [simp]:
  "sy_gos (with_mgr m s) = sy_gos s" "sy_pend (with_mgr m s) = sy_pend s"
  "sy_used (with_mgr m s) = sy_used s" "sy_readers (with_mgr m s) = sy_readers s"
  "sy_closed (with_mgr m s) = sy_closed s" "sy_runs (with_mgr m s) = sy_runs s"
  "sy_mgr (with_mgr m s) = m"
  by (simp_all add: with_mgr_def)

lemma obj_of_with_mgr:
  assumes "gok (um_tasks (sy_mgr s))"
  shows "obj_of (with_mgr m s) j =
    (case gget (um_tasks m) j of Some t \<Rightarrow> Some t | None \<Rightarrow> obj_of s j)"
proof (cases "gget (um_tasks m) j")
  case (Some t)
  then show ?thesis by (simp add: obj_of_def)
next
  case None
  then have "j \<notin> gkeys (um_tasks m)" by (rule gget_None [THEN iffD1])
  then have "gget (filter (\<lambda>e. fst e \<notin> gkeys (um_tasks m)) (um_tasks (sy_mgr s))) j
      = gget (um_tasks (sy_mgr s)) j"
    using filter_get [OF assms, of "\<lambda>k. k \<notin> gkeys (um_tasks m)" j] by simp
  with None show ?thesis
    by (simp add: obj_of_def with_mgr_def map_add_def split: option.split)
qed

lemma with_mgr_sub:
  assumes gok: "gok (um_tasks (sy_mgr s))" and sub: "tasks_sub (sy_mgr s) m"
  shows "obj_of (with_mgr m s) = obj_of s"
proof
  fix j
  have "gget (um_tasks m) j = Some t \<Longrightarrow> obj_of s j = Some t" for t
    using sub by (simp add: tasks_sub_def obj_of_def)
  then show "obj_of (with_mgr m s) j = obj_of s j"
    unfolding obj_of_with_mgr [OF gok] by (cases "gget (um_tasks m) j") simp_all
qed

lemma with_mgr_set:
  assumes gok: "gok (um_tasks (sy_mgr s))" and set: "tasks_set k t (sy_mgr s) m"
  shows "obj_of (with_mgr m s) = (obj_of s)(k \<mapsto> t)"
proof
  fix j
  have "j \<noteq> k \<Longrightarrow> gget (um_tasks m) j = Some x \<Longrightarrow> obj_of s j = Some x" for x
    using set by (simp add: tasks_set_def obj_of_def)
  moreover have "gget (um_tasks m) k = Some t" using set by (simp add: tasks_set_def)
  ultimately show "obj_of (with_mgr m s) j = ((obj_of s)(k \<mapsto> t)) j"
    unfolding obj_of_with_mgr [OF gok] by (cases "gget (um_tasks m) j") auto
qed

text \<open>Which goroutine goes with which state of its task.\<close>

fun go_rel :: "'r goroutine option \<Rightarrow> bool \<Rightarrow> 'r tracked \<Rightarrow> bool" where
  "go_rel None pend t =
     ((tk_state t = Prepared \<or> tk_state t = Cancelled) \<and> tk_reader t = None)"
| "go_rel (Some g) pend t =
     (tk_state t \<noteq> Prepared
      \<and> (tk_state t = Cancelled \<longrightarrow> tk_reader t = None \<or> pend)
      \<and> (go_dog g = Armed \<longrightarrow> go_pc g = Executing)
      \<and> (case go_pc g of
           Spawned xc \<Rightarrow> (tk_state t = Queued \<or> tk_state t = Cancelled) \<and> go_dog g = NoDog
         | Executing \<Rightarrow> tk_state t = Running \<or> tk_state t = Cancelled \<or> tk_timedOut t
         | Returned res err \<Rightarrow> tk_state t = Running \<or> tk_state t = Cancelled \<or> tk_timedOut t
         | Closing \<Rightarrow> terminal (tk_state t)
         | Finished \<Rightarrow> terminal (tk_state t) \<and> (tk_reader t = None \<or> pend)))"

definition obj_inv :: "'r upload_sys \<Rightarrow> bool" where
  "obj_inv s \<longleftrightarrow> um_inv (sy_mgr s)
     \<and> (\<forall>k t. obj_of s k = Some t \<longrightarrow>
          k \<in> set (sy_used s) \<and> task_ok k t \<and> go_rel (gget (sy_gos s) k) (k \<in> set (sy_pend s)) t)
     \<and> (\<forall>k. gget (sy_gos s) k \<noteq> None \<longrightarrow> obj_of s k \<noteq> None)
     \<and> (\<forall>k \<in> set (sy_pend s). \<exists>t. obj_of s k = Some t \<and> tk_state t = Cancelled)
     \<and> gkeys (um_tombs (sy_mgr s)) \<subseteq> set (sy_used s)"

lemma obj_inv_mgr: "obj_inv s \<Longrightarrow> um_inv (sy_mgr s)"
  by (simp add: obj_inv_def)

lemma obj_inv_gok: "obj_inv s \<Longrightarrow> gok (um_tasks (sy_mgr s))"
  by (simp add: obj_inv_def um_inv_def)

lemma obj_inv_obj:
  "obj_inv s \<Longrightarrow> obj_of s k = Some t \<Longrightarrow>
   k \<in> set (sy_used s) \<and> task_ok k t \<and> go_rel (gget (sy_gos s) k) (k \<in> set (sy_pend s)) t"
  by (simp add: obj_inv_def)

lemma obj_of_task: "gget (um_tasks (sy_mgr s)) k = Some t \<Longrightarrow> obj_of s k = Some t"
  by (simp add: obj_of_def)

lemma obj_inv_tasks_used: "obj_inv s \<Longrightarrow> gkeys (um_tasks (sy_mgr s)) \<subseteq> set (sy_used s)"
proof
  fix k assume inv: "obj_inv s" and k: "k \<in> gkeys (um_tasks (sy_mgr s))"
  obtain t where "gget (um_tasks (sy_mgr s)) k = Some t" using gkeys_gget [OF k] ..
  then show "k \<in> set (sy_used s)" using obj_inv_obj [OF inv obj_of_task] by simp
qed

lemma obj_inv_tombs_used:
  assumes "obj_inv s" and "tombs_sub (sy_mgr s) m" and "set (sy_used s) \<subseteq> U"
  shows "gkeys (um_tombs m) \<subseteq> U"
proof -
  have "gkeys (um_tombs (sy_mgr s)) \<subseteq> set (sy_used s)" using assms(1) by (simp add: obj_inv_def)
  with obj_inv_tasks_used [OF assms(1)]
  have "gkeys (um_tombs (sy_mgr s)) \<union> gkeys (um_tasks (sy_mgr s)) \<subseteq> U"
    using assms(3) by (meson Un_least order_trans)
  with assms(2) show ?thesis unfolding tombs_sub_def by (rule order_trans)
qed

lemma obj_invI:
  assumes "um_inv (sy_mgr s)"
    and "\<And>k t. obj_of s k = Some t \<Longrightarrow>
      k \<in> set (sy_used s) \<and> task_ok k t \<and> go_rel (gget (sy_gos s) k) (k \<in> set (sy_pend s)) t"
    and "\<And>k. gget (sy_gos s) k \<noteq> None \<Longrightarrow> obj_of s k \<noteq> None"
    and "\<And>k. k \<in> set (sy_pend s) \<Longrightarrow> \<exists>t. obj_of s k = Some t \<and> tk_state t = Cancelled"
    and "gkeys (um_tombs (sy_mgr s)) \<subseteq> set (sy_used s)"
  shows "obj_inv s"
  unfolding obj_inv_def using assms by blast

lemma obj_inv_go: "obj_inv s \<Longrightarrow> gget (sy_gos s) k \<noteq> None \<Longrightarrow> obj_of s k \<noteq> None"
  unfolding obj_inv_def by blast

lemma obj_inv_pend:
  "obj_inv s \<Longrightarrow> k \<in> set (sy_pend s) \<Longrightarrow> \<exists>t. obj_of s k = Some t \<and> tk_state t = Cancelled"
  unfolding obj_inv_def by blast

lemma set_obj_mgr_inv:
  assumes "obj_inv s" and "task_ok k t"
  shows "um_inv (sy_mgr (set_obj k t s))"
proof (cases "k \<in> gkeys (um_tasks (sy_mgr s))")
  case True
  then have "k \<notin> gkeys (um_tombs (sy_mgr s))"
    using obj_inv_mgr [OF assms(1)] by (auto simp: um_inv_def)
  with um_inv_gset [OF obj_inv_mgr [OF assms(1)] assms(2)] True show ?thesis
    by (simp add: set_obj_def)
next
  case False
  with obj_inv_mgr [OF assms(1)] show ?thesis by (simp add: set_obj_def)
qed

text \<open>Two shapes of step: the objects unchanged, or one object replaced.\<close>

lemma obj_inv_quiet:
  assumes "obj_inv s" and "um_inv (sy_mgr s')" and "obj_of s' = obj_of s"
    and "sy_gos s' = sy_gos s" and "sy_pend s' = sy_pend s" and "set (sy_used s) \<subseteq> set (sy_used s')"
    and "tombs_sub (sy_mgr s) (sy_mgr s')"
  shows "obj_inv s'"
proof (rule obj_invI)
  show "gkeys (um_tombs (sy_mgr s')) \<subseteq> set (sy_used s')"
    by (rule obj_inv_tombs_used [OF assms(1,7,6)])
  show "k \<in> set (sy_used s') \<and> task_ok k t \<and> go_rel (gget (sy_gos s') k) (k \<in> set (sy_pend s')) t"
    if "obj_of s' k = Some t" for k t
    using obj_inv_obj [OF assms(1), of k t] that assms(3-6) by auto
  show "obj_of s' k \<noteq> None" if "gget (sy_gos s') k \<noteq> None" for k
    using that unfolding assms(3,4) by (rule obj_inv_go [OF assms(1)])
  show "\<exists>t. obj_of s' k = Some t \<and> tk_state t = Cancelled" if "k \<in> set (sy_pend s')" for k
    using that unfolding assms(3,5) by (rule obj_inv_pend [OF assms(1)])
qed (rule assms(2))

lemma obj_inv_update:
  assumes "obj_inv s" and "um_inv (sy_mgr s')" and "obj_of s' = (obj_of s)(k \<mapsto> t')"
    and "\<And>j. j \<noteq> k \<Longrightarrow> gget (sy_gos s') j = gget (sy_gos s) j"
    and "\<And>j. j \<noteq> k \<Longrightarrow> j \<in> set (sy_pend s') \<longleftrightarrow> j \<in> set (sy_pend s)"
    and "k \<in> set (sy_pend s') \<Longrightarrow> tk_state t' = Cancelled"
    and "set (sy_used s) \<subseteq> set (sy_used s')" and "k \<in> set (sy_used s')"
    and "task_ok k t'" and "go_rel (gget (sy_gos s') k) (k \<in> set (sy_pend s')) t'"
    and "tombs_sub (sy_mgr s) (sy_mgr s')"
  shows "obj_inv s'"
proof (rule obj_invI)
  show "gkeys (um_tombs (sy_mgr s')) \<subseteq> set (sy_used s')"
    by (rule obj_inv_tombs_used [OF assms(1,11,7)])
  show "j \<in> set (sy_used s') \<and> task_ok j t \<and> go_rel (gget (sy_gos s') j) (j \<in> set (sy_pend s')) t"
    if o: "obj_of s' j = Some t" for j t
  proof (cases "j = k")
    case True
    then have "t = t'" using o assms(3) by simp
    with True assms(8-10) show ?thesis by blast
  next
    case False
    then have "obj_of s j = Some t" using o assms(3) by simp
    note old = obj_inv_obj [OF assms(1) this]
    show ?thesis unfolding assms(4,5) [OF False] using old assms(7) by blast
  qed
  show "obj_of s' j \<noteq> None" if g: "gget (sy_gos s') j \<noteq> None" for j
  proof (cases "j = k")
    case True
    then show ?thesis by (simp add: assms(3))
  next
    case False
    have "gget (sy_gos s) j \<noteq> None" using g unfolding assms(4) [OF False] .
    from obj_inv_go [OF assms(1) this] False show ?thesis by (simp add: assms(3))
  qed
  show "\<exists>t. obj_of s' j = Some t \<and> tk_state t = Cancelled" if p: "j \<in> set (sy_pend s')" for j
  proof (cases "j = k")
    case True
    with p assms(6) show ?thesis by (simp add: assms(3))
  next
    case False
    have "j \<in> set (sy_pend s)" using p unfolding assms(5) [OF False] .
    from obj_inv_pend [OF assms(1) this] False show ?thesis by (simp add: assms(3))
  qed
qed (rule assms(2))

section \<open>The steps preserve the invariant\<close>

lemma closeReader_props:
  assumes "closeReader t = (cl, t')"
  shows "tk_task t' = tk_task t" "tk_timedOut t' = tk_timedOut t"
    "tk_closed t \<longrightarrow> tk_reader t = None \<Longrightarrow> tk_reader t' = None"
    "task_ok k t \<Longrightarrow> tk_state t \<noteq> Prepared \<Longrightarrow> task_ok k t'"
    "cl = (if tk_closed t then [] else case tk_reader t of None \<Rightarrow> [] | Some r \<Rightarrow> [r])"
    "tk_closed t'"
  using assms by (auto simp: closeReader_def task_ok_def split: if_splits upload_state.splits)

lemma close_obj_some:
  assumes "obj_of s k = Some t" and "closeReader t = (cl, t')"
  shows "close_obj k s = (set_obj k t' s)\<lparr>sy_closed := sy_closed s @ cl\<rparr>"
  using assms by (simp add: close_obj_def)

lemma task_ok_closed: "task_ok k t \<Longrightarrow> tk_closed t \<longrightarrow> tk_reader t = None"
  by (simp add: task_ok_def)

lemma obj_inv_Start:
  assumes inv: "obj_inv s" and f: "fire (UStart k now t1 t2 reader sz name wait) s = Some s'"
  shows "obj_inv s'"
proof -
  obtain r cl m where st: "um_Start k now t1 t2 reader sz name wait (sy_mgr s) = ((r, cl), m)"
    by (metis surj_pair)
  have fresh: "k \<notin> set (sy_used s)" using f by (simp split: if_splits)
  note eff = um_Start_effect [OF obj_inv_mgr [OF inv] st]
  have m: "um_inv m" using um_Start_inv [OF obj_inv_mgr [OF inv]] st by (metis snd_conv)
  show ?thesis
  proof (cases r)
    case (Inl err)
    then have s': "s' = (with_mgr m s)\<lparr>sy_used := k # sy_used s, sy_readers := reader # sy_readers s,
        sy_closed := sy_closed s @ cl\<rparr>"
      using f st fresh by (simp split: if_splits)
    show ?thesis
      by (rule obj_inv_quiet [OF inv]) (use eff m Inl in \<open>auto simp: s' with_mgr_sub obj_inv_gok [OF inv]\<close>)
  next
    case (Inr p)
    obtain xc where p: "p = (k, xc)" using eff Inr by (cases p) auto
    obtain nm where set: "tasks_set k (claimed_task t2 (new_task k nm Queued now) reader) (sy_mgr s) m"
      using eff Inr p by auto
    have s': "s' = set_go k (Spawned xc) NoDog ((with_mgr m s)\<lparr>sy_used := k # sy_used s,
        sy_readers := reader # sy_readers s, sy_closed := sy_closed s @ cl\<rparr>)"
      using f st fresh Inr p by (simp split: if_splits)
    have np: "k \<notin> set (sy_pend s)"
      using fresh obj_inv_pend [OF inv] obj_inv_obj [OF inv] by blast
    have ok: "task_ok k (claimed_task t2 (new_task k nm Queued now) reader)"
      using claimed_ok [of "new_task k nm Queued now" t2 reader] by (simp add: new_task_def)
    show ?thesis
      by (rule obj_inv_update [OF inv, where k = k and t' = "claimed_task t2 (new_task k nm Queued now) reader"])
        (use eff m Inr p set np ok in \<open>auto simp: s' with_mgr_set [OF obj_inv_gok [OF inv]] claimed_task_def\<close>)
  qed
qed

lemma obj_inv_Fulfill:
  assumes inv: "obj_inv s" and f: "fire (UFulfill k t1 t2 reader sz name wait) s = Some s'"
  shows "obj_inv s'"
proof -
  obtain r cl m where st: "um_Fulfill k t1 t2 reader sz name wait (sy_mgr s) = ((r, cl), m)"
    by (metis surj_pair)
  note eff = um_Fulfill_effect [OF obj_inv_mgr [OF inv] st]
  have m: "um_inv m" using um_Fulfill_inv [OF obj_inv_mgr [OF inv]] st by (metis snd_conv)
  show ?thesis
  proof (cases r)
    case (Inl err)
    then have s': "s' = (with_mgr m s)\<lparr>sy_readers := reader # sy_readers s, sy_closed := sy_closed s @ cl\<rparr>"
      using f st by (simp split: if_splits)
    show ?thesis
      by (rule obj_inv_quiet [OF inv]) (use eff m Inl in \<open>auto simp: s' with_mgr_sub obj_inv_gok [OF inv]\<close>)
  next
    case (Inr xc)
    obtain tt where tt: "gget (um_tasks (sy_mgr s)) k = Some tt" "tk_state tt = Prepared"
      and set: "tasks_set k (claimed_task t2 (tk_task tt) reader) (sy_mgr s) m"
      using eff Inr by auto
    have s': "s' = set_go k (Spawned xc) NoDog ((with_mgr m s)\<lparr>sy_readers := reader # sy_readers s,
        sy_closed := sy_closed s @ cl\<rparr>)"
      using f st Inr by (simp split: if_splits)
    note old = obj_inv_obj [OF inv obj_of_task [OF tt(1)]]
    have np: "k \<notin> set (sy_pend s)"
      using obj_inv_pend [OF inv, of k] obj_of_task [OF tt(1)] tt(2) by auto
    have ok: "task_ok k (claimed_task t2 (tk_task tt) reader)"
      using claimed_ok [of "tk_task tt" t2 reader] old tt(2) by (simp add: task_ok_def)
    show ?thesis
      by (rule obj_inv_update [OF inv, where k = k and t' = "claimed_task t2 (tk_task tt) reader"])
        (use eff m Inr set np ok old in \<open>auto simp: s' with_mgr_set [OF obj_inv_gok [OF inv]] claimed_task_def\<close>)
  qed
qed

lemma obj_inv_Prepare:
  assumes inv: "obj_inv s" and f: "fire (UPrepare k now t1 name ttl opts) s = Some s'"
  shows "obj_inv s'"
proof -
  obtain r m where st: "um_Prepare k now t1 name ttl opts (sy_mgr s) = (r, m)" by fastforce
  have fresh: "k \<notin> set (sy_used s)" and s': "s' = (with_mgr m s)\<lparr>sy_used := k # sy_used s\<rparr>"
    using f st by (auto split: if_splits)
  note eff = um_Prepare_effect [OF obj_inv_mgr [OF inv] st]
  have nk: "k \<notin> gkeys (um_tasks (sy_mgr s))" "k \<notin> gkeys (um_tombs (sy_mgr s))"
    using fresh obj_inv_tasks_used [OF inv] obj_inv_tombs_used [OF inv tombs_sub_refl order_refl] by blast+
  have m: "um_inv m" using um_Prepare_inv [OF obj_inv_mgr [OF inv] nk] st by (metis snd_conv)
  show ?thesis
  proof (cases r)
    case (Inl err)
    show ?thesis
      by (rule obj_inv_quiet [OF inv]) (use eff m Inl in \<open>auto simp: s' with_mgr_sub obj_inv_gok [OF inv]\<close>)
  next
    case (Inr k')
    obtain nm mode w where set: "tasks_set k (prepared_task k nm now ttl mode w) (sy_mgr s) m"
      using eff Inr by auto
    have no: "obj_of s k = None" using fresh obj_inv_obj [OF inv, of k] by (cases "obj_of s k") auto
    have np: "k \<notin> set (sy_pend s)" using no obj_inv_pend [OF inv, of k] by auto
    have ng: "gget (sy_gos s) k = None" using no obj_inv_go [OF inv, of k] by (cases "gget (sy_gos s) k") simp_all
    show ?thesis
      by (rule obj_inv_update [OF inv, where k = k and t' = "prepared_task k nm now ttl mode w"])
        (use eff m Inr set np ng in \<open>auto simp: s' with_mgr_set [OF obj_inv_gok [OF inv]]
           prepared_task_def new_task_def task_ok_def\<close>)
  qed
qed

lemma obj_inv_Cancel:
  assumes inv: "obj_inv s" and f: "fire (UCancel now k) s = Some s'"
  shows "obj_inv s'"
proof -
  obtain r m where st: "um_Cancel now k (sy_mgr s) = (r, m)" by fastforce
  note eff = um_Cancel_effect [OF st]
  have m: "um_inv m" using um_Cancel_inv [OF obj_inv_mgr [OF inv]] st by (metis snd_conv)
  show ?thesis
  proof (cases r)
    case (Some err)
    then have s': "s' = with_mgr m s" using f st by simp
    show ?thesis
      by (rule obj_inv_quiet [OF inv]) (use eff m Some in \<open>auto simp: s' with_mgr_sub obj_inv_gok [OF inv]\<close>)
  next
    case None
    then have s': "s' = (with_mgr m s)\<lparr>sy_pend := k # sy_pend s\<rparr>" using f st by simp
    obtain t where t: "gget (um_tasks (sy_mgr s)) k = Some t" "tk_state t \<in> {Prepared, Queued, Running}"
      and set: "tasks_set k (cancelled_task now t) (sy_mgr s) m" using eff None by auto
    note old = obj_inv_obj [OF inv obj_of_task [OF t(1)]]
    have ok: "task_ok k (cancelled_task now t)" using old t(2) by (auto simp: task_ok_def cancelled_task_def)
    have rel: "go_rel (gget (sy_gos s) k) True (cancelled_task now t)"
      using old t(2)
      by (cases "gget (sy_gos s) k") (auto simp: cancelled_task_def terminal_def task_ok_def split: go_pc.splits)
    show ?thesis
      by (rule obj_inv_update [OF inv, where k = k and t' = "cancelled_task now t"])
        (use eff m None set ok rel old in \<open>auto simp: s' with_mgr_set [OF obj_inv_gok [OF inv]]
           cancelled_task_def\<close>)
  qed
qed

text \<open>A step of the goroutine, its watchdog or a pending \<open>Cancel\<close>: one object, one goroutine.\<close>

lemma obj_inv_go_step:
  assumes inv: "obj_inv s" and t: "obj_of s k = Some t" and ok: "task_ok k t'"
    and s': "sy_mgr s' = sy_mgr (set_obj k t' s)" "obj_of s' = (obj_of s)(k \<mapsto> t')"
      "sy_used s' = sy_used s"
    and gos: "\<And>j. j \<noteq> k \<Longrightarrow> gget (sy_gos s') j = gget (sy_gos s) j"
    and pend: "\<And>j. j \<noteq> k \<Longrightarrow> j \<in> set (sy_pend s') \<longleftrightarrow> j \<in> set (sy_pend s)"
      "k \<in> set (sy_pend s') \<Longrightarrow> tk_state t' = Cancelled"
    and rel: "go_rel (gget (sy_gos s') k) (k \<in> set (sy_pend s')) t'"
  shows "obj_inv s'"
proof (rule obj_inv_update [OF inv _ s'(2) gos pend])
  show "um_inv (sy_mgr s')" using set_obj_mgr_inv [OF inv ok] by (simp only: s')
  show "tombs_sub (sy_mgr s) (sy_mgr s')" by (simp add: s' tombs_sub_def)
qed (use obj_inv_obj [OF inv t] ok rel s' in simp_all)

lemma set_obj_same: "obj_of s k = Some t \<Longrightarrow> um_inv (sy_mgr s) \<Longrightarrow> task_ok k t \<Longrightarrow>
   obj_of (set_obj k t s) = obj_of s"
  by (simp add: fun_eq_iff)

lemma obj_of_fun_upd: "obj_of (set_obj k t s) = (obj_of s)(k \<mapsto> t)"
  by (simp add: fun_eq_iff)

lemma obj_inv_go_only:
  assumes inv: "obj_inv s" and t: "obj_of s k = Some t"
    and rel: "go_rel (Some \<lparr>go_pc = pc, go_dog = dog\<rparr>) (k \<in> set (sy_pend s)) t"
  shows "obj_inv (set_go k pc dog s)"
proof (rule obj_inv_update [OF inv, where k = k and t' = t])
  show "obj_of (set_go k pc dog s) = (obj_of s)(k \<mapsto> t)" using t by (simp add: fun_upd_idem)
  show "k \<in> set (sy_pend (set_go k pc dog s)) \<Longrightarrow> tk_state t = Cancelled"
    using obj_inv_pend [OF inv, of k] t by auto
qed (use inv obj_inv_obj [OF inv t] rel in \<open>simp_all add: obj_inv_mgr\<close>)

lemma obj_inv_close:
  assumes inv: "obj_inv s" and t: "obj_of s k = Some t" "tk_state t \<noteq> Prepared"
    and gos: "\<And>j. j \<noteq> k \<Longrightarrow> gget (sy_gos s1) j = gget (sy_gos s) j"
    and s1: "sy_mgr s1 = sy_mgr s" "sy_orphans s1 = sy_orphans s" "sy_used s1 = sy_used s"
    and pend: "\<And>j. j \<noteq> k \<Longrightarrow> j \<in> set (sy_pend s1) \<longleftrightarrow> j \<in> set (sy_pend s)"
      "k \<in> set (sy_pend s1) \<Longrightarrow> k \<in> set (sy_pend s)"
    and rel: "\<And>t'. tk_task t' = tk_task t \<Longrightarrow> tk_timedOut t' = tk_timedOut t \<Longrightarrow> tk_reader t' = None \<Longrightarrow>
      go_rel (gget (sy_gos s1) k) (k \<in> set (sy_pend s1)) t'"
  shows "obj_inv (close_obj k s1)"
proof -
  obtain cl t' where c: "closeReader t = (cl, t')" by fastforce
  note old = obj_inv_obj [OF inv t(1)]
  note cp = closeReader_props [OF c]
  have o1: "obj_of s1 = obj_of s" by (simp add: fun_eq_iff obj_of_def s1 split: option.split)
  have cs: "close_obj k s1 = (set_obj k t' s1)\<lparr>sy_closed := sy_closed s1 @ cl\<rparr>"
    using close_obj_some [of s1 k t cl t'] t(1) c o1 by simp
  have ok: "task_ok k t'" using cp(4) old t(2) by blast
  have none: "tk_reader t' = None" using cp(3) task_ok_closed old by blast
  show ?thesis
  proof (rule obj_inv_go_step [OF inv t(1) ok])
    show "sy_mgr (close_obj k s1) = sy_mgr (set_obj k t' s)" by (simp add: cs set_obj_def s1)
    show "obj_of (close_obj k s1) = (obj_of s)(k \<mapsto> t')" by (simp add: cs obj_of_fun_upd o1)
    show "k \<in> set (sy_pend (close_obj k s1)) \<Longrightarrow> tk_state t' = Cancelled"
      using obj_inv_pend [OF inv, of k] pend(2) t(1) cp(1) by (auto simp: cs)
    show "go_rel (gget (sy_gos (close_obj k s1)) k) (k \<in> set (sy_pend (close_obj k s1))) t'"
      using rel [OF cp(1,2) none] by (simp add: cs)
  qed (use gos pend s1 in \<open>simp_all add: cs\<close>)
qed

lemma obj_inv_CancelClose:
  assumes inv: "obj_inv s" and f: "fire (UCancelClose k) s = Some s'"
  shows "obj_inv s'"
proof -
  have p: "k \<in> set (sy_pend s)" and s': "s' = close_obj k (s\<lparr>sy_pend := filter (\<lambda>j. j \<noteq> k) (sy_pend s)\<rparr>)"
    using f by (auto split: if_splits)
  obtain t where t: "obj_of s k = Some t" "tk_state t = Cancelled" using obj_inv_pend [OF inv p] by blast
  note old = obj_inv_obj [OF inv t(1)]
  have rel: "go_rel (gget (sy_gos s) k) False t'"
    if "tk_task t' = tk_task t" "tk_timedOut t' = tk_timedOut t" "tk_reader t' = None" for t' :: "'a tracked"
    using old that t(2) by (cases "gget (sy_gos s) k") (auto split: go_pc.splits)
  show ?thesis unfolding s'
    by (rule obj_inv_close [OF inv t(1)]) (use t(2) rel in auto)
qed

lemma obj_inv_GBegin:
  assumes inv: "obj_inv s" and f: "fire (GBegin now k) s = Some s'"
  shows "obj_inv s'"
proof -
  obtain g t xc where g: "gget (sy_gos s) k = Some g" "go_pc g = Spawned xc" and t: "obj_of s k = Some t"
    using f by (auto split: option.splits go_pc.splits)
  note old = obj_inv_obj [OF inv t]
  show ?thesis
  proof (cases "tk_state t = Queued")
    case False
    then have s': "s' = set_go k Finished (go_dog g) s" using f g t by (simp add: run_begin_def)
    show ?thesis unfolding s'
      by (rule obj_inv_go_only [OF inv t]) (use old g False in \<open>auto simp: terminal_def\<close>)
  next
    case True
    define t' where "t' = t\<lparr>tk_task := (tk_task t)\<lparr>ut_started := Some now, ut_state := Running\<rparr>\<rparr>"
    have s': "s' = (set_go k Executing Armed (set_obj k t' s))\<lparr>sy_runs := sy_runs s @ [(k, xc)]\<rparr>"
      using f g t True by (simp add: run_begin_def t'_def)
    have ok: "task_ok k t'" using old True by (simp add: task_ok_def t'_def)
    have np: "k \<notin> set (sy_pend s)" using obj_inv_pend [OF inv, of k] t True by auto
    show ?thesis
      by (rule obj_inv_go_step [OF inv t ok])
        (use old g True np in \<open>auto simp: s' obj_of_fun_upd t'_def\<close>)
  qed
qed

lemma obj_inv_GReturn:
  assumes inv: "obj_inv s" and f: "fire (GReturn res err k) s = Some s'"
  shows "obj_inv s'"
proof -
  obtain g where g: "gget (sy_gos s) k = Some g" "go_pc g = Executing"
    using f by (auto split: option.splits go_pc.splits)
  obtain t where t: "obj_of s k = Some t" using obj_inv_go [OF inv, of k] g by auto
  note old = obj_inv_obj [OF inv t]
  show ?thesis
  proof (cases "go_dog g = Armed")
    case True
    then have s': "s' = set_go k (Returned res err) Disarmed s" using f g by simp
    show ?thesis unfolding s' by (rule obj_inv_go_only [OF inv t]) (use old g in auto)
  next
    case False
    then have s': "s' = close_obj k (set_go k (Returned res err) (go_dog g) s)" using f g by simp
    show ?thesis unfolding s'
      by (rule obj_inv_close [OF inv t]) (use old g False in auto)
  qed
qed

lemma complete_ok:
  assumes "task_ok k t" and "tk_state t = Running \<or> tk_state t = Cancelled \<or> tk_timedOut t"
  shows "task_ok k (complete now res err t) \<and> terminal (tk_state (complete now res err t))
    \<and> tk_reader (complete now res err t) = tk_reader t
    \<and> (tk_state (complete now res err t) = Cancelled \<longleftrightarrow> tk_state t = Cancelled)"
proof (cases "tk_state t = Cancelled \<or> tk_timedOut t")
  case True
  then have "complete now res err t = t" by (simp add: complete_def)
  with True assms show ?thesis by (auto simp: task_ok_def terminal_def split: upload_state.splits)
next
  case False
  with assms have "tk_state t = Running" by blast
  with False assms(1) show ?thesis
    by (auto simp: complete_def Let_def task_ok_def terminal_def split: option.split exec_error.split)
qed

lemma obj_inv_GComplete:
  assumes inv: "obj_inv s" and f: "fire (GComplete now k) s = Some s'"
  shows "obj_inv s'"
proof -
  obtain g t res err where g: "gget (sy_gos s) k = Some g" "go_pc g = Returned res err" and t: "obj_of s k = Some t"
    using f by (auto split: option.splits go_pc.splits)
  note old = obj_inv_obj [OF inv t]
  have s': "s' = set_go k Closing (go_dog g) (set_obj k (complete now res err t) s)" using f g t by simp
  have c: "tk_state t = Running \<or> tk_state t = Cancelled \<or> tk_timedOut t" using old g by simp
  have ok: "task_ok k t" using old by blast
  note cok = complete_ok [OF ok c, of now res err]
  have p: "k \<in> set (sy_pend s) \<Longrightarrow> tk_state t = Cancelled" using obj_inv_pend [OF inv, of k] t by auto
  show ?thesis
    by (rule obj_inv_go_step [OF inv t, of "complete now res err t"])
      (use old g cok p in \<open>auto simp: s' obj_of_fun_upd terminal_def\<close>)
qed

lemma obj_inv_GClose:
  assumes inv: "obj_inv s" and f: "fire (GClose k) s = Some s'"
  shows "obj_inv s'"
proof -
  obtain g where g: "gget (sy_gos s) k = Some g" "go_pc g = Closing"
    using f by (auto split: option.splits go_pc.splits)
  obtain t where t: "obj_of s k = Some t" using obj_inv_go [OF inv, of k] g by auto
  note old = obj_inv_obj [OF inv t]
  have s': "s' = close_obj k (set_go k Finished (go_dog g) s)" using f g by simp
  show ?thesis unfolding s'
    by (rule obj_inv_close [OF inv t]) (use old g in \<open>auto simp: terminal_def\<close>)
qed

lemma obj_inv_WClose:
  assumes inv: "obj_inv s" and f: "fire (WClose k) s = Some s'"
  shows "obj_inv s'"
proof -
  obtain g where g: "gget (sy_gos s) k = Some g" "go_dog g = Armed"
    using f by (auto split: option.splits if_splits)
  obtain t where t: "obj_of s k = Some t" using obj_inv_go [OF inv, of k] g by auto
  note old = obj_inv_obj [OF inv t]
  have pc: "go_pc g = Executing" using old g by simp
  have s': "s' = close_obj k (set_go k Executing Fired s)" using f g pc by simp
  show ?thesis unfolding s'
    by (rule obj_inv_close [OF inv t]) (use old g pc in auto)
qed

lemma obj_inv_WFail:
  assumes inv: "obj_inv s" and f: "fire (WFail now k) s = Some s'"
  shows "obj_inv s'"
proof -
  obtain g t where g: "gget (sy_gos s) k = Some g" "go_dog g = Fired" and t: "obj_of s k = Some t"
    using f by (auto split: option.splits if_splits)
  note old = obj_inv_obj [OF inv t]
  have s': "s' = set_go k (go_pc g) DogDone (set_obj k (watchdog_fail now t) s)" using f g t by simp
  have ok: "task_ok k (watchdog_fail now t)"
    using old by (auto simp: watchdog_fail_def task_ok_def)
  have p: "k \<in> set (sy_pend s) \<Longrightarrow> tk_state t = Cancelled" using obj_inv_pend [OF inv, of k] t by auto
  have st: "tk_state (watchdog_fail now t) = (if in_flight t then Failed else tk_state t)"
    and rd: "tk_reader (watchdog_fail now t) = tk_reader t"
    and tm: "tk_timedOut (watchdog_fail now t) = (tk_timedOut t \<or> in_flight t)"
    using old by (auto simp: watchdog_fail_def task_ok_def)
  have rel: "go_rel (Some \<lparr>go_pc = go_pc g, go_dog = DogDone\<rparr>) (k \<in> set (sy_pend s)) (watchdog_fail now t)"
    using old g by (auto simp: st rd tm terminal_def split: go_pc.splits)
  show ?thesis
    by (rule obj_inv_go_step [OF inv t ok]) (use rel p in \<open>auto simp: s' obj_of_fun_upd st\<close>)
qed

lemma obj_inv_Get: "obj_inv s \<Longrightarrow> fire (UGet now k) s = Some s' \<Longrightarrow> obj_inv s'"
  by (rule obj_inv_quiet [where s = s])
    (auto simp: um_Get_def Let_def um_prune_inv obj_inv_mgr with_mgr_sub obj_inv_gok um_prune_sub
      um_prune_tombs_sub)

lemma obj_inv_List: "obj_inv s \<Longrightarrow> fire (UList now) s = Some s' \<Longrightarrow> obj_inv s'"
  by (rule obj_inv_quiet [where s = s])
    (auto simp: um_List_def Let_def um_prune_inv obj_inv_mgr with_mgr_sub obj_inv_gok um_prune_sub
      um_prune_tombs_sub)

lemma obj_inv_fire: "obj_inv s \<Longrightarrow> fire ev s = Some s' \<Longrightarrow> obj_inv s'"
  by (cases ev)
    (blast intro: obj_inv_Start obj_inv_Prepare obj_inv_Fulfill obj_inv_Get obj_inv_List obj_inv_Cancel
      obj_inv_CancelClose obj_inv_GBegin obj_inv_GReturn obj_inv_GComplete obj_inv_GClose
      obj_inv_WClose obj_inv_WFail)+

lemma obj_inv_init: "um_inv m \<Longrightarrow> um_tasks m = [] \<Longrightarrow> um_tombs m = [] \<Longrightarrow> obj_inv (init_sys m)"
  by (simp add: obj_inv_def init_sys_def obj_of_def)

end
