(* ===== verification/UploadProps.thy ===== *)
theory UploadProps
  imports UploadSystem
begin

text \<open>
  What holds of the upload system in every reachable state and along every run: outcomes are
  final, a handle is executed at most once, no reader is closed twice or leaked, and the
  two caps are respected.
\<close>

section \<open>Runs\<close>

text \<open>A run from a state; \<open>None\<close> when one of the events cannot happen.\<close>

fun run_events :: "'r uevent list \<Rightarrow> 'r upload_sys \<Rightarrow> 'r upload_sys option" where
  "run_events [] s = Some s"
| "run_events (ev # evs) s = (case fire ev s of None \<Rightarrow> None | Some s' \<Rightarrow> run_events evs s')"

definition empty_manager :: "'r manager \<Rightarrow> bool" where
  "empty_manager m \<longleftrightarrow> um_tasks m = [] \<and> um_tombs m = [] \<and> um_order m = []"

lemma empty_manager_inv: "empty_manager m \<Longrightarrow> um_inv m"
  by (simp add: empty_manager_def um_inv_def fifo_inv_def)

lemma empty_manager_new: "empty_manager (NewUploadTaskManager has_exec ttl)"
  by (simp add: empty_manager_def NewUploadTaskManager_def)

lemma ureach_inv: "ureach m s \<Longrightarrow> empty_manager m \<Longrightarrow> obj_inv s"
proof (induction rule: ureach.induct)
  case ureach_init
  then show ?case using empty_manager_inv obj_inv_init by (auto simp: empty_manager_def)
next
  case (ureach_step s ev s')
  then show ?case using obj_inv_fire by (auto elim: ustepE)
qed

lemma ureach_run: "run_events evs s = Some s' \<Longrightarrow> ureach m s \<Longrightarrow> ureach m s'"
  by (induction evs s rule: run_events.induct)
    (auto split: option.splits intro: ureach_step ustepI)

section \<open>What a step does to the tasks\<close>

definition obj_change :: "'r tracked option \<Rightarrow> 'r tracked \<Rightarrow> bool" where
  "obj_change old t' \<longleftrightarrow> (case old of
     None \<Rightarrow> True
   | Some t \<Rightarrow> (terminal (tk_state t) \<longrightarrow> tk_task t' = tk_task t)
       \<and> (in_flight t' \<longrightarrow> in_flight t \<or> tk_state t = Prepared))"

definition objs_step :: "'r upload_sys \<Rightarrow> 'r upload_sys \<Rightarrow> bool" where
  "objs_step s s' \<longleftrightarrow> obj_of s' = obj_of s
     \<or> (\<exists>k t'. obj_of s' = (obj_of s)(k \<mapsto> t') \<and> obj_change (obj_of s k) t'
          \<and> (\<forall>t. obj_of s k = Some t \<longrightarrow> tk_state t = Prepared \<longrightarrow> gget (um_tasks (sy_mgr s')) k = Some t'))"

lemma objs_step_same: "obj_of s' = obj_of s \<Longrightarrow> objs_step s s'"
  by (simp add: objs_step_def)

lemma objs_step_upd:
  "obj_of s' = (obj_of s)(k \<mapsto> t') \<Longrightarrow> obj_change (obj_of s k) t' \<Longrightarrow>
   (\<And>t. obj_of s k = Some t \<Longrightarrow> tk_state t = Prepared \<Longrightarrow> gget (um_tasks (sy_mgr s')) k = Some t') \<Longrightarrow>
   objs_step s s'"
  unfolding objs_step_def by blast

lemma close_obj_objs:
  assumes "\<And>t. obj_of s k = Some t \<Longrightarrow> tk_state t \<noteq> Prepared"
  shows "objs_step s (close_obj k s)"
proof (cases "obj_of s k")
  case None
  then show ?thesis by (simp add: objs_step_def close_obj_def)
next
  case (Some t)
  obtain cl t' where c: "closeReader t = (cl, t')" by fastforce
  show ?thesis
    by (rule objs_step_upd [where k = k and t' = t'])
      (use c closeReader_props(1) [OF c] Some assms [OF Some] in
        \<open>simp_all add: close_obj_some [OF Some c] obj_of_fun_upd obj_change_def\<close>)
qed

lemma objs_step_cong: "obj_of s1 = obj_of s \<Longrightarrow> objs_step s1 s' \<Longrightarrow> objs_step s s'"
  by (simp add: objs_step_def)

text \<open>A task with a goroutine is not a prepared one.\<close>

lemma goroutine_not_prepared:
  "obj_inv s \<Longrightarrow> gget (sy_gos s) k = Some g \<Longrightarrow> obj_of s k = Some t \<Longrightarrow> tk_state t \<noteq> Prepared"
  using obj_inv_obj [of s k t] by auto

lemma close_go_objs:
  assumes "obj_inv s" and "gget (sy_gos s) k = Some g"
  shows "objs_step s (close_obj k (set_go k pc dog s))"
  using goroutine_not_prepared [OF assms]
  by (intro objs_step_cong [OF set_go_fields(2) close_obj_objs]) simp

lemma fire_objs:
  assumes inv: "obj_inv s" and f: "fire ev s = Some s'"
  shows "objs_step s s'"
proof (cases ev)
  case (UStart k now t1 t2 reader sz name wait)
  obtain r cl m where st: "um_Start k now t1 t2 reader sz name wait (sy_mgr s) = ((r, cl), m)"
    by (metis surj_pair)
  note eff = um_Start_effect [OF obj_inv_mgr [OF inv] st]
  have fresh: "k \<notin> set (sy_used s)" using f UStart by (simp split: if_splits)
  then have none: "obj_of s k = None" using obj_inv_obj [OF inv, of k] by (cases "obj_of s k") auto
  show ?thesis
  proof (cases r)
    case (Inl err)
    then show ?thesis using f st UStart eff
      by (intro objs_step_same) (auto simp: with_mgr_sub obj_inv_gok [OF inv] split: if_splits)
  next
    case (Inr p)
    then obtain xc nm where "p = (k, xc)"
      "tasks_set k (claimed_task t2 (new_task k nm Queued now) reader) (sy_mgr s) m"
      using eff by (cases p) auto
    then show ?thesis using f st UStart Inr none
      by (intro objs_step_upd [of s' s k "claimed_task t2 (new_task k nm Queued now) reader"])
        (auto simp: with_mgr_set obj_inv_gok [OF inv] obj_change_def split: if_splits)
  qed
next
  case (UPrepare k now t1 name ttl opts)
  obtain r m where st: "um_Prepare k now t1 name ttl opts (sy_mgr s) = (r, m)" by fastforce
  note eff = um_Prepare_effect [OF obj_inv_mgr [OF inv] st]
  have fresh: "k \<notin> set (sy_used s)" using f UPrepare by (simp split: if_splits)
  then have none: "obj_of s k = None" using obj_inv_obj [OF inv, of k] by (cases "obj_of s k") auto
  show ?thesis
  proof (cases r)
    case (Inl err)
    then show ?thesis using f st UPrepare eff
      by (intro objs_step_same) (auto simp: with_mgr_sub obj_inv_gok [OF inv] split: if_splits)
  next
    case (Inr k')
    then obtain nm mode w where "tasks_set k (prepared_task k nm now ttl mode w) (sy_mgr s) m"
      using eff by auto
    then show ?thesis using f st UPrepare none
      by (intro objs_step_upd [of s' s k "prepared_task k nm now ttl mode w"])
        (auto simp: with_mgr_set obj_inv_gok [OF inv] obj_change_def split: if_splits)
  qed
next
  case (UFulfill k t1 t2 reader sz name wait)
  obtain r cl m where st: "um_Fulfill k t1 t2 reader sz name wait (sy_mgr s) = ((r, cl), m)"
    by (metis surj_pair)
  note eff = um_Fulfill_effect [OF obj_inv_mgr [OF inv] st]
  show ?thesis
  proof (cases r)
    case (Inl err)
    then show ?thesis using f st UFulfill eff
      by (intro objs_step_same) (auto simp: with_mgr_sub obj_inv_gok [OF inv] split: if_splits)
  next
    case (Inr xc)
    then obtain tt where tt: "gget (um_tasks (sy_mgr s)) k = Some tt" "tk_state tt = Prepared"
      and set: "tasks_set k (claimed_task t2 (tk_task tt) reader) (sy_mgr s) m" using eff by auto
    show ?thesis using f st UFulfill Inr set obj_of_task [OF tt(1)] tt(2)
      by (intro objs_step_upd [of s' s k "claimed_task t2 (tk_task tt) reader"])
        (auto simp: with_mgr_set obj_inv_gok [OF inv] obj_change_def terminal_def tasks_set_def split: if_splits)
  qed
next
  case (UGet now k)
  then show ?thesis using f
    by (intro objs_step_same)
      (auto simp: um_Get_def Let_def with_mgr_sub obj_inv_gok [OF inv] um_prune_sub obj_inv_mgr [OF inv])
next
  case (UList now)
  then show ?thesis using f
    by (intro objs_step_same)
      (auto simp: um_List_def Let_def with_mgr_sub obj_inv_gok [OF inv] um_prune_sub obj_inv_mgr [OF inv])
next
  case (UCancel now k)
  obtain r m where st: "um_Cancel now k (sy_mgr s) = (r, m)" by fastforce
  note eff = um_Cancel_effect [OF st]
  show ?thesis
  proof (cases r)
    case (Some err)
    then show ?thesis using f st UCancel eff
      by (intro objs_step_same) (auto simp: with_mgr_sub obj_inv_gok [OF inv])
  next
    case None
    then obtain t where t: "gget (um_tasks (sy_mgr s)) k = Some t" "tk_state t \<in> {Prepared, Queued, Running}"
      and set: "tasks_set k (cancelled_task now t) (sy_mgr s) m" using eff by auto
    show ?thesis using f st UCancel None set obj_of_task [OF t(1)] t(2)
      by (intro objs_step_upd [of s' s k "cancelled_task now t"])
        (auto simp: with_mgr_set obj_inv_gok [OF inv] obj_change_def terminal_def cancelled_task_def
          tasks_set_def)
  qed
next
  case (UCancelClose k)
  then have s': "s' = close_obj k (s\<lparr>sy_pend := filter (\<lambda>j. j \<noteq> k) (sy_pend s)\<rparr>)"
    and p: "k \<in> set (sy_pend s)"
    using f by (auto split: if_splits)
  have "tk_state t \<noteq> Prepared" if "obj_of s k = Some t" for t
    using obj_inv_pend [OF inv p] that by auto
  then show ?thesis unfolding s'
    by (intro objs_step_cong [OF obj_of_ext(2) close_obj_objs]) simp
next
  case (GBegin now k)
  then obtain g t xc where g: "gget (sy_gos s) k = Some g" "go_pc g = Spawned xc" and t: "obj_of s k = Some t"
    using f by (auto split: option.splits go_pc.splits)
  show ?thesis
  proof (cases "tk_state t = Queued")
    case False
    then show ?thesis using f g t GBegin by (intro objs_step_same) (auto simp: run_begin_def)
  next
    case True
    then show ?thesis using f g t GBegin
      by (intro objs_step_upd [of s' s k "t\<lparr>tk_task := (tk_task t)\<lparr>ut_started := Some now, ut_state := Running\<rparr>\<rparr>"])
        (auto simp: run_begin_def obj_of_fun_upd obj_change_def terminal_def)
  qed
next
  case (GReturn res err k)
  then obtain g where g: "gget (sy_gos s) k = Some g" "go_pc g = Executing"
    using f by (auto split: option.splits go_pc.splits)
  have "s' = set_go k (Returned res err) Disarmed s
      \<or> s' = close_obj k (set_go k (Returned res err) (go_dog g) s)"
    using f g GReturn by (cases "go_dog g = Armed") simp_all
  then show ?thesis
    using close_go_objs [OF inv g(1)] objs_step_same [OF set_go_fields(2)] by blast
next
  case (GComplete now k)
  then obtain g t res err where g: "gget (sy_gos s) k = Some g" "go_pc g = Returned res err"
    and t: "obj_of s k = Some t"
    using f by (auto split: option.splits go_pc.splits)
  have c: "tk_state t = Running \<or> tk_state t = Cancelled \<or> tk_timedOut t"
    using obj_inv_obj [OF inv t] g by simp
  have "terminal (tk_state t) \<Longrightarrow> complete now res err t = t" using c
    by (auto simp: complete_def terminal_def)
  moreover have "terminal (tk_state (complete now res err t))"
    using complete_ok [OF _ c] obj_inv_obj [OF inv t] by blast
  ultimately show ?thesis using f g t GComplete goroutine_not_prepared [OF inv g(1) t]
    by (intro objs_step_upd [of s' s k "complete now res err t"])
      (auto simp: obj_of_fun_upd obj_change_def terminal_def)
next
  case (GClose k)
  then show ?thesis using f close_go_objs [OF inv]
    by (auto split: option.splits go_pc.splits)
next
  case (WClose k)
  then show ?thesis using f close_go_objs [OF inv]
    by (auto split: option.splits if_splits)
next
  case (WFail now k)
  then obtain g t where g: "gget (sy_gos s) k = Some g" "go_dog g = Fired" and t: "obj_of s k = Some t"
    using f by (auto split: option.splits if_splits)
  show ?thesis using f g t WFail goroutine_not_prepared [OF inv g(1) t]
    by (intro objs_step_upd [of s' s k "watchdog_fail now t"])
      (auto simp: obj_of_fun_upd obj_change_def terminal_def watchdog_fail_def)
qed

lemma fire_terminal:
  assumes "obj_inv s" and "fire ev s = Some s'" and "obj_of s k = Some t" and "terminal (tk_state t)"
  shows "\<exists>t'. obj_of s' k = Some t' \<and> tk_task t' = tk_task t"
  using fire_objs [OF assms(1,2)] assms(3,4)
  by (auto simp: objs_step_def obj_change_def)

lemma run_terminal:
  "obj_inv s \<Longrightarrow> run_events evs s = Some s' \<Longrightarrow> obj_of s k = Some t \<Longrightarrow> terminal (tk_state t) \<Longrightarrow>
   \<exists>t'. obj_of s' k = Some t' \<and> tk_task t' = tk_task t"
proof (induction evs arbitrary: s t)
  case Nil
  then show ?case by simp
next
  case (Cons ev evs)
  obtain s1 where s1: "fire ev s = Some s1" "run_events evs s1 = Some s'"
    using Cons.prems(2) by (auto split: option.splits)
  obtain t1 where t1: "obj_of s1 k = Some t1" "tk_task t1 = tk_task t"
    using fire_terminal [OF Cons.prems(1) s1(1) Cons.prems(3,4)] by blast
  have "terminal (tk_state t1)" using t1(2) Cons.prems(4) by simp
  from Cons.IH [OF obj_inv_fire [OF Cons.prems(1) s1(1)] s1(2) t1(1) this] t1(2) show ?case by simp
qed

section \<open>Executions\<close>

definition runs_inv :: "'r upload_sys \<Rightarrow> bool" where
  "runs_inv s \<longleftrightarrow> distinct (map fst (sy_runs s))
     \<and> (\<forall>k \<in> fst ` set (sy_runs s). \<exists>g. gget (sy_gos s) k = Some g \<and> (\<forall>xc. go_pc g \<noteq> Spawned xc))"

text \<open>A goroutine that is past its start stays past it.\<close>

definition gos_advance :: "'r upload_sys \<Rightarrow> 'r upload_sys \<Rightarrow> bool" where
  "gos_advance s s' \<longleftrightarrow> (\<forall>k g. gget (sy_gos s) k = Some g \<longrightarrow> (\<forall>xc. go_pc g \<noteq> Spawned xc) \<longrightarrow>
     (\<exists>g'. gget (sy_gos s') k = Some g' \<and> (\<forall>xc. go_pc g' \<noteq> Spawned xc)))"

lemma gos_advance_same: "sy_gos s' = sy_gos s \<Longrightarrow> gos_advance s s'"
  by (simp add: gos_advance_def)

lemma gos_advance_set:
  "sy_gos s' = gset k \<lparr>go_pc = pc, go_dog = dog\<rparr> (sy_gos s) \<Longrightarrow>
   gget (sy_gos s) k = None \<or> (\<forall>xc. pc \<noteq> Spawned xc) \<Longrightarrow> gos_advance s s'"
  by (auto simp: gos_advance_def)

lemma close_obj_fields [simp]:
  "sy_gos (close_obj k s) = sy_gos s" "sy_pend (close_obj k s) = sy_pend s"
  "sy_used (close_obj k s) = sy_used s" "sy_readers (close_obj k s) = sy_readers s"
  "sy_runs (close_obj k s) = sy_runs s"
  by (simp_all add: close_obj_def split: option.split prod.split)

lemma no_goroutine_fresh: "obj_inv s \<Longrightarrow> k \<notin> set (sy_used s) \<Longrightarrow> gget (sy_gos s) k = None"
  using obj_inv_go [of s k] obj_inv_obj [of s k]
  by (cases "gget (sy_gos s) k"; cases "obj_of s k") simp_all

lemma no_goroutine_prepared:
  "obj_inv s \<Longrightarrow> obj_of s k = Some t \<Longrightarrow> tk_state t = Prepared \<Longrightarrow> gget (sy_gos s) k = None"
  using obj_inv_obj [of s k t] by (cases "gget (sy_gos s) k") auto

lemma fulfill_inr_fresh:
  assumes "obj_inv s" and "um_Fulfill k t1 t2 reader sz name wait (sy_mgr s) = ((Inr xc, cl), m)"
  shows "gget (sy_gos s) k = None"
  using um_Fulfill_effect [OF obj_inv_mgr [OF assms(1)] assms(2)] no_goroutine_prepared [OF assms(1) obj_of_task]
  by auto

text \<open>What a step does to the goroutines and to the list of executions.\<close>

lemma fire_runs:
  assumes inv: "obj_inv s" and f: "fire ev s = Some s'"
  shows "gos_advance s s' \<and> (sy_runs s' = sy_runs s
     \<or> (\<exists>k xc g dog. sy_runs s' = sy_runs s @ [(k, xc)] \<and> gget (sy_gos s) k = Some g \<and> go_pc g = Spawned xc
          \<and> sy_gos s' = gset k \<lparr>go_pc = Executing, go_dog = dog\<rparr> (sy_gos s)))"
proof (cases ev)
  case (UStart k now t1 t2 reader sz name wait)
  then have fresh: "k \<notin> set (sy_used s)" using f by (simp split: if_splits)
  have eff: "um_Start k now t1 t2 reader sz name wait (sy_mgr s) = ((Inr (k', xc), cl), m) \<Longrightarrow> k' = k" for k' xc cl m
    using um_Start_effect [OF obj_inv_mgr [OF inv]] by fastforce
  show ?thesis
    using f UStart eff no_goroutine_fresh [OF inv fresh]
    by (auto split: if_splits prod.splits sum.splits intro: gos_advance_same gos_advance_set)
next
  case (UFulfill k t1 t2 reader sz name wait)
  then show ?thesis
    using f fulfill_inr_fresh [OF inv, of k t1 t2 reader sz name wait]
    by (auto split: if_splits prod.splits sum.splits intro: gos_advance_same gos_advance_set)
next
  case (GBegin now k)
  then obtain g t xc where g: "gget (sy_gos s) k = Some g" "go_pc g = Spawned xc" and t: "obj_of s k = Some t"
    using f by (auto split: option.splits go_pc.splits)
  show ?thesis using f g t GBegin
    by (cases "tk_state t = Queued") (auto simp: run_begin_def intro: gos_advance_set)
next
  case (WClose k)
  then obtain g where g: "gget (sy_gos s) k = Some g" "go_dog g = Armed"
    using f by (auto split: option.splits if_splits)
  obtain t where t: "obj_of s k = Some t" using obj_inv_go [OF inv, of k] g by auto
  have "go_pc g = Executing" using obj_inv_obj [OF inv t] g by simp
  then show ?thesis using f g WClose by (auto intro: gos_advance_set)
next
  case (WFail now k)
  then obtain g t where g: "gget (sy_gos s) k = Some g" "go_dog g = Fired" and t: "obj_of s k = Some t"
    using f by (auto split: option.splits if_splits)
  have "\<forall>xc. go_pc g \<noteq> Spawned xc" using obj_inv_obj [OF inv t] g by (auto split: go_pc.splits)
  then show ?thesis using f g t WFail by (auto intro: gos_advance_set)
qed (use f in \<open>auto split: if_splits option.splits prod.splits go_pc.splits
       intro: gos_advance_same gos_advance_set\<close>)

lemma runs_inv_fire:
  assumes "obj_inv s" and "runs_inv s" and f: "fire ev s = Some s'"
  shows "runs_inv s'"
proof -
  have adv: "gos_advance s s'" using fire_runs [OF assms(1) f] by blast
  have keep: "\<exists>g. gget (sy_gos s') k = Some g \<and> (\<forall>xc. go_pc g \<noteq> Spawned xc)"
    if k: "k \<in> fst ` set (sy_runs s)" for k
    using assms(2) adv k unfolding runs_inv_def gos_advance_def by blast
  show ?thesis
  proof (cases "sy_runs s' = sy_runs s")
    case True
    with keep assms(2) show ?thesis by (simp add: runs_inv_def)
  next
    case False
    then obtain k xc g dog where r: "sy_runs s' = sy_runs s @ [(k, xc)]" "gget (sy_gos s) k = Some g"
        "go_pc g = Spawned xc" "sy_gos s' = gset k \<lparr>go_pc = Executing, go_dog = dog\<rparr> (sy_gos s)"
      using fire_runs [OF assms(1) f] by blast
    have "k \<notin> fst ` set (sy_runs s)" using assms(2) r(2,3) unfolding runs_inv_def by fastforce
    moreover have "\<exists>g. gget (sy_gos s') k = Some g \<and> (\<forall>xc. go_pc g \<noteq> Spawned xc)" using r(4) by simp
    ultimately show ?thesis using assms(2) keep by (auto simp: runs_inv_def r(1))
  qed
qed

section \<open>Readers\<close>

text \<open>
  Every reader handed in is closed, exactly once, or still held by exactly one task; a task
  holds at most one.
\<close>

definition readers_inv :: "'r upload_sys \<Rightarrow> bool" where
  "readers_inv s \<longleftrightarrow> distinct (sy_closed s) \<and> set (sy_closed s) \<subseteq> set (sy_readers s)
     \<and> (\<forall>k t r. obj_of s k = Some t \<longrightarrow> tk_reader t = Some r \<longrightarrow>
          r \<in> set (sy_readers s) \<and> r \<notin> set (sy_closed s)
          \<and> (\<forall>j u. obj_of s j = Some u \<longrightarrow> tk_reader u = Some r \<longrightarrow> j = k))
     \<and> (\<forall>r \<in> set (sy_readers s). r \<in> set (sy_closed s) \<or> (\<exists>k t. obj_of s k = Some t \<and> tk_reader t = Some r))"

text \<open>The reader an object holds, as one function.\<close>

definition holds :: "'r upload_sys \<Rightarrow> string \<Rightarrow> nat option" where
  "holds s k = (case obj_of s k of None \<Rightarrow> None | Some t \<Rightarrow> tk_reader t)"

lemma readers_inv_alt:
  "readers_inv s \<longleftrightarrow> distinct (sy_closed s) \<and> set (sy_closed s) \<subseteq> set (sy_readers s)
     \<and> (\<forall>k r. holds s k = Some r \<longrightarrow> r \<in> set (sy_readers s) \<and> r \<notin> set (sy_closed s)
          \<and> (\<forall>j. holds s j = Some r \<longrightarrow> j = k))
     \<and> (\<forall>r \<in> set (sy_readers s). r \<in> set (sy_closed s) \<or> (\<exists>k. holds s k = Some r))"
proof -
  have h: "holds s k = Some r \<longleftrightarrow> (\<exists>t. obj_of s k = Some t \<and> tk_reader t = Some r)" for k r
    by (simp add: holds_def split: option.split)
  show ?thesis unfolding readers_inv_def h by blast
qed

lemma readers_inv_cong:
  "holds s' = holds s \<Longrightarrow> sy_closed s' = sy_closed s \<Longrightarrow> sy_readers s' = sy_readers s \<Longrightarrow>
   readers_inv s' = readers_inv s"
  by (simp add: readers_inv_alt)

lemma readers_inv_refused:
  assumes "readers_inv s" and "r \<notin> set (sy_readers s)" and "holds s' = holds s"
    and "sy_readers s' = r # sy_readers s" and "sy_closed s' = sy_closed s @ [r]"
  shows "readers_inv s'"
  using assms by (auto simp: readers_inv_alt)

lemma readers_inv_taken:
  assumes "readers_inv s" and "r \<notin> set (sy_readers s)" and "holds s k = None"
    and "holds s' = (holds s)(k \<mapsto> r)"
    and "sy_readers s' = r # sy_readers s" and "sy_closed s' = sy_closed s"
  shows "readers_inv s'"
proof -
  have a: "r \<notin> set (sy_closed s)" "\<And>j. holds s j \<noteq> Some r"
    using assms(1,2) unfolding readers_inv_alt by blast+
  have cover: "\<forall>q \<in> set (sy_readers s'). q \<in> set (sy_closed s') \<or> (\<exists>j. holds s' j = Some q)"
  proof
    fix q assume "q \<in> set (sy_readers s')"
    then consider "q = r" | "q \<in> set (sy_closed s)" | i where "holds s i = Some q"
      using assms(1,5) unfolding readers_inv_alt by auto
    then show "q \<in> set (sy_closed s') \<or> (\<exists>j. holds s' j = Some q)"
    proof cases
      case 1
      then have "holds s' k = Some q" using assms(4) by simp
      then show ?thesis by blast
    next
      case (3 i)
      then have "holds s' i = Some q" using assms(3,4) by auto
      then show ?thesis by blast
    qed (simp add: assms(6))
  qed
  have held: "\<forall>i q. holds s' i = Some q \<longrightarrow> q \<in> set (sy_readers s') \<and> q \<notin> set (sy_closed s')
      \<and> (\<forall>j. holds s' j = Some q \<longrightarrow> j = i)"
    using assms(1) a unfolding readers_inv_alt assms(4-6) by (auto split: if_splits)
  show ?thesis using assms(1) cover held unfolding readers_inv_alt assms(5,6) by auto
qed

lemma readers_inv_closing:
  assumes "readers_inv s" and "holds s k = Some r" and "holds s' = (holds s)(k := None)"
    and "sy_readers s' = sy_readers s" and "sy_closed s' = sy_closed s @ [r]"
  shows "readers_inv s'"
proof -
  have cover: "\<forall>q \<in> set (sy_readers s'). q \<in> set (sy_closed s') \<or> (\<exists>j. holds s' j = Some q)"
  proof
    fix q assume "q \<in> set (sy_readers s')"
    then consider "q \<in> set (sy_closed s)" | i where "holds s i = Some q"
      using assms(1,4) unfolding readers_inv_alt by auto
    then show "q \<in> set (sy_closed s') \<or> (\<exists>j. holds s' j = Some q)"
    proof cases
      case (2 i)
      show ?thesis
      proof (cases "i = k")
        case True
        with 2 assms(2,5) show ?thesis by simp
      next
        case False
        with 2 have "holds s' i = Some q" using assms(3) by simp
        then show ?thesis by blast
      qed
    qed (simp add: assms(5))
  qed
  have r: "r \<in> set (sy_readers s)" "r \<notin> set (sy_closed s)" "\<And>j. holds s j = Some r \<Longrightarrow> j = k"
    using assms(1,2) unfolding readers_inv_alt by blast+
  have held: "\<forall>i q. holds s' i = Some q \<longrightarrow> q \<in> set (sy_readers s') \<and> q \<notin> set (sy_closed s')
      \<and> (\<forall>j. holds s' j = Some q \<longrightarrow> j = i)"
    using assms(1) r(3) unfolding readers_inv_alt assms(3-5) by (auto split: if_splits)
  show ?thesis using assms(1) cover held r unfolding readers_inv_alt assms(4,5) by auto
qed

lemma holds_close_obj:
  assumes "\<And>t. obj_of s k = Some t \<Longrightarrow> tk_closed t \<longrightarrow> tk_reader t = None"
  shows "holds (close_obj k s) = (holds s)(k := None)
    \<and> sy_closed (close_obj k s) = sy_closed s @ (case holds s k of None \<Rightarrow> [] | Some r \<Rightarrow> [r])"
proof (cases "obj_of s k")
  case None
  then show ?thesis by (auto simp: close_obj_def holds_def fun_eq_iff)
next
  case (Some t)
  obtain cl t' where c: "closeReader t = (cl, t')" by fastforce
  have "tk_reader t' = None" using closeReader_props(3) [OF c] assms [OF Some] by blast
  moreover have "cl = (case holds s k of None \<Rightarrow> [] | Some r \<Rightarrow> [r])"
    using closeReader_props(5) [OF c] assms [OF Some] Some by (auto simp: holds_def split: option.split)
  ultimately show ?thesis
    by (auto simp: close_obj_some [OF Some c] holds_def fun_eq_iff)
qed

lemma readers_inv_close_obj:
  assumes "readers_inv s" and "\<And>t. obj_of s k = Some t \<Longrightarrow> tk_closed t \<longrightarrow> tk_reader t = None"
  shows "readers_inv (close_obj k s)"
proof (cases "holds s k")
  case None
  then have "holds (close_obj k s) = holds s" "sy_closed (close_obj k s) = sy_closed s"
    using holds_close_obj [of s k, OF assms(2)] by (auto simp: fun_eq_iff)
  with assms(1) show ?thesis by (simp add: readers_inv_alt)
next
  case (Some r)
  then show ?thesis
    using holds_close_obj [of s k, OF assms(2)]
    by (intro readers_inv_closing [OF assms(1) Some]) simp_all
qed

lemma holds_same: "obj_of s' = obj_of s \<Longrightarrow> holds s' = holds s"
  by (simp add: holds_def fun_eq_iff)

lemma holds_upd:
  "obj_of s' = (obj_of s)(k \<mapsto> t) \<Longrightarrow> tk_reader t = holds s k \<Longrightarrow> holds s' = holds s"
  by (auto simp: holds_def fun_eq_iff)

lemma holds_set_obj: "holds (set_obj k t s) = (holds s)(k := tk_reader t)"
  by (auto simp: holds_def fun_eq_iff)

lemma readers_inv_set_obj:
  "readers_inv s \<Longrightarrow> obj_of s k = Some t \<Longrightarrow> tk_reader t' = tk_reader t \<Longrightarrow> readers_inv (set_obj k t' s)"
  by (subst readers_inv_cong [of "set_obj k t' s" s])
    (auto simp: holds_set_obj holds_def fun_eq_iff)

lemma readers_inv_ext [simp]:
  "readers_inv (set_go k pc dog s) = readers_inv s"
  "readers_inv (s\<lparr>sy_runs := x\<rparr>) = readers_inv s" "readers_inv (s\<lparr>sy_pend := y\<rparr>) = readers_inv s"
  "readers_inv (s\<lparr>sy_used := z\<rparr>) = readers_inv s"
  by (simp_all add: readers_inv_def)

lemma task_closed_none: "obj_inv s \<Longrightarrow> obj_of s k = Some t \<Longrightarrow> tk_closed t \<longrightarrow> tk_reader t = None"
  using obj_inv_obj [of s k t] task_ok_closed by blast

lemma prepared_holds_none:
  "obj_inv s \<Longrightarrow> obj_of s k = Some t \<Longrightarrow> tk_state t = Prepared \<Longrightarrow> holds s k = None"
  using obj_inv_obj [of s k t] by (simp add: task_ok_def holds_def)

lemma readers_inv_fire:
  assumes inv: "obj_inv s" and ri: "readers_inv s" and f: "fire ev s = Some s'"
  shows "readers_inv s'"
proof (cases ev)
  case (UStart k now t1 t2 reader sz name wait)
  obtain r cl m where st: "um_Start k now t1 t2 reader sz name wait (sy_mgr s) = ((r, cl), m)"
    by (metis surj_pair)
  note eff = um_Start_effect [OF obj_inv_mgr [OF inv] st]
  have fresh: "k \<notin> set (sy_used s)" and rd: "reader \<notin> set (sy_readers s)"
    using f UStart by (simp_all split: if_splits)
  have none: "holds s k = None"
    using obj_inv_obj [OF inv, of k] fresh by (cases "obj_of s k") (auto simp: holds_def)
  show ?thesis
  proof (cases r)
    case (Inl err)
    then have "holds s' = holds s"
      using f st UStart eff
      by (intro holds_same) (auto simp: with_mgr_sub obj_inv_gok [OF inv] split: if_splits)
    then show ?thesis using f st UStart Inl eff
      by (intro readers_inv_refused [OF ri rd]) (auto split: if_splits)
  next
    case (Inr p)
    then obtain xc nm where p: "p = (k, xc)"
      and set: "tasks_set k (claimed_task t2 (new_task k nm Queued now) reader) (sy_mgr s) m"
      using eff by (cases p) auto
    have "obj_of s' = (obj_of s)(k \<mapsto> claimed_task t2 (new_task k nm Queued now) reader)"
      using f st UStart Inr p set by (auto simp: with_mgr_set obj_inv_gok [OF inv] split: if_splits)
    then have "holds s' = (holds s)(k \<mapsto> reader)"
      by (auto simp: holds_def fun_eq_iff claimed_task_def)
    then show ?thesis using f st UStart Inr p eff
      by (intro readers_inv_taken [OF ri rd none]) (auto split: if_splits)
  qed
next
  case (UFulfill k t1 t2 reader sz name wait)
  obtain r cl m where st: "um_Fulfill k t1 t2 reader sz name wait (sy_mgr s) = ((r, cl), m)"
    by (metis surj_pair)
  note eff = um_Fulfill_effect [OF obj_inv_mgr [OF inv] st]
  have rd: "reader \<notin> set (sy_readers s)" using f UFulfill by (simp split: if_splits)
  show ?thesis
  proof (cases r)
    case (Inl err)
    then have "holds s' = holds s"
      using f st UFulfill eff
      by (intro holds_same) (auto simp: with_mgr_sub obj_inv_gok [OF inv] split: if_splits)
    then show ?thesis using f st UFulfill Inl eff
      by (intro readers_inv_refused [OF ri rd]) (auto split: if_splits)
  next
    case (Inr xc)
    then obtain tt where tt: "gget (um_tasks (sy_mgr s)) k = Some tt" "tk_state tt = Prepared"
      and set: "tasks_set k (claimed_task t2 (tk_task tt) reader) (sy_mgr s) m" using eff by auto
    have none: "holds s k = None" by (rule prepared_holds_none [OF inv obj_of_task [OF tt(1)] tt(2)])
    have "obj_of s' = (obj_of s)(k \<mapsto> claimed_task t2 (tk_task tt) reader)"
      using f st UFulfill Inr set by (auto simp: with_mgr_set obj_inv_gok [OF inv] split: if_splits)
    then have "holds s' = (holds s)(k \<mapsto> reader)"
      by (auto simp: holds_def fun_eq_iff claimed_task_def)
    then show ?thesis using f st UFulfill Inr eff
      by (intro readers_inv_taken [OF ri rd none]) (auto split: if_splits)
  qed
next
  case (UPrepare k now t1 name ttl opts)
  obtain r m where st: "um_Prepare k now t1 name ttl opts (sy_mgr s) = (r, m)" by fastforce
  note eff = um_Prepare_effect [OF obj_inv_mgr [OF inv] st]
  have fresh: "k \<notin> set (sy_used s)" and s': "s' = (with_mgr m s)\<lparr>sy_used := k # sy_used s\<rparr>"
    using f st UPrepare by (auto split: if_splits)
  have none: "holds s k = None"
    using obj_inv_obj [OF inv, of k] fresh by (cases "obj_of s k") (auto simp: holds_def)
  have "holds s' = holds s"
  proof (cases r)
    case (Inl err)
    then show ?thesis using eff by (intro holds_same) (simp add: s' with_mgr_sub obj_inv_gok [OF inv])
  next
    case (Inr k')
    then obtain nm mode w where "tasks_set k (prepared_task k nm now ttl mode w) (sy_mgr s) m"
      using eff by auto
    then show ?thesis using none
      by (intro holds_upd [of _ _ k "prepared_task k nm now ttl mode w"])
        (simp_all add: s' with_mgr_set obj_inv_gok [OF inv] prepared_task_def)
  qed
  then show ?thesis using ri by (subst readers_inv_cong [of s' s]) (simp_all add: s')
next
  case (UGet now k)
  then have "holds s' = holds s" using f
    by (intro holds_same)
      (auto simp: um_Get_def Let_def with_mgr_sub obj_inv_gok [OF inv] um_prune_sub obj_inv_mgr [OF inv])
  then show ?thesis using ri f UGet by (subst readers_inv_cong [of s' s]) auto
next
  case (UList now)
  then have "holds s' = holds s" using f
    by (intro holds_same)
      (auto simp: um_List_def Let_def with_mgr_sub obj_inv_gok [OF inv] um_prune_sub obj_inv_mgr [OF inv])
  then show ?thesis using ri f UList by (subst readers_inv_cong [of s' s]) auto
next
  case (UCancel now k)
  obtain r m where st: "um_Cancel now k (sy_mgr s) = (r, m)" by fastforce
  note eff = um_Cancel_effect [OF st]
  have "holds s' = holds s"
  proof (cases r)
    case (Some err)
    then show ?thesis using f st UCancel eff
      by (intro holds_same) (auto simp: with_mgr_sub obj_inv_gok [OF inv])
  next
    case None
    then obtain t where t: "gget (um_tasks (sy_mgr s)) k = Some t"
      and set: "tasks_set k (cancelled_task now t) (sy_mgr s) m" using eff by auto
    show ?thesis using f st UCancel None set obj_of_task [OF t]
      by (intro holds_upd [of _ _ k "cancelled_task now t"])
        (auto simp: with_mgr_set obj_inv_gok [OF inv] cancelled_task_def holds_def)
  qed
  then show ?thesis using ri f st UCancel by (subst readers_inv_cong [of s' s]) (cases r; auto)+
next
  case (UCancelClose k)
  then show ?thesis using f readers_inv_close_obj [of "s\<lparr>sy_pend := filter (\<lambda>j. j \<noteq> k) (sy_pend s)\<rparr>" k]
      task_closed_none [OF inv] ri by (auto split: if_splits)
next
  case (GBegin now k)
  then show ?thesis using f ri
    by (auto simp: run_begin_def readers_inv_set_obj split: option.splits go_pc.splits if_splits)
next
  case (GReturn res err k)
  then obtain g where g: "gget (sy_gos s) k = Some g" "go_pc g = Executing"
    using f by (auto split: option.splits go_pc.splits)
  have "readers_inv (close_obj k (set_go k (Returned res err) (go_dog g) s))"
    using ri task_closed_none [OF inv] by (intro readers_inv_close_obj) simp_all
  then show ?thesis using f g ri GReturn by (cases "go_dog g = Armed") auto
next
  case (GComplete now k)
  have "tk_reader (complete now res err t) = tk_reader t" for res err and t :: "'a tracked"
    by (simp add: complete_def Let_def)
  then show ?thesis using GComplete f ri
    by (auto simp: readers_inv_set_obj split: option.splits go_pc.splits)
next
  case (GClose k)
  have "readers_inv (close_obj k (set_go k Finished dog s))" for dog
    using ri task_closed_none [OF inv] by (intro readers_inv_close_obj) simp_all
  then show ?thesis using f GClose by (auto split: option.splits go_pc.splits)
next
  case (WClose k)
  have "readers_inv (close_obj k (set_go k pc Fired s))" for pc
    using ri task_closed_none [OF inv] by (intro readers_inv_close_obj) simp_all
  then show ?thesis using f WClose by (auto split: option.splits if_splits)
next
  case (WFail now k)
  have "tk_reader (watchdog_fail now t) = tk_reader t" for t :: "'a tracked"
    by (simp add: watchdog_fail_def)
  then show ?thesis using WFail f ri
    by (auto simp: readers_inv_set_obj split: option.splits if_splits)
qed

section \<open>The caps\<close>

definition active_keys :: "'r manager \<Rightarrow> string set" where
  "active_keys m = {k. \<exists>t. gget (um_tasks m) k = Some t \<and> in_flight t}"

definition prepared_keys :: "'r manager \<Rightarrow> string set" where
  "prepared_keys m = {k. \<exists>t. gget (um_tasks m) k = Some t \<and> tk_state t = Prepared}"

lemma filter_count:
  assumes "gok m"
  shows "length (filter (\<lambda>e. P (snd e)) m) = card {k. \<exists>t. gget m k = Some t \<and> P t}"
proof -
  have "fst ` set (filter (\<lambda>e. P (snd e)) m) = {k. \<exists>t. gget m k = Some t \<and> P t}"
    using assms by (force simp: image_iff)
  moreover have "length (filter (\<lambda>e. P (snd e)) m) = card (fst ` set (filter (\<lambda>e. P (snd e)) m))"
    using gok_filter [OF assms, of "\<lambda>e. P (snd e)"] by (metis distinct_card length_map set_map)
  ultimately show ?thesis by simp
qed

lemma keys_finite [simp]: "finite (active_keys m)" "finite (prepared_keys m)"
  by (auto simp: active_keys_def prepared_keys_def intro: finite_subset [OF _ finite_dom_map_of [of "um_tasks m"]])

lemma slot_free:
  assumes "gok (um_tasks m)" and "0 < um_MaxActive m" and "acquireSlotLocked m = None"
  shows "int (card (active_keys m)) < um_MaxActive m"
proof -
  have c: "length (filter (\<lambda>e. in_flight (snd e)) (um_tasks m)) = card (active_keys m)"
    unfolding active_keys_def by (rule filter_count [OF assms(1)])
  show ?thesis using assms(2,3) unfolding acquireSlotLocked_def c by (simp split: if_splits)
qed

lemma prepared_slot_free:
  assumes "gok (um_tasks m)" and "0 < um_MaxPrepared m" and "acquirePreparedSlotLocked m = None"
  shows "int (card (prepared_keys m)) < um_MaxPrepared m"
proof -
  have c: "length (filter (\<lambda>e. tk_state (snd e) = Prepared) (um_tasks m)) = card (prepared_keys m)"
    unfolding prepared_keys_def by (rule filter_count [OF assms(1)])
  show ?thesis using assms(2,3) unfolding acquirePreparedSlotLocked_def c by (simp split: if_splits)
qed

lemma keys_sub:
  "tasks_sub m m' \<Longrightarrow> active_keys m' \<subseteq> active_keys m \<and> prepared_keys m' \<subseteq> prepared_keys m"
  by (auto simp: tasks_sub_def active_keys_def prepared_keys_def)

text \<open>One more handle at most, or none.\<close>

definition caps_ok :: "'r manager \<Rightarrow> bool" where
  "caps_ok m \<longleftrightarrow> (0 < um_MaxActive m \<longrightarrow> int (card (active_keys m)) \<le> um_MaxActive m)
     \<and> (0 < um_MaxPrepared m \<longrightarrow> int (card (prepared_keys m)) \<le> um_MaxPrepared m)"

definition same_caps :: "'r manager \<Rightarrow> 'r manager \<Rightarrow> bool" where
  "same_caps m m' \<longleftrightarrow> um_MaxActive m' = um_MaxActive m \<and> um_MaxPrepared m' = um_MaxPrepared m"

lemma caps_ok_mono:
  assumes "caps_ok m" and "same_caps m m'"
    and "active_keys m' \<subseteq> active_keys m" and "prepared_keys m' \<subseteq> prepared_keys m"
  shows "caps_ok m'"
  using assms(1,2) card_mono [OF keys_finite(1) assms(3)] card_mono [OF keys_finite(2) assms(4)]
  by (auto simp: caps_ok_def same_caps_def)

lemma caps_ok_active:
  assumes "caps_ok m" and "same_caps m m'" and "k \<notin> active_keys m \<Longrightarrow> 0 < um_MaxActive m \<Longrightarrow>
      int (card (active_keys m)) < um_MaxActive m"
    and "active_keys m' \<subseteq> insert k (active_keys m)" and "prepared_keys m' \<subseteq> prepared_keys m"
  shows "caps_ok m'"
proof -
  have "card (active_keys m') \<le> card (insert k (active_keys m))"
    using assms(4) by (intro card_mono) simp_all
  then show ?thesis
    using assms(1-3) card_mono [OF keys_finite(2) assms(5)]
    by (cases "k \<in> active_keys m") (auto simp: caps_ok_def same_caps_def insert_absorb)
qed

lemma caps_ok_prepared:
  assumes "caps_ok m" and "same_caps m m'" and "k \<notin> prepared_keys m \<Longrightarrow> 0 < um_MaxPrepared m \<Longrightarrow>
      int (card (prepared_keys m)) < um_MaxPrepared m"
    and "prepared_keys m' \<subseteq> insert k (prepared_keys m)" and "active_keys m' \<subseteq> active_keys m"
  shows "caps_ok m'"
proof -
  have "card (prepared_keys m') \<le> card (insert k (prepared_keys m))"
    using assms(4) by (intro card_mono) simp_all
  then show ?thesis
    using assms(1-3) card_mono [OF keys_finite(1) assms(5)]
    by (cases "k \<in> prepared_keys m") (auto simp: caps_ok_def same_caps_def insert_absorb)
qed

lemma caps_prune:
  assumes "um_inv m" and "caps_ok m"
  shows "caps_ok (um_prune now m)"
  using caps_ok_mono [OF assms(2)] keys_sub [OF um_prune_sub [OF assms(1)]]
  by (simp add: same_caps_def)

lemma caps_begin:
  assumes "um_inv m" and "caps_ok m"
  shows "caps_ok (snd (beginLocked now now' task reader m))"
proof -
  let ?m = "um_prune now m"
  have gok: "gok (um_tasks ?m)" using um_prune_inv [OF assms(1), of now] by (simp add: um_inv_def)
  have ok: "caps_ok ?m" by (rule caps_prune [OF assms])
  show ?thesis
  proof (cases "acquireSlotLocked ?m")
    case (Some err)
    with ok show ?thesis by (simp add: beginLocked_alt)
  next
    case None
    then show ?thesis
      using slot_free [OF gok]
      by (intro caps_ok_active [OF ok, where k = "ut_id task"])
        (auto simp: beginLocked_alt same_caps_def active_keys_def prepared_keys_def claimed_task_def)
  qed
qed

lemma caps_Start: "um_inv m \<Longrightarrow> caps_ok m \<Longrightarrow> caps_ok (snd (um_Start k now t1 t2 reader sz name wait m))"
  using caps_begin [of m t1 t2 "new_task k (if name = [] then DefaultUploadName else name) Queued now" reader]
  by (auto simp: um_Start_def Let_def split: prod.splits option.splits)

lemma caps_Fulfill: "um_inv m \<Longrightarrow> caps_ok m \<Longrightarrow> caps_ok (snd (um_Fulfill k t1 t2 reader sz name wait m))"
proof -
  assume "um_inv m" "caps_ok m"
  then have "beginLocked t1 t2 task reader m = (r, m') \<Longrightarrow> caps_ok m'" for task r m'
    using caps_begin [of m t1 t2 task reader] by simp
  then show ?thesis using \<open>caps_ok m\<close>
    by (auto simp: um_Fulfill_def Let_def split: prod.splits option.splits upload_state.splits)
qed

lemma caps_Prepare:
  assumes "um_inv m" and "caps_ok m"
  shows "caps_ok (snd (um_Prepare k now t1 name ttl opts m))"
proof (cases "um_exec m \<and> acquirePreparedSlotLocked (um_prune t1 m) = None")
  case False
  then show ?thesis using assms caps_prune [OF assms, of t1]
    by (cases "um_exec m") (auto simp: um_Prepare_def Let_def)
next
  case True
  have gok: "gok (um_tasks (um_prune t1 m))"
    using um_prune_inv [OF assms(1), of t1] by (simp add: um_inv_def)
  show ?thesis using True prepared_slot_free [OF gok]
    by (intro caps_ok_prepared [OF caps_prune [OF assms], where k = k and now1 = t1])
      (auto simp: um_Prepare_def Let_def same_caps_def active_keys_def prepared_keys_def new_task_def
        split: if_splits)
qed

lemma active_keys_set:
  assumes "tasks_set k t m m'" and "\<not> in_flight t"
  shows "active_keys m' \<subseteq> active_keys m"
proof
  fix j assume "j \<in> active_keys m'"
  then obtain u where u: "gget (um_tasks m') j = Some u" "in_flight u" unfolding active_keys_def by blast
  have "j \<noteq> k" using assms u unfolding tasks_set_def by auto
  then have "gget (um_tasks m) j = Some u" using assms(1) u(1) unfolding tasks_set_def by blast
  then show "j \<in> active_keys m" using u(2) unfolding active_keys_def by blast
qed

lemma prepared_keys_set:
  assumes "tasks_set k t m m'" and "tk_state t \<noteq> Prepared"
  shows "prepared_keys m' \<subseteq> prepared_keys m"
proof
  fix j assume "j \<in> prepared_keys m'"
  then obtain u where u: "gget (um_tasks m') j = Some u" "tk_state u = Prepared"
    unfolding prepared_keys_def by blast
  have "j \<noteq> k" using assms u unfolding tasks_set_def by auto
  then have "gget (um_tasks m) j = Some u" using assms(1) u(1) unfolding tasks_set_def by blast
  then show "j \<in> prepared_keys m" using u(2) unfolding prepared_keys_def by blast
qed

lemma caps_Cancel:
  assumes "caps_ok m" and "um_Cancel now k m = (r, m')"
  shows "caps_ok m' \<and> same_caps m m'"
proof (cases r)
  case (Some err)
  then have "m' = m" using um_Cancel_effect [OF assms(2)] by simp
  then show ?thesis using assms(1) by (simp add: same_caps_def)
next
  case None
  then obtain t where set: "tasks_set k (cancelled_task now t) m m'"
    using um_Cancel_effect [OF assms(2)] by auto
  have "active_keys m' \<subseteq> active_keys m" "prepared_keys m' \<subseteq> prepared_keys m"
    using active_keys_set [OF set] prepared_keys_set [OF set] by (simp_all add: cancelled_task_def)
  moreover have "same_caps m m'"
    using assms(2) by (auto simp: um_Cancel_def same_caps_def split: option.splits if_splits)
  ultimately show ?thesis using caps_ok_mono [OF assms(1)] by blast
qed

lemma same_caps_begin: "same_caps m (snd (beginLocked now now' task reader m))"
  by (simp add: beginLocked_alt same_caps_def split: option.split)

lemma same_caps_ops:
  "same_caps m (snd (um_Start k now t1 t2 reader sz name wait m))"
  "same_caps m (snd (um_Fulfill k t1 t2 reader sz name wait m))"
  "same_caps m (snd (um_Prepare k now t1 name ttl opts m))"
  "same_caps m (um_prune t1 m)"
proof -
  have b: "beginLocked t1 t2 task reader m = (r, m') \<Longrightarrow> same_caps m m'" for task r m'
    using same_caps_begin [of m t1 t2 task reader] by simp
  show "same_caps m (snd (um_Start k now t1 t2 reader sz name wait m))"
    using b by (auto simp: um_Start_def Let_def same_caps_def split: prod.splits option.splits)
  show "same_caps m (snd (um_Fulfill k t1 t2 reader sz name wait m))"
    using b by (auto simp: um_Fulfill_def Let_def same_caps_def split: prod.splits option.splits upload_state.splits)
qed (auto simp: um_Prepare_def Let_def same_caps_def split: option.splits)

lemma caps_set_obj:
  assumes "caps_ok (sy_mgr s)" and "obj_of s k = Some t" and "in_flight t' \<Longrightarrow> in_flight t"
    and "tk_state t' = Prepared \<Longrightarrow> tk_state t = Prepared"
  shows "caps_ok (sy_mgr (set_obj k t' s)) \<and> same_caps (sy_mgr s) (sy_mgr (set_obj k t' s))"
proof -
  have t: "k \<in> gkeys (um_tasks (sy_mgr s)) \<Longrightarrow> gget (um_tasks (sy_mgr s)) k = Some t"
    using assms(2) gkeys_gget [of k "um_tasks (sy_mgr s)"] by (auto simp: obj_of_def)
  have "active_keys (sy_mgr (set_obj k t' s)) \<subseteq> active_keys (sy_mgr s)"
    using t assms(3) by (auto simp: set_obj_def active_keys_def split: if_splits)
  moreover have "prepared_keys (sy_mgr (set_obj k t' s)) \<subseteq> prepared_keys (sy_mgr s)"
    using t assms(4) by (auto simp: set_obj_def prepared_keys_def split: if_splits)
  moreover have "same_caps (sy_mgr s) (sy_mgr (set_obj k t' s))"
    by (simp add: set_obj_def same_caps_def)
  ultimately show ?thesis using caps_ok_mono [OF assms(1)] by blast
qed

lemma caps_close_obj:
  assumes "caps_ok (sy_mgr s)"
  shows "caps_ok (sy_mgr (close_obj k s)) \<and> same_caps (sy_mgr s) (sy_mgr (close_obj k s))"
proof (cases "obj_of s k")
  case None
  then show ?thesis using assms by (simp add: close_obj_def same_caps_def)
next
  case (Some t)
  obtain cl t' where c: "closeReader t = (cl, t')" by fastforce
  show ?thesis
    using caps_set_obj [OF assms Some, of t'] closeReader_props(1) [OF c]
    by (simp add: close_obj_some [OF Some c])
qed

lemma caps_fire:
  assumes inv: "obj_inv s" and ok: "caps_ok (sy_mgr s)" and f: "fire ev s = Some s'"
  shows "caps_ok (sy_mgr s') \<and> same_caps (sy_mgr s) (sy_mgr s')"
proof (cases ev)
  case (UStart k now t1 t2 reader sz name wait)
  have "sy_mgr s' = snd (um_Start k now t1 t2 reader sz name wait (sy_mgr s))"
    using f UStart by (auto split: if_splits prod.splits sum.splits)
  then show ?thesis using caps_Start [OF obj_inv_mgr [OF inv] ok] same_caps_ops(1) by simp
next
  case (UFulfill k t1 t2 reader sz name wait)
  have "sy_mgr s' = snd (um_Fulfill k t1 t2 reader sz name wait (sy_mgr s))"
    using f UFulfill by (auto split: if_splits prod.splits sum.splits)
  then show ?thesis using caps_Fulfill [OF obj_inv_mgr [OF inv] ok] same_caps_ops(2) by simp
next
  case (UPrepare k now t1 name ttl opts)
  have "sy_mgr s' = snd (um_Prepare k now t1 name ttl opts (sy_mgr s))"
    using f UPrepare by (auto split: if_splits)
  then show ?thesis using caps_Prepare [OF obj_inv_mgr [OF inv] ok] same_caps_ops(3) by simp
next
  case (UGet now k)
  then have "sy_mgr s' = um_prune now (sy_mgr s)" using f by (auto simp: um_Get_def Let_def)
  then show ?thesis using caps_prune [OF obj_inv_mgr [OF inv] ok] same_caps_ops(4) by simp
next
  case (UList now)
  then have "sy_mgr s' = um_prune now (sy_mgr s)" using f by (auto simp: um_List_def Let_def)
  then show ?thesis using caps_prune [OF obj_inv_mgr [OF inv] ok] same_caps_ops(4) by simp
next
  case (UCancel now k)
  obtain r m where st: "um_Cancel now k (sy_mgr s) = (r, m)" by fastforce
  then have "sy_mgr s' = m" using f UCancel by (cases r) auto
  then show ?thesis using caps_Cancel [OF ok st] by simp
next
  case (UCancelClose k)
  have "caps_ok (sy_mgr (s\<lparr>sy_pend := filter (\<lambda>j. j \<noteq> k) (sy_pend s)\<rparr>))" using ok by simp
  from caps_close_obj [OF this, of k] show ?thesis using f UCancelClose by (auto split: if_splits)
next
  case (GBegin now k)
  then obtain g t xc where g: "gget (sy_gos s) k = Some g" "go_pc g = Spawned xc" and t: "obj_of s k = Some t"
    using f by (auto split: option.splits go_pc.splits)
  then show ?thesis
    using f GBegin ok caps_set_obj [OF ok t, of "t\<lparr>tk_task := (tk_task t)\<lparr>ut_started := Some now, ut_state := Running\<rparr>\<rparr>"]
    by (cases "tk_state t = Queued") (auto simp: run_begin_def same_caps_def)
next
  case (GReturn res err k)
  then obtain g where g: "gget (sy_gos s) k = Some g" "go_pc g = Executing"
    using f by (auto split: option.splits go_pc.splits)
  have "caps_ok (sy_mgr (set_go k (Returned res err) (go_dog g) s))" using ok by simp
  from caps_close_obj [OF this, of k] show ?thesis
    using f g ok GReturn by (cases "go_dog g = Armed") (auto simp: same_caps_def)
next
  case (GComplete now k)
  then obtain g t res err where g: "gget (sy_gos s) k = Some g" "go_pc g = Returned res err"
    and t: "obj_of s k = Some t"
    using f by (auto split: option.splits go_pc.splits)
  have c: "tk_state t = Running \<or> tk_state t = Cancelled \<or> tk_timedOut t"
    using obj_inv_obj [OF inv t] g by simp
  have "terminal (tk_state (complete now res err t))"
    using complete_ok [OF _ c] obj_inv_obj [OF inv t] by blast
  then show ?thesis using f g t GComplete caps_set_obj [OF ok t, of "complete now res err t"]
    by (auto simp: terminal_def)
next
  case (GClose k)
  then obtain g where g: "gget (sy_gos s) k = Some g" "go_pc g = Closing"
    using f by (auto split: option.splits go_pc.splits)
  have "caps_ok (sy_mgr (set_go k Finished (go_dog g) s))" using ok by simp
  from caps_close_obj [OF this, of k] show ?thesis using f g GClose by auto
next
  case (WClose k)
  then obtain g where g: "gget (sy_gos s) k = Some g" "go_dog g = Armed"
    using f by (auto split: option.splits if_splits)
  have "caps_ok (sy_mgr (set_go k (go_pc g) Fired s))" using ok by simp
  from caps_close_obj [OF this, of k] show ?thesis using f g WClose by auto
next
  case (WFail now k)
  then obtain g t where g: "gget (sy_gos s) k = Some g" "go_dog g = Fired" and t: "obj_of s k = Some t"
    using f by (auto split: option.splits if_splits)
  have "\<not> in_flight (watchdog_fail now t)" "tk_state (watchdog_fail now t) = Prepared \<Longrightarrow> tk_state t = Prepared"
    by (simp_all add: watchdog_fail_def split: if_splits)
  then have "caps_ok (sy_mgr (set_obj k (watchdog_fail now t) s))
      \<and> same_caps (sy_mgr s) (sy_mgr (set_obj k (watchdog_fail now t) s))"
    by (intro caps_set_obj [OF ok t]) blast+
  moreover have "s' = set_go k (go_pc g) DogDone (set_obj k (watchdog_fail now t) s)"
    using f g t WFail by simp
  ultimately show ?thesis by simp
qed

lemma ureach_all:
  assumes "ureach m s" and "empty_manager m"
  shows "obj_inv s \<and> runs_inv s \<and> readers_inv s \<and> caps_ok (sy_mgr s) \<and> same_caps m (sy_mgr s)"
  using assms
proof (induction rule: ureach.induct)
  case ureach_init
  have "active_keys m = {}" "prepared_keys m = {}"
    using ureach_init by (simp_all add: empty_manager_def active_keys_def prepared_keys_def)
  moreover have "obj_inv (init_sys m)" using ureach_inv [OF ureach.ureach_init ureach_init] .
  moreover have "obj_of (init_sys m) k = None" for k
    using ureach_init by (simp add: obj_of_def init_sys_def empty_manager_def)
  ultimately show ?case
    by (simp add: runs_inv_def readers_inv_def caps_ok_def same_caps_def init_sys_def)
next
  case (ureach_step s ev s')
  then have "fire ev s = Some s'" by (auto elim: ustepE)
  with ureach_step show ?case
    using obj_inv_fire [of s ev s'] runs_inv_fire [of s ev s'] readers_inv_fire [of s ev s'] caps_fire [of s ev s']
    by (auto simp: same_caps_def)
qed

section \<open>Tombstones record outcomes\<close>

text \<open>Where the tombstones of the next manager come from.\<close>

definition tombs_from :: "'r manager \<Rightarrow> 'r manager \<Rightarrow> bool" where
  "tombs_from m m' \<longleftrightarrow> (\<forall>k tb. gget (um_tombs m') k = Some tb \<longrightarrow> gget (um_tombs m) k = Some tb
     \<or> (\<exists>t now. gget (um_tasks m) k = Some t \<and> tomb_for m now t = Some tb))"

lemma tombs_from_refl: "um_tombs m' = um_tombs m \<Longrightarrow> tombs_from m m'"
  by (simp add: tombs_from_def)

lemma tombs_from_cong: "um_tombs m2 = um_tombs m1 \<Longrightarrow> tombs_from m m1 \<Longrightarrow> tombs_from m m2"
  by (simp add: tombs_from_def)

lemma tombs_from_after:
  "tombs_from m m1 \<Longrightarrow> (\<And>j tb. gget (um_tombs m2) j = Some tb \<Longrightarrow> gget (um_tombs m1) j = Some tb) \<Longrightarrow>
   tombs_from m m2"
  unfolding tombs_from_def by blast

lemma tombs_from_prune: "um_inv m \<Longrightarrow> tombs_from m (um_prune now m)"
proof (cases "0 < um_ttl m")
  case False
  then show ?thesis by (simp add: um_prune_def tombs_from_refl)
next
  case True
  assume inv: "um_inv m"
  show ?thesis unfolding tombs_from_def
  proof (intro allI impI)
    fix k tb assume g: "gget (um_tombs (um_prune now m)) k = Some tb"
    then have "tombed m now k = Some tb" using um_prune_tombs [OF inv True, of now] by (simp split: if_splits)
    then show "gget (um_tombs m) k = Some tb \<or>
        (\<exists>t now. gget (um_tasks m) k = Some t \<and> tomb_for m now t = Some tb)"
      unfolding tombed_def by (cases "gget (um_tasks m) k") auto
  qed
qed

lemma tombs_from_begin: "um_inv m \<Longrightarrow> tombs_from m (snd (beginLocked now now' task reader m))"
  by (rule tombs_from_after [OF tombs_from_prune [of m now]])
    (auto simp: beginLocked_alt split: option.splits if_splits)

lemma tombs_from_ops:
  assumes "um_inv m"
  shows "tombs_from m (snd (um_Start k now t1 t2 reader sz name wait m))"
    and "tombs_from m (snd (um_Fulfill k t1 t2 reader sz name wait m))"
    and "tombs_from m (snd (um_Prepare k now t1 name ttl opts m))"
    and "tombs_from m (snd (um_Cancel t1 k m))"
proof -
  have b: "beginLocked t1 t2 task reader m = (r, m') \<Longrightarrow> tombs_from m m'" for task r m'
    using tombs_from_begin [OF assms, of t1 t2 task reader] by simp
  have p: "tombs_from m (um_prune t1 m)" by (rule tombs_from_prune [OF assms])
  show "tombs_from m (snd (um_Start k now t1 t2 reader sz name wait m))"
    using b by (auto simp: um_Start_def Let_def tombs_from_refl split: prod.splits option.splits)
  show "tombs_from m (snd (um_Fulfill k t1 t2 reader sz name wait m))"
    using b by (auto simp: um_Fulfill_def Let_def tombs_from_refl
        split: prod.splits option.splits upload_state.splits)
  have "um_tombs (snd (um_Prepare k now t1 name ttl opts m)) = um_tombs m
      \<or> um_tombs (snd (um_Prepare k now t1 name ttl opts m)) = um_tombs (um_prune t1 m)"
    by (simp add: um_Prepare_def Let_def split: option.split)
  then show "tombs_from m (snd (um_Prepare k now t1 name ttl opts m))"
    using tombs_from_refl tombs_from_cong p by blast
  show "tombs_from m (snd (um_Cancel t1 k m))"
    by (auto simp: um_Cancel_def tombs_from_refl split: option.splits)
qed

lemma close_obj_tombs [simp]: "um_tombs (sy_mgr (close_obj k s)) = um_tombs (sy_mgr s)"
  by (simp add: close_obj_def split: option.split prod.split)

lemma fire_tombs:
  assumes "obj_inv s" and f: "fire ev s = Some s'"
  shows "tombs_from (sy_mgr s) (sy_mgr s')"
proof -
  note ops = tombs_from_ops [OF obj_inv_mgr [OF assms(1)]] tombs_from_prune [OF obj_inv_mgr [OF assms(1)]]
  show ?thesis
  proof (cases ev)
    case (UStart k now t1 t2 reader sz name wait)
    have "sy_mgr s' = snd (um_Start k now t1 t2 reader sz name wait (sy_mgr s))"
      using f UStart by (auto split: if_splits prod.splits sum.splits)
    then show ?thesis by (simp add: ops)
  next
    case (UFulfill k t1 t2 reader sz name wait)
    have "sy_mgr s' = snd (um_Fulfill k t1 t2 reader sz name wait (sy_mgr s))"
      using f UFulfill by (auto split: if_splits prod.splits sum.splits)
    then show ?thesis by (simp add: ops)
  next
    case (UPrepare k now t1 name ttl opts)
    then show ?thesis using f ops by (auto split: if_splits)
  next
    case (UGet now k)
    then show ?thesis using f ops by (auto simp: um_Get_def Let_def)
  next
    case (UList now)
    then show ?thesis using f ops by (auto simp: um_List_def Let_def)
  next
    case (UCancel now k)
    have "sy_mgr s' = snd (um_Cancel now k (sy_mgr s))"
      using f UCancel by (auto split: prod.splits option.splits)
    then show ?thesis by (simp add: ops)
  qed (use f in \<open>auto intro!: tombs_from_refl simp: run_begin_def
         split: if_splits option.splits go_pc.splits\<close>)
qed

definition tomb_inv :: "'r upload_sys \<Rightarrow> bool" where
  "tomb_inv s \<longleftrightarrow> (\<forall>k tb. gget (um_tombs (sy_mgr s)) k = Some tb \<longrightarrow>
     (\<exists>t. obj_of s k = Some t \<and> (if tk_state t = Prepared then ut_state tb = Expired
        else terminal (tk_state t) \<and> tb = tk_task t)))"

lemma tomb_for_cases:
  assumes "task_ok k t" and "tomb_for m now t = Some tb"
  shows "if tk_state t = Prepared then ut_state tb = Expired else terminal (tk_state t) \<and> tb = tk_task t"
  using assms
  by (cases "tk_state t")
    (auto simp: tomb_for_prepared tomb_for_terminal tomb_for_in_flight tomb_for_expired terminal_def
      lapsed_tomb_def split: option.splits if_splits)

lemma tomb_inv_fire:
  assumes inv: "obj_inv s" and ti: "tomb_inv s" and f: "fire ev s = Some s'"
  shows "tomb_inv s'"
  unfolding tomb_inv_def
proof (intro allI impI)
  fix k tb assume g: "gget (um_tombs (sy_mgr s')) k = Some tb"
  have inv': "obj_inv s'" by (rule obj_inv_fire [OF inv f])
  have nt: "gget (um_tasks (sy_mgr s')) k = None"
    using g um_inv_disjoint [OF obj_inv_mgr [OF inv'], of k] by (cases "gget (um_tasks (sy_mgr s')) k") auto
  obtain t where t: "obj_of s k = Some t"
      "if tk_state t = Prepared then ut_state tb = Expired else terminal (tk_state t) \<and> tb = tk_task t"
  proof (cases "gget (um_tombs (sy_mgr s)) k = Some tb")
    case True
    with ti that show thesis unfolding tomb_inv_def by blast
  next
    case False
    then obtain t now where a: "gget (um_tasks (sy_mgr s)) k = Some t" "tomb_for (sy_mgr s) now t = Some tb"
      using fire_tombs [OF inv f] g unfolding tombs_from_def by blast
    have "task_ok k t" using obj_inv_obj [OF inv obj_of_task [OF a(1)]] by blast
    with that [OF obj_of_task [OF a(1)]] tomb_for_cases a(2) show thesis by blast
  qed
  show "\<exists>t. obj_of s' k = Some t \<and> (if tk_state t = Prepared then ut_state tb = Expired
      else terminal (tk_state t) \<and> tb = tk_task t)"
  proof (cases "tk_state t = Prepared")
    case True
    have "obj_of s' k = Some t"
      using fire_objs [OF inv f] t(1) True nt unfolding objs_step_def by (auto split: if_splits)
    with t show ?thesis by blast
  next
    case False
    with t have "terminal (tk_state t)" "tb = tk_task t" by simp_all
    from fire_terminal [OF inv f t(1) this(1)] this False show ?thesis by auto
  qed
qed

lemma ureach_tomb_inv: "ureach m s \<Longrightarrow> empty_manager m \<Longrightarrow> tomb_inv s"
proof (induction rule: ureach.induct)
  case ureach_init
  then show ?case by (simp add: tomb_inv_def init_sys_def empty_manager_def)
next
  case (ureach_step s ev s')
  have "fire ev s = Some s'" using ureach_step.hyps(2) by (rule ustepE)
  with ureach_step show ?case using tomb_inv_fire [OF ureach_inv] by blast
qed

section \<open>Properties\<close>

text \<open>A run: a handle is prepared, fulfilled, cancelled while it runs; its executor returns late.\<close>

definition demo_events :: "nat uevent list" where
  "demo_events = [UPrepare ''h'' 0 0 ''f'' 60 [Some (WithWrap True)], UFulfill ''h'' 1 1 7 10 [] True,
     GBegin 2 ''h'', UCancel 3 ''h'', WClose ''h'', GReturn (Some 5) None ''h'']"

definition demo_start :: "nat upload_sys" where
  "demo_start = init_sys (NewUploadTaskManager True 100)"

definition demo_state :: "nat upload_sys" where
  "demo_state = the (run_events demo_events demo_start)"

lemma demo_run_some: "run_events demo_events demo_start = Some demo_state"
proof -
  have "run_events demo_events demo_start \<noteq> None" by code_simp
  then show ?thesis by (simp add: demo_state_def)
qed

lemma demo_reach: "ureach (NewUploadTaskManager True 100) demo_state"
  by (rule ureach_run [OF demo_run_some]) (simp add: demo_start_def ureach_init)

lemma demo_reach_start: "ureach (NewUploadTaskManager True 100) demo_start"
  by (simp add: demo_start_def ureach_init)

text \<open>
  C1. Outcomes are final. Once an upload is completed, failed or cancelled, no later event
  (the executor returning after a cancel or a timeout, the watchdog firing after the
  completion, prunes, polls, another fulfillment) changes its task; and \<open>Get\<close> never
  answers for its handle with anything but that task or, after its retention, unknown.
\<close>

theorem upload_outcome_final:
  assumes "ureach m s" and "empty_manager m" and "0 < um_ttl (sy_mgr s')"
    and "obj_of s k = Some t" and "terminal (tk_state t)"
    and "run_events evs s = Some s'"
  shows "(\<exists>t'. obj_of s' k = Some t' \<and> tk_task t' = tk_task t)
    \<and> fst (um_Get now k (sy_mgr s')) \<in> {Inr (tk_task t), Inl (UnknownHandle k)}"
proof -
  have r': "ureach m s'" by (rule ureach_run [OF assms(6,1)])
  have inv': "obj_inv s'" by (rule ureach_inv [OF r' assms(2)])
  obtain t' where t': "obj_of s' k = Some t'" "tk_task t' = tk_task t"
    using run_terminal [OF ureach_inv [OF assms(1,2)] assms(6,4,5)] by blast
  have tk: "tk_task u = tk_task t" if "gget (um_tasks (sy_mgr s')) k = Some u" for u
    using t' obj_of_task [OF that] by simp
  have tb: "tb = tk_task t" if "gget (um_tombs (sy_mgr s')) k = Some tb" for tb
  proof -
    have "tk_state t' \<noteq> Prepared" using t'(2) assms(5) by (auto simp: terminal_def)
    then show ?thesis
      using ureach_tomb_inv [OF r' assms(2)] that t' unfolding tomb_inv_def by (metis option.inject)
  qed
  note g = upload_get_cases [OF obj_inv_mgr [OF inv'] assms(3), of now k]
  have "fst (um_Get now k (sy_mgr s')) \<in> {Inr (tk_task t), Inl (UnknownHandle k)}"
  proof (cases "gget (um_tasks (sy_mgr s')) k")
    case (Some u)
    have "tk_state u \<noteq> Prepared" using tk [OF Some] assms(5) by (auto simp: terminal_def)
    with g Some tk [OF Some] show ?thesis by auto
  next
    case None
    with g tb show ?thesis by (cases "gget (um_tombs (sy_mgr s')) k") auto
  qed
  with t' show ?thesis by blast
qed

theorem upload_outcome_final_witness:
  "fst (um_Get 50 ''h'' (sy_mgr (the (run_events [WFail 4 ''h'', GComplete 5 ''h'', GClose ''h''] demo_state))))
     \<in> {Inr (tk_task (the (obj_of demo_state ''h''))), Inl (UnknownHandle ''h'')}
   \<and> tk_state (the (obj_of demo_state ''h'')) = Cancelled"
proof -
  let ?evs = "[WFail 4 ''h'', GComplete 5 ''h'', GClose ''h''] :: nat uevent list"
  have o: "obj_of demo_state ''h'' \<noteq> None" "tk_state (the (obj_of demo_state ''h'')) = Cancelled"
    unfolding demo_state_def by code_simp+
  have r: "run_events ?evs demo_state \<noteq> None" unfolding demo_state_def by code_simp
  have ttl: "0 < um_ttl (sy_mgr (the (run_events ?evs demo_state)))" unfolding demo_state_def by code_simp
  have s: "obj_of demo_state ''h'' = Some (the (obj_of demo_state ''h''))"
    "run_events ?evs demo_state = Some (the (run_events ?evs demo_state))" using o(1) r by simp_all
  have "terminal (tk_state (the (obj_of demo_state ''h'')))" using o(2) by (simp add: terminal_def)
  from upload_outcome_final [OF demo_reach empty_manager_new ttl s(1) this s(2), of 50] o(2)
  show ?thesis by simp
qed

text \<open>
  C13. A handle is executed at most once: in every reachable state the executor has been
  called for distinct handles only, whatever is prepared, fulfilled, cancelled or retried.
\<close>

theorem upload_executes_once:
  assumes "ureach m s" and "empty_manager m"
  shows "distinct (map fst (sy_runs s))"
  using ureach_all [OF assms] by (simp add: runs_inv_def)

theorem upload_executes_once_witness:
  "distinct (map fst (sy_runs demo_state)) \<and> map fst (sy_runs demo_state) = [''h'']"
proof -
  have "map fst (sy_runs demo_state) = [''h'']" unfolding demo_state_def by code_simp
  with upload_executes_once [OF demo_reach empty_manager_new] show ?thesis by simp
qed

text \<open>
  C12. Readers are neither closed twice nor leaked: every \<open>Close\<close> call is on a different reader
  the manager was given, and once every goroutine has ended and no \<open>Cancel\<close> is about to
  close one, every reader that was handed in has been closed, on the error paths too.
\<close>

theorem upload_readers_closed:
  assumes "ureach m s" and "empty_manager m"
  shows "distinct (sy_closed s) \<and> set (sy_closed s) \<subseteq> set (sy_readers s)
    \<and> ((\<forall>k g. gget (sy_gos s) k = Some g \<longrightarrow> go_pc g = Finished) \<longrightarrow> sy_pend s = [] \<longrightarrow>
         set (sy_closed s) = set (sy_readers s))"
proof -
  have inv: "obj_inv s" and ri: "readers_inv s" using ureach_all [OF assms] by blast+
  have none: "tk_reader t = None"
    if "\<forall>k g. gget (sy_gos s) k = Some g \<longrightarrow> go_pc g = Finished" "sy_pend s = []" "obj_of s k = Some t" for k t
    using obj_inv_obj [OF inv that(3)] that(1,2) by (cases "gget (sy_gos s) k") auto
  show ?thesis
  proof (intro conjI impI)
    show "distinct (sy_closed s)" "set (sy_closed s) \<subseteq> set (sy_readers s)"
      using ri unfolding readers_inv_def by blast+
  next
    assume a: "\<forall>k g. gget (sy_gos s) k = Some g \<longrightarrow> go_pc g = Finished" "sy_pend s = []"
    have "r \<in> set (sy_closed s)" if "r \<in> set (sy_readers s)" for r
      using ri that none [OF a] unfolding readers_inv_def by fastforce
    then show "set (sy_closed s) = set (sy_readers s)" using ri unfolding readers_inv_def by blast
  qed
qed

theorem upload_readers_closed_witness:
  "distinct (sy_closed demo_state) \<and> sy_closed demo_state = [7]"
proof -
  have "sy_closed demo_state = [7]" unfolding demo_state_def by code_simp
  with upload_readers_closed [OF demo_reach empty_manager_new] show ?thesis by simp
qed

text \<open>
  C20. The two caps hold in every reachable state: at most \<open>MaxActive\<close> uploads are queued or
  running and at most \<open>MaxPrepared\<close> handles are prepared, when the caps are positive; and
  no handle is ever both live and a tombstone, so \<open>Cancel\<close> and \<open>Get\<close> cannot disagree on it.
\<close>

theorem upload_caps:
  assumes "ureach m s" and "empty_manager m"
  shows "(0 < um_MaxActive m \<longrightarrow> int (card (active_keys (sy_mgr s))) \<le> um_MaxActive m)
    \<and> (0 < um_MaxPrepared m \<longrightarrow> int (card (prepared_keys (sy_mgr s))) \<le> um_MaxPrepared m)
    \<and> gkeys (um_tasks (sy_mgr s)) \<inter> gkeys (um_tombs (sy_mgr s)) = {}
    \<and> distinct (um_order (sy_mgr s)) \<and> set (um_order (sy_mgr s)) = gkeys (um_tombs (sy_mgr s))"
  using ureach_all [OF assms] obj_inv_mgr [of s]
  by (auto simp: caps_ok_def same_caps_def um_inv_def fifo_inv_def)

theorem upload_caps_witness:
  "gkeys (um_tasks (sy_mgr demo_state)) \<inter> gkeys (um_tombs (sy_mgr demo_state)) = {}
   \<and> int (card (active_keys (sy_mgr demo_state))) \<le> 8"
  using upload_caps [OF demo_reach empty_manager_new]
  by (simp add: NewUploadTaskManager_def defaultMaxActiveUploads_def)

end
