(* ===== verification/UploadProgress.thy ===== *)
theory UploadProgress
  imports UploadProps
begin

text \<open>
  The uploads come to an end: the actions of goroutines, watchdogs and pending closes run out
  after a number bounded by the uploads in flight, and when none is left every goroutine has
  finished, whatever the schedule.
\<close>

section \<open>The work left\<close>

text \<open>The events nobody outside causes.\<close>

fun internal :: "'r uevent \<Rightarrow> bool" where
  "internal (UCancelClose k) = True"
| "internal (GBegin now k) = True"
| "internal (GReturn res err k) = True"
| "internal (GComplete now k) = True"
| "internal (GClose k) = True"
| "internal (WClose k) = True"
| "internal (WFail now k) = True"
| "internal ev = False"

fun pc_work :: "'r go_pc \<Rightarrow> nat" where
  "pc_work (Spawned xc) = 6"
| "pc_work Executing = 3"
| "pc_work (Returned res err) = 2"
| "pc_work Closing = 1"
| "pc_work Finished = 0"

fun dog_work :: "watchdog \<Rightarrow> nat" where
  "dog_work Armed = 2"
| "dog_work Fired = 1"
| "dog_work dog = 0"

definition go_work :: "'r goroutine \<Rightarrow> nat" where
  "go_work g = pc_work (go_pc g) + dog_work (go_dog g)"

definition work :: "'r upload_sys \<Rightarrow> nat" where
  "work s = sum_list (map (go_work \<circ> snd) (sy_gos s)) + length (sy_pend s)"

lemma sum_gset: "gget m k = Some v \<Longrightarrow>
  sum_list (map (f \<circ> snd) (gset k w m)) + f v = sum_list (map (f \<circ> snd) m) + (f w :: nat)"
  by (induction m) (auto split: if_splits)

lemma work_set_go:
  assumes "gget (sy_gos s) k = Some g"
  shows "work (set_go k pc dog s) + go_work g = work s + pc_work pc + dog_work dog"
  using sum_gset [OF assms, of go_work "\<lparr>go_pc = pc, go_dog = dog\<rparr>"] by (simp add: work_def go_work_def)

lemma work_cong: "sy_gos s' = sy_gos s \<Longrightarrow> sy_pend s' = sy_pend s \<Longrightarrow> work s' = work s"
  by (simp add: work_def)

lemma work_set_obj [simp]: "work (set_obj k t s) = work s"
  by (rule work_cong) simp_all

lemma work_close_obj [simp]: "work (close_obj k s) = work s"
  by (rule work_cong) simp_all

lemma work_runs [simp]: "work (s\<lparr>sy_runs := rs\<rparr>) = work s"
  by (rule work_cong) simp_all

lemma internal_decreases:
  assumes "internal ev" and "fire ev s = Some s'"
  shows "work s' < work s"
proof (cases ev)
  case (UCancelClose k)
  then have k: "k \<in> set (sy_pend s)" and s': "s' = close_obj k (s\<lparr>sy_pend := filter (\<lambda>j. j \<noteq> k) (sy_pend s)\<rparr>)"
    using assms(2) by (simp_all split: if_splits)
  have "length (filter (\<lambda>j. j \<noteq> k) (sy_pend s)) < length (sy_pend s)" using k by (simp add: length_filter_less)
  then show ?thesis unfolding s' by (simp add: work_def)
next
  case (GBegin now k)
  then obtain g xc t where g: "gget (sy_gos s) k = Some g" "go_pc g = Spawned xc" "obj_of s k = Some t"
    using assms(2) by (auto split: option.splits go_pc.splits)
  note w = work_set_go [OF g(1)]
  obtain b t' where b: "run_begin now t = (b, t')" by (cases "run_begin now t")
  have s': "s' = (if b then (set_go k Executing Armed (set_obj k t' s))\<lparr>sy_runs := sy_runs s @ [(k, xc)]\<rparr>
      else set_go k Finished (go_dog g) s)"
    using assms(2) GBegin g b by (cases b) simp_all
  show ?thesis using w [of Finished "go_dog g"] work_set_go [of "set_obj k t' s" k g Executing Armed] g
    by (cases b) (simp_all add: s' go_work_def)
next
  case (GReturn res err k)
  then obtain g where g: "gget (sy_gos s) k = Some g" "go_pc g = Executing"
    using assms(2) by (auto split: option.splits go_pc.splits)
  note w = work_set_go [OF g(1)]
  have "s' = (if go_dog g = Armed then set_go k (Returned res err) Disarmed s
      else close_obj k (set_go k (Returned res err) (go_dog g) s))"
    using assms(2) GReturn g by simp
  then show ?thesis using w [of "Returned res err" Disarmed] w [of "Returned res err" "go_dog g"] g
    by (cases "go_dog g = Armed") (simp_all add: go_work_def)
next
  case (GComplete now k)
  then obtain g res err t where g: "gget (sy_gos s) k = Some g" "go_pc g = Returned res err" "obj_of s k = Some t"
    using assms(2) by (auto split: option.splits go_pc.splits)
  have s': "s' = set_go k Closing (go_dog g) (set_obj k (complete now res err t) s)"
    using assms(2) GComplete g by simp
  show ?thesis using work_set_go [of "set_obj k (complete now res err t) s" k g Closing "go_dog g"] g
    by (simp add: s' go_work_def)
next
  case (GClose k)
  then obtain g where g: "gget (sy_gos s) k = Some g" "go_pc g = Closing"
    using assms(2) by (auto split: option.splits go_pc.splits)
  have "s' = close_obj k (set_go k Finished (go_dog g) s)" using assms(2) GClose g by simp
  then show ?thesis using work_set_go [OF g(1), of Finished "go_dog g"] g by (simp add: go_work_def)
next
  case (WClose k)
  then obtain g where g: "gget (sy_gos s) k = Some g" "go_dog g = Armed"
    using assms(2) by (auto split: option.splits if_splits)
  have "s' = close_obj k (set_go k (go_pc g) Fired s)" using assms(2) WClose g by simp
  then show ?thesis using work_set_go [OF g(1), of "go_pc g" Fired] g by (simp add: go_work_def)
next
  case (WFail now k)
  then obtain g t where g: "gget (sy_gos s) k = Some g" "go_dog g = Fired" "obj_of s k = Some t"
    using assms(2) by (auto split: option.splits if_splits)
  have s': "s' = set_go k (go_pc g) DogDone (set_obj k (watchdog_fail now t) s)" using assms(2) WFail g by simp
  show ?thesis using work_set_go [of "set_obj k (watchdog_fail now t) s" k g "go_pc g" DogDone] g
    by (simp add: s' go_work_def)
qed (use assms(1) in simp_all)

section \<open>Every schedule ends\<close>

lemma run_bounded:
  "list_all internal evs \<Longrightarrow> run_events evs s = Some s' \<Longrightarrow> length evs + work s' \<le> work s"
proof (induction evs arbitrary: s)
  case Nil
  then show ?case by simp
next
  case (Cons ev evs)
  obtain s1 where s1: "fire ev s = Some s1" and rest: "run_events evs s1 = Some s'"
    using Cons.prems(2) by (auto split: option.splits)
  show ?case using internal_decreases [OF _ s1] Cons.IH [OF _ rest] Cons.prems(1) by simp
qed

lemma stuck_quiet:
  assumes "obj_inv s" and "\<And>ev. internal ev \<Longrightarrow> fire ev s = None"
  shows "sy_pend s = [] \<and> (\<forall>k g. gget (sy_gos s) k = Some g \<longrightarrow> go_pc g = Finished \<and> go_dog g \<notin> {Armed, Fired})"
proof
  show "sy_pend s = []"
  proof (cases "sy_pend s")
    case (Cons k ks)
    then show ?thesis using assms(2) [of "UCancelClose k"] by simp
  qed simp
  show "\<forall>k g. gget (sy_gos s) k = Some g \<longrightarrow> go_pc g = Finished \<and> go_dog g \<notin> {Armed, Fired}"
  proof (intro allI impI)
    fix k g
    assume g: "gget (sy_gos s) k = Some g"
    obtain t where t: "obj_of s k = Some t" using obj_inv_go [OF assms(1), of k] g by auto
    have "go_dog g \<noteq> Armed" using assms(2) [of "WClose k"] g by auto
    moreover have "go_dog g \<noteq> Fired" using assms(2) [of "WFail 0 k"] g t by auto
    moreover have "go_pc g = Finished"
    proof (cases "go_pc g")
      case (Spawned xc)
      then show ?thesis using assms(2) [of "GBegin 0 k"] g t by (auto split: prod.splits bool.splits)
    next
      case Executing
      then show ?thesis using assms(2) [of "GReturn None None k"] g by simp
    next
      case (Returned res err)
      then show ?thesis using assms(2) [of "GComplete 0 k"] g t by simp
    next
      case Closing
      then show ?thesis using assms(2) [of "GClose k"] g by simp
    qed
    ultimately show "go_pc g = Finished \<and> go_dog g \<notin> {Armed, Fired}" by simp
  qed
qed

lemma work_bound: "work s \<le> 8 * length (sy_gos s) + length (sy_pend s)"
proof -
  have "go_work g \<le> 8" for g :: "'r goroutine"
    by (cases "go_pc g"; cases "go_dog g") (simp_all add: go_work_def)
  then have "sum_list (map (go_work \<circ> snd) gs) \<le> 8 * length gs" for gs :: "(string \<times> 'r goroutine) list"
    by (induction gs) (auto intro: add_mono)
  then show ?thesis by (simp add: work_def)
qed

text \<open>
  C4. Uploads come to an end. From any reachable state every schedule of the goroutines, their
  watchdogs and the pending closes has at most eight steps per upload and one per pending close.
  A schedule that cannot go on has closed what was pending, disarmed every watchdog and
  brought every upload that was started to a final state with its reader let go.
\<close>

theorem upload_work_terminates:
  assumes "ureach m s" and "empty_manager m"
    and "list_all internal evs" and "run_events evs s = Some s'"
  shows "length evs \<le> 8 * length (sy_gos s) + length (sy_pend s)
    \<and> ((\<forall>ev. internal ev \<longrightarrow> fire ev s' = None) \<longrightarrow>
         sy_pend s' = []
         \<and> (\<forall>k g. gget (sy_gos s') k = Some g \<longrightarrow>
              go_pc g = Finished \<and> go_dog g \<notin> {Armed, Fired}
              \<and> (\<exists>t. obj_of s' k = Some t \<and> terminal (tk_state t) \<and> tk_reader t = None)))"
proof (intro conjI impI allI)
  show "length evs \<le> 8 * length (sy_gos s) + length (sy_pend s)"
    using run_bounded [OF assms(3,4)] work_bound [of s] by simp
next
  have inv: "obj_inv s'" by (rule ureach_inv [OF ureach_run [OF assms(4,1)] assms(2)])
  assume stuck: "\<forall>ev. internal ev \<longrightarrow> fire ev s' = None"
  then have quiet: "sy_pend s' = [] \<and> (\<forall>k g. gget (sy_gos s') k = Some g \<longrightarrow> go_pc g = Finished \<and> go_dog g \<notin> {Armed, Fired})"
    using stuck_quiet [OF inv] by blast
  then show "sy_pend s' = []" ..
  fix k g
  assume g: "gget (sy_gos s') k = Some g"
  then show fin: "go_pc g = Finished" and "go_dog g \<notin> {Armed, Fired}" using quiet by blast+
  obtain t where t: "obj_of s' k = Some t" using obj_inv_go [OF inv, of k] g by auto
  have "go_rel (Some g) (k \<in> set (sy_pend s')) t" using obj_inv_obj [OF inv t] g by simp
  then show "\<exists>t. obj_of s' k = Some t \<and> terminal (tk_state t) \<and> tk_reader t = None"
    using t fin quiet by simp
qed

theorem upload_work_terminates_witness:
  "length ([WFail 4 ''h'', GComplete 5 ''h'', GClose ''h''] :: nat uevent list)
     \<le> 8 * length (sy_gos demo_state) + length (sy_pend demo_state)"
proof -
  let ?evs = "[WFail 4 ''h'', GComplete 5 ''h'', GClose ''h''] :: nat uevent list"
  have "run_events ?evs demo_state \<noteq> None" unfolding demo_state_def by code_simp
  then obtain s' where s': "run_events ?evs demo_state = Some s'" by auto
  have "list_all internal ?evs" by simp
  from upload_work_terminates [OF demo_reach empty_manager_new this s'] show ?thesis by blast
qed

end
