(* ===== verification/Readers.thy ===== *)
theory Readers
  imports Prelude
begin

text \<open>
  The interface of an \<open>io.Reader\<close> and what draining one gives. \<open>byte_source\<close> states the
  contract the relay and the data: URI reader rely on; \<open>any_read\<close> is a reader with any
  contents, any ending and any way to cut its contents into chunks, on which the locale is
  interpreted. The readers of the program that wrap another one are shown to provide the same
  contract in the theories of their components.
\<close>

text \<open>How a read ends: with more to come, at the end of the input, or with an error.\<close>

datatype 'e read_end = More | AtEOF | ReadFailed 'e

locale byte_source =
  fixes read :: "nat \<Rightarrow> 's \<Rightarrow> (string \<times> 'e read_end) \<times> 's"
    and rest :: "'s \<Rightarrow> string"
    and ending :: "'s \<Rightarrow> 'e read_end"
    and inv :: "'s \<Rightarrow> bool"
  assumes read_len: "inv s \<Longrightarrow> length (fst (fst (read k s))) \<le> k"
    and read_more: "inv s \<Longrightarrow> read k s = ((bs, More), s') \<Longrightarrow>
      rest s = bs @ rest s' \<and> ending s' = ending s \<and> inv s'"
    and read_end: "inv s \<Longrightarrow> read k s = ((bs, e), s') \<Longrightarrow> e \<noteq> More \<Longrightarrow> bs = rest s \<and> e = ending s"
    and read_progress: "inv s \<Longrightarrow> 0 < k \<Longrightarrow> read k s = ((bs, More), s') \<Longrightarrow> bs \<noteq> []"
    and ending_final: "inv s \<Longrightarrow> ending s \<noteq> More"

text \<open>Reading with buffers of the given sizes until the reader ends.\<close>

fun drain :: "(nat \<Rightarrow> 's \<Rightarrow> (string \<times> 'e read_end) \<times> 's) \<Rightarrow> nat list \<Rightarrow> 's \<Rightarrow> string \<times> 'e read_end" where
  "drain rd [] s = ([], More)"
| "drain rd (k # ks) s =
     (case rd k s of
        ((bs, More), s') \<Rightarrow> (case drain rd ks s' of (rs, e) \<Rightarrow> (bs @ rs, e))
      | ((bs, e), s') \<Rightarrow> (bs, e))"

context byte_source
begin

lemma drain_more: "read k s = ((bs, More), s') \<Longrightarrow>
   drain read (k # ks) s = (bs @ fst (drain read ks s'), snd (drain read ks s'))"
  by (simp split: prod.split)

lemma drain_end: "read k s = ((bs, e), s') \<Longrightarrow> e \<noteq> More \<Longrightarrow> drain read (k # ks) s = (bs, e)"
  by (cases e) simp_all

text \<open>What is read is a prefix of the contents, and all of them once the reader has ended.\<close>

lemma drain_prefix:
  "inv s \<Longrightarrow> (\<exists>r. rest s = fst (drain read ks s) @ r)
    \<and> (snd (drain read ks s) \<noteq> More \<longrightarrow> fst (drain read ks s) = rest s \<and> snd (drain read ks s) = ending s)"
proof (induction ks arbitrary: s)
  case Nil
  then show ?case by simp
next
  case (Cons k ks)
  obtain bs e s' where r: "read k s = ((bs, e), s')" by (metis surj_pair)
  show ?case
  proof (cases "e = More")
    case True
    have m: "rest s = bs @ rest s'" "ending s' = ending s" "inv s'"
      using read_more [OF Cons.prems r [unfolded True]] by blast+
    show ?thesis using Cons.IH [OF m(3)] m(1,2) drain_more [OF r [unfolded True], of ks] by auto
  next
    case False
    show ?thesis using read_end [OF Cons.prems r False] False drain_end [OF r False, of ks] by simp
  qed
qed

text \<open>Buffers that are not empty make progress, so enough of them reach the end.\<close>

lemma drain_all:
  "inv s \<Longrightarrow> 0 \<notin> set ks \<Longrightarrow> length (rest s) < length ks \<Longrightarrow> drain read ks s = (rest s, ending s)"
proof (induction ks arbitrary: s)
  case Nil
  then show ?case by simp
next
  case (Cons k ks)
  obtain bs e s' where r: "read k s = ((bs, e), s')" by (metis surj_pair)
  show ?case
  proof (cases "e = More")
    case True
    note r' = r [unfolded True]
    have m: "rest s = bs @ rest s'" "ending s' = ending s" "inv s'"
      using read_more [OF Cons.prems(1) r'] by blast+
    have "bs \<noteq> []" using read_progress [OF Cons.prems(1) _ r'] Cons.prems(2) by simp
    then have "0 < length bs" by simp
    moreover have "length (rest s) = length bs + length (rest s')" "length (k # ks) = Suc (length ks)"
      using m(1) by simp_all
    ultimately have "length (rest s') < length ks" using Cons.prems(3) by linarith
    then show ?thesis using Cons.IH [OF m(3)] Cons.prems(2) m(1,2) drain_more [OF r', of ks] by simp
  next
    case False
    show ?thesis using read_end [OF Cons.prems(1) r False] drain_end [OF r False, of ks] by simp
  qed
qed

end

section \<open>Any reader\<close>

text \<open>
  A reader by what it will deliver: its contents, its ending, the sizes of the chunks it
  returns (without limit once the list is used up), and whether the ending comes with the
  last bytes or on its own.
\<close>

record 'e any_reader =
  ar_data :: string
  ar_end :: "'e read_end"
  ar_chunks :: "nat list"
  ar_joint :: bool

definition ar_ok :: "'e any_reader \<Rightarrow> bool" where
  "ar_ok s \<longleftrightarrow> ar_end s \<noteq> More \<and> 0 \<notin> set (ar_chunks s)"

definition any_read :: "nat \<Rightarrow> 'e any_reader \<Rightarrow> (string \<times> 'e read_end) \<times> 'e any_reader" where
  "any_read k s =
     (let n = (case ar_chunks s of [] \<Rightarrow> k | c # cs \<Rightarrow> min c k);
          s' = s\<lparr>ar_data := drop n (ar_data s), ar_chunks := tl (ar_chunks s)\<rparr>
      in if ar_data s = [] then (([], ar_end s), s)
         else if ar_joint s \<and> length (ar_data s) \<le> n then ((ar_data s, ar_end s), s')
         else ((take n (ar_data s), More), s'))"

interpretation any: byte_source any_read ar_data ar_end ar_ok
proof (unfold_locales, goal_cases)
  case (1 s k)
  then show ?case by (auto simp: any_read_def Let_def split: list.split)
next
  case (2 s k bs s')
  then have "ar_end s \<noteq> More" "0 \<notin> set (tl (ar_chunks s))"
    by (simp_all add: ar_ok_def) (cases "ar_chunks s"; simp)
  then show ?case using 2
    by (cases "ar_chunks s") (auto simp: any_read_def ar_ok_def Let_def split: if_splits)
next
  case (3 s k bs e s')
  then show ?case by (auto simp: any_read_def Let_def split: if_splits)
next
  case (4 s k bs s')
  then show ?case
    by (cases "ar_chunks s") (auto simp: any_read_def ar_ok_def Let_def split: if_splits)
next
  case (5 s)
  then show ?case by (simp add: ar_ok_def)
qed

section \<open>Sources behind a cap\<close>

text \<open>The client side of a cap: a source together with a bound on what is taken from it.\<close>

locale capped_source = byte_source read rest ending inv
  for read :: "nat \<Rightarrow> 's \<Rightarrow> (string \<times> 'e read_end) \<times> 's" and rest and ending and inv +
  fixes too_large :: 'e

end
