(* ===== verification/FileRelay.thy ===== *)
theory FileRelay
  imports Readers
begin

unbundle bit_operations_syntax

text \<open>
  \<open>ieo/file_relay.go\<close>: fetching a file from a URL a remote caller supplies. The parts are the
  address classification behind the dial guard, the host allowlist, the redirect policy, the
  fetch and the reader that caps the body. What \<open>net/url\<close> and \<open>netip.ParseAddr\<close> make of a
  string, what the resolver answers and what servers reply are arguments, the resolver and
  the servers free to answer differently each time. Zones of IPv6 addresses are dropped.
\<close>

definition defaultRelayMaxBytes :: int where "defaultRelayMaxBytes = 512 * 2 ^ 20"

definition EffectiveRelayMaxBytes :: "int \<Rightarrow> int" where
  "EffectiveRelayMaxBytes maxBytes = (if 0 < maxBytes then maxBytes else defaultRelayMaxBytes)"

definition maxRelayRedirects :: nat where "maxRelayRedirects = 3"

section \<open>Addresses\<close>

datatype ip = V4 "32 word" | V6 "128 word"

text \<open>The prefix test of \<open>netip.Prefix.Contains\<close> on addresses of one family.\<close>

definition in_prefix :: "nat \<Rightarrow> 'a::len word \<Rightarrow> 'a word \<Rightarrow> bool" where
  "in_prefix len base a \<longleftrightarrow> drop_bit (LENGTH('a) - len) a = drop_bit (LENGTH('a) - len) base"

definition v4 :: "nat \<Rightarrow> nat \<Rightarrow> nat \<Rightarrow> nat \<Rightarrow> 32 word" where
  "v4 a b c d = word_of_nat (((a * 256 + b) * 256 + c) * 256 + d)"

text \<open>A 128-bit address from its first 16-bit group.\<close>

definition v6_head :: "nat \<Rightarrow> 128 word" where
  "v6_head g = push_bit 112 (word_of_nat g)"

fun IsPrivate :: "ip \<Rightarrow> bool" where
  "IsPrivate (V4 a) = (in_prefix 8 (v4 10 0 0 0) a \<or> in_prefix 12 (v4 172 16 0 0) a
     \<or> in_prefix 16 (v4 192 168 0 0) a)"
| "IsPrivate (V6 w) = in_prefix 7 (v6_head 0xFC00) w"

fun IsLoopback :: "ip \<Rightarrow> bool" where
  "IsLoopback (V4 a) = in_prefix 8 (v4 127 0 0 0) a"
| "IsLoopback (V6 w) = (w = 1)"

fun IsLinkLocalUnicast :: "ip \<Rightarrow> bool" where
  "IsLinkLocalUnicast (V4 a) = in_prefix 16 (v4 169 254 0 0) a"
| "IsLinkLocalUnicast (V6 w) = in_prefix 10 (v6_head 0xFE80) w"

fun IsLinkLocalMulticast :: "ip \<Rightarrow> bool" where
  "IsLinkLocalMulticast (V4 a) = in_prefix 24 (v4 224 0 0 0) a"
| "IsLinkLocalMulticast (V6 w) = (drop_bit 112 w AND 0xFF0F = 0xFF02)"

fun IsUnspecified :: "ip \<Rightarrow> bool" where
  "IsUnspecified (V4 a) = (a = 0)"
| "IsUnspecified (V6 w) = (w = 0)"

fun IsMulticast :: "ip \<Rightarrow> bool" where
  "IsMulticast (V4 a) = in_prefix 4 (v4 224 0 0 0) a"
| "IsMulticast (V6 w) = in_prefix 8 (v6_head 0xFF00) w"

fun Is4In6 :: "ip \<Rightarrow> bool" where
  "Is4In6 (V4 a) = False"
| "Is4In6 (V6 w) = (drop_bit 32 w = 0xFFFF)"

text \<open>The low 32 bits, as \<open>As4\<close> and the copy of the last four bytes give them.\<close>

fun low4 :: "ip \<Rightarrow> ip" where
  "low4 (V4 a) = V4 a"
| "low4 (V6 w) = V4 (ucast w)"

definition Unmap :: "ip \<Rightarrow> ip" where
  "Unmap a = (if Is4In6 a then low4 a else a)"

fun isIPv4Compatible :: "ip \<Rightarrow> bool" where
  "isIPv4Compatible (V4 a) = False"
| "isIPv4Compatible (V6 w) =
     (drop_bit 32 w = 0 \<and> \<not> IsUnspecified (V6 w) \<and> \<not> IsLoopback (V6 w))"

definition inCIDR :: "ip \<Rightarrow> 32 word \<Rightarrow> nat \<Rightarrow> bool" where
  "inCIDR a base len = (case a of V4 x \<Rightarrow> in_prefix len base x | V6 w \<Rightarrow> False)"

definition isPrivateIP :: "ip \<Rightarrow> bool" where
  "isPrivateIP ip0 =
     (let a = (if Is4In6 ip0 then low4 ip0 else if isIPv4Compatible ip0 then low4 ip0 else ip0)
      in if IsPrivate a \<or> IsLoopback a \<or> IsLinkLocalUnicast a \<or> IsLinkLocalMulticast a
            \<or> IsUnspecified a \<or> IsMulticast a then True
         else (case a of
                 V6 w \<Rightarrow> False
               | V4 x \<Rightarrow> inCIDR a (v4 100 64 0 0) 10 \<or> inCIDR a (v4 192 0 0 0) 24
                        \<or> inCIDR a (v4 198 18 0 0) 15 \<or> inCIDR a (v4 192 88 99 0) 24))"

section \<open>Hosts\<close>

fun contains_char :: "char \<Rightarrow> string \<Rightarrow> bool" where
  "contains_char c s = (c \<in> set s)"

definition chatgptBlobAccountPrefixes :: "string list" where
  "chatgptBlobAccountPrefixes = [''oaisd'']"

definition chatgptBlobHostAllowed :: "string \<Rightarrow> bool" where
  "chatgptBlobHostAllowed host =
     (let h = to_lower (trim_suffix (trim_space host) ''.''); suffix = ''.blob.core.windows.net''
      in if \<not> has_suffix h suffix then False
         else let account = trim_suffix h suffix
              in if account = [] \<or> contains_char CHR ''.'' account then False
                 else list_ex (has_prefix account) chatgptBlobAccountPrefixes)"

definition hostAllowed :: "string \<Rightarrow> string list \<Rightarrow> bool" where
  "hostAllowed host allowed =
     list_ex (\<lambda>c. let candidate = to_lower (trim_space c); h = to_lower host
                  in h = candidate \<or> has_suffix h (''.'' @ candidate)) allowed"

section \<open>URLs and references\<close>

text \<open>A URL as \<open>url.Parse\<close> gives it, with the result of \<open>Hostname\<close>.\<close>

record parsed_url =
  pu_scheme :: string
  pu_hostname :: string
  pu_user :: bool

datatype relay_error =
    InvalidReference string \<comment> \<open>wraps \<open>ErrInvalidFileReference\<close>\<close>
  | FileTooLarge \<comment> \<open>wraps \<open>ErrFileTooLarge\<close>\<close>
  | RefusedAddress ip
  | ResolveFailed string
  | NoUsableAddress string
  | TooManyRedirects
  | RedirectNotAllowed
  | RequestFailed
  | FetchFailed
  | BadStatus nat
  | NilPanic \<comment> \<open>a nil pointer dereference\<close>

type_synonym url_parser = "string \<Rightarrow> parsed_url option"

definition bad_https_url :: "url_parser \<Rightarrow> string \<Rightarrow> bool" where
  "bad_https_url url_parse raw =
     (case url_parse raw of None \<Rightarrow> True
      | Some u \<Rightarrow> pu_scheme u \<noteq> ''https'' \<or> pu_hostname u = [] \<or> pu_user u)"

definition validateHTTPFileURL :: "url_parser \<Rightarrow> string \<Rightarrow> int \<Rightarrow> relay_error option" where
  "validateHTTPFileURL url_parse raw maxBytes =
     (if trim_space raw = [] then None
      else if bad_https_url url_parse raw
      then Some (InvalidReference ''must be an HTTPS URL without user info'')
      else if maxBytes < 0 then Some (InvalidReference ''maxBytes must not be negative'')
      else None)"

record file_reference =
  fr_download_url :: string
  fr_file_id :: string
  fr_mime :: string
  fr_name :: string

text \<open>\<open>filepath.Base\<close> on Unix.\<close>

definition path_base :: "string \<Rightarrow> string" where
  "path_base p =
     (if p = [] then ''.''
      else let q = trim_right CHR ''/'' p
           in if q = [] then ''/'' else rev (takeWhile (\<lambda>c. c \<noteq> CHR ''/'') (rev q)))"

definition bad_file_name :: "string \<Rightarrow> bool" where
  "bad_file_name f =
     (f \<noteq> [] \<and> (let name = path_base f in name \<noteq> f \<or> name = ''.'' \<or> name = ''..''))"

definition ValidateChatGPTFileReference :: "url_parser \<Rightarrow> file_reference \<Rightarrow> int \<Rightarrow> relay_error option" where
  "ValidateChatGPTFileReference url_parse ref maxBytes =
     (if trim_space (fr_file_id ref) = [] then Some (InvalidReference ''file_id is required'')
      else if trim_space (fr_download_url ref) = [] then Some (InvalidReference ''download_url is required'')
      else if validateHTTPFileURL url_parse (fr_download_url ref) maxBytes \<noteq> None
      then Some (InvalidReference ''download_url is invalid'')
      else if bad_file_name (fr_name ref) then Some (InvalidReference ''invalid file_name'')
      else None)"

section \<open>Resolution and redirects\<close>

text \<open>
  The world outside: \<open>netip.ParseAddr\<close>, the resolver at its n-th use (an error or a list of
  addresses), and what the server of a URL answers to the n-th request. A reply has a status,
  a declared length (-1 when there is none) and a body.
\<close>

record 's reply =
  rp_status :: nat
  rp_length :: int
  rp_body :: 's

datatype 's hop = Redirected parsed_url | Reply "'s reply" | Broken

record 's relay_env =
  ev_parse_addr :: "string \<Rightarrow> ip option"
  ev_lookup :: "nat \<Rightarrow> string \<Rightarrow> ip list option"
  ev_serve :: "nat \<Rightarrow> parsed_url \<Rightarrow> 's hop"

fun is4 :: "ip \<Rightarrow> bool" where
  "is4 (V4 a) = True"
| "is4 (V6 w) = False"

definition resolvePublicIP :: "'s relay_env \<Rightarrow> nat \<Rightarrow> string \<Rightarrow> (relay_error, ip) result" where
  "resolvePublicIP env n host =
     (case ev_parse_addr env host of
        Some a \<Rightarrow> if isPrivateIP a then Inl (RefusedAddress a) else Inr a
      | None \<Rightarrow>
          (case ev_lookup env n host of
             None \<Rightarrow> Inl (ResolveFailed host)
           | Some addrs \<Rightarrow>
               let us = map Unmap addrs;
                   ipv4 = find is4 us; ipv6 = find (\<lambda>a. \<not> is4 a) us
               in (case (if ipv4 \<noteq> None then ipv4 else ipv6) of
                     None \<Rightarrow> Inl (NoUsableAddress host)
                   | Some a \<Rightarrow> if isPrivateIP a then Inl (RefusedAddress a) else Inr a)))"

definition rejectPrivateHost :: "'s relay_env \<Rightarrow> nat \<Rightarrow> string \<Rightarrow> relay_error option" where
  "rejectPrivateHost env n host0 =
     (let host = trim_suffix host0 ''.'' in
      case ev_parse_addr env host of
        Some a \<Rightarrow> if isPrivateIP a then Some (RefusedAddress a) else None
      | None \<Rightarrow>
          (case ev_lookup env n host of
             None \<Rightarrow> Some (ResolveFailed host)
           | Some addrs \<Rightarrow>
               if list_ex (\<lambda>a. \<not> isPrivateIP (Unmap a)) addrs then None else Some (NoUsableAddress host)))"

text \<open>\<open>CheckRedirect\<close>, with the number of requests made so far.\<close>

definition check_redirect :: "'s relay_env \<Rightarrow> string list \<Rightarrow> nat \<Rightarrow> parsed_url \<Rightarrow> relay_error option" where
  "check_redirect env allowed via u =
     (if maxRelayRedirects \<le> via then Some TooManyRedirects
      else if pu_scheme u \<noteq> ''https'' \<or> (allowed \<noteq> [] \<and> \<not> hostAllowed (pu_hostname u) allowed)
      then Some RedirectNotAllowed
      else rejectPrivateHost env (2 * via) (pu_hostname u))"

text \<open>
  \<open>client.Do\<close>: each request, with the address it was dialled at when the client carries the
  dial guard, then the reply, or the error of the dial, the redirect check or the server. The
  transport sends a request only for an HTTP scheme and a host.
\<close>

function (sequential) relay_do ::
  "bool \<Rightarrow> string list \<Rightarrow> 's relay_env \<Rightarrow> nat \<Rightarrow> parsed_url \<Rightarrow>
   (parsed_url \<times> ip option) list \<times> (relay_error, 's reply) result" where
  "relay_do guarded allowed env n u =
     (if pu_scheme u \<notin> {''http'', ''https''} \<or> pu_hostname u = [] then ([], Inl FetchFailed) else
      case (if guarded then map_sum (\<lambda>e. e) Some (resolvePublicIP env (2 * n + 1) (pu_hostname u)) else Inr None) of
        Inl e \<Rightarrow> ([], Inl e)
      | Inr dialled \<Rightarrow>
          (case ev_serve env n u of
             Broken \<Rightarrow> ([(u, dialled)], Inl FetchFailed)
           | Reply r \<Rightarrow> ([(u, dialled)], Inr r)
           | Redirected v \<Rightarrow>
               (case check_redirect env allowed (Suc n) v of
                  Some e \<Rightarrow> ([(u, dialled)], Inl e)
                | None \<Rightarrow>
                    (case relay_do guarded allowed env (Suc n) v of
                       (log, res) \<Rightarrow> ((u, dialled) # log, res)))))"
  by pat_completeness auto
termination
  by (relation "measure (\<lambda>(g, al, env, n, u). maxRelayRedirects - n)")
    (auto simp: check_redirect_def split: if_splits)

declare relay_do.simps [simp del]

section \<open>The capped body\<close>

text \<open>\<open>limitedReadCloser.Read\<close>: the state is what may still be taken and the body.\<close>

definition limited_read ::
  "(nat \<Rightarrow> 's \<Rightarrow> (string \<times> 'e read_end) \<times> 's) \<Rightarrow> 'e \<Rightarrow> nat \<Rightarrow> int \<times> 's \<Rightarrow>
   (string \<times> 'e read_end) \<times> (int \<times> 's)" where
  "limited_read read too_large k st =
     (case st of (remaining, s) \<Rightarrow>
        if remaining = 0 then
          (case read 1 s of ((bs, e), s') \<Rightarrow>
             if 0 < length bs then (([], ReadFailed too_large), (0, s')) else (([], e), (0, s')))
        else
          (case read (if remaining < int k then nat remaining else k) s of ((bs, e), s') \<Rightarrow>
             ((bs, e), (remaining - int (length bs), s'))))"

definition limited_rest :: "('s \<Rightarrow> string) \<Rightarrow> int \<times> 's \<Rightarrow> string" where
  "limited_rest rest st = take (nat (fst st)) (rest (snd st))"

definition limited_ending ::
  "('s \<Rightarrow> string) \<Rightarrow> ('s \<Rightarrow> 'e read_end) \<Rightarrow> 'e \<Rightarrow> int \<times> 's \<Rightarrow> 'e read_end" where
  "limited_ending rest ending too_large st =
     (if int (length (rest (snd st))) \<le> fst st then ending (snd st) else ReadFailed too_large)"

section \<open>Fetching\<close>

record relay_options =
  ro_injected :: bool \<comment> \<open>whether an \<open>HTTPClient\<close> is given\<close>
  ro_hosts :: "string list"
  ro_max :: int
  ro_timeout :: duration

text \<open>
  What \<open>OpenFileURL\<close> did: the requests made, the error or the capped body with its declared
  size, whether the request-timeout context was cancelled and whether a body was closed.
\<close>

record 's relay_result =
  rl_log :: "(parsed_url \<times> ip option) list"
  rl_out :: "(relay_error, (int \<times> 's) \<times> int) result"
  rl_cancelled :: bool
  rl_body_closed :: bool

definition OpenFileURL ::
  "url_parser \<Rightarrow> (string \<Rightarrow> bool) \<Rightarrow> 's relay_env \<Rightarrow> string \<Rightarrow> relay_options \<Rightarrow> 's relay_result" where
  "OpenFileURL url_parse request_ok env raw opts =
     (let maxBytes = (if ro_max opts = 0 then defaultRelayMaxBytes else ro_max opts);
          stop = (\<lambda>log e cancelled closed.
            \<lparr>rl_log = log, rl_out = Inl e, rl_cancelled = cancelled, rl_body_closed = closed\<rparr>)
      in case validateHTTPFileURL url_parse raw maxBytes of
           Some e \<Rightarrow> stop [] e False False
         | None \<Rightarrow>
             if ro_hosts opts \<noteq> [] \<and> url_parse raw = None then stop [] NilPanic False False
             else if ro_hosts opts \<noteq> [] \<and> \<not> hostAllowed (pu_hostname (the (url_parse raw))) (ro_hosts opts)
             then stop [] (InvalidReference ''download host is not on the allowed list'') False False
             else
               let timed = 0 < ro_timeout opts
               in (case url_parse raw of
                     None \<Rightarrow> stop [] RequestFailed timed False
                   | Some u \<Rightarrow>
                       if \<not> request_ok raw then stop [] RequestFailed timed False
                       else (case relay_do (\<not> ro_injected opts) (ro_hosts opts) env 0 u of
                          (log, Inl e) \<Rightarrow> stop log e timed False
                        | (log, Inr r) \<Rightarrow>
                            if rp_status r < 200 \<or> 300 \<le> rp_status r
                            then stop log (BadStatus (rp_status r)) timed True
                            else if rp_length r < 0
                            then stop log (InvalidReference ''download size is unknown'') timed True
                            else if maxBytes < rp_length r then stop log FileTooLarge timed True
                            else \<lparr>rl_log = log, rl_out = Inr ((maxBytes, rp_body r), rp_length r),
                                  rl_cancelled = False, rl_body_closed = False\<rparr>)))"

definition OpenChatGPTFile ::
  "url_parser \<Rightarrow> (string \<Rightarrow> bool) \<Rightarrow> 's relay_env \<Rightarrow> file_reference \<Rightarrow> relay_options \<Rightarrow> 's relay_result" where
  "OpenChatGPTFile url_parse request_ok env ref opts =
     (let maxBytes = (if ro_max opts = 0 then defaultRelayMaxBytes else ro_max opts)
      in case ValidateChatGPTFileReference url_parse ref maxBytes of
           Some e \<Rightarrow> \<lparr>rl_log = [], rl_out = Inl e, rl_cancelled = False, rl_body_closed = False\<rparr>
         | None \<Rightarrow>
             let h = (case url_parse (fr_download_url ref) of None \<Rightarrow> [] | Some u \<Rightarrow> pu_hostname u);
                 opts' = (if h \<noteq> [] \<and> chatgptBlobHostAllowed h then opts\<lparr>ro_hosts := ro_hosts opts @ [h]\<rparr> else opts)
             in OpenFileURL url_parse request_ok env (fr_download_url ref) opts')"

text \<open>Closing the body handed to the caller: the connection's body, then the timeout context.\<close>

definition close_body :: "bool \<Rightarrow> 's relay_result \<Rightarrow> 's relay_result" where
  "close_body timed r = r\<lparr>rl_body_closed := True, rl_cancelled := (timed \<or> rl_cancelled r)\<rparr>"

section \<open>Private addresses as ranges\<close>

text \<open>The address ranges the guard refuses, as closed intervals of numbers.\<close>

definition private4_ranges :: "(nat \<times> nat) list" where
  "private4_ranges =
     [(0, 0),
      (10 * 2 ^ 24, 11 * 2 ^ 24 - 1),
      (100 * 2 ^ 24 + 64 * 2 ^ 16, 100 * 2 ^ 24 + 128 * 2 ^ 16 - 1),
      (127 * 2 ^ 24, 128 * 2 ^ 24 - 1),
      (169 * 2 ^ 24 + 254 * 2 ^ 16, 169 * 2 ^ 24 + 255 * 2 ^ 16 - 1),
      (172 * 2 ^ 24 + 16 * 2 ^ 16, 172 * 2 ^ 24 + 32 * 2 ^ 16 - 1),
      (192 * 2 ^ 24, 192 * 2 ^ 24 + 255),
      (192 * 2 ^ 24 + 88 * 2 ^ 16 + 99 * 2 ^ 8, 192 * 2 ^ 24 + 88 * 2 ^ 16 + 99 * 2 ^ 8 + 255),
      (192 * 2 ^ 24 + 168 * 2 ^ 16, 192 * 2 ^ 24 + 169 * 2 ^ 16 - 1),
      (198 * 2 ^ 24 + 18 * 2 ^ 16, 198 * 2 ^ 24 + 20 * 2 ^ 16 - 1),
      (224 * 2 ^ 24, 240 * 2 ^ 24 - 1)]"

definition private6_ranges :: "(nat \<times> nat) list" where
  "private6_ranges =
     [(0, 1), (0xFC00 * 2 ^ 112, 0xFE00 * 2 ^ 112 - 1), (0xFE80 * 2 ^ 112, 0xFEC0 * 2 ^ 112 - 1),
      (0xFF00 * 2 ^ 112, 2 ^ 128 - 1)]"

definition in_ranges :: "(nat \<times> nat) list \<Rightarrow> nat \<Rightarrow> bool" where
  "in_ranges rs n \<longleftrightarrow> list_ex (\<lambda>(lo, hi). lo \<le> n \<and> n \<le> hi) rs"

lemma div_eq_iff: "0 < m \<Longrightarrow> n div m = q \<longleftrightarrow> q * m \<le> n \<and> n < (q + 1) * (m :: nat)"
  by (metis add.commute div_less_iff_less_mult le_antisym less_Suc_eq_le less_eq_div_iff_mult_less_eq
      plus_1_eq_Suc order_refl)

lemma in_prefix_iff:
  "in_prefix len base a \<longleftrightarrow>
     unat a div 2 ^ (LENGTH('a) - len) = unat base div 2 ^ (LENGTH('a) - len)"
  for a base :: "'a::len word"
proof -
  have u: "unat (drop_bit n x) = unat x div 2 ^ n" for n and x :: "'a word"
    unfolding unat_drop_bit_eq by (rule drop_bit_eq_div)
  let ?n = "LENGTH('a) - len"
  show ?thesis
  proof
    assume "in_prefix len base a"
    then have "unat (drop_bit ?n a) = unat (drop_bit ?n base)" by (simp only: in_prefix_def)
    then show "unat a div 2 ^ ?n = unat base div 2 ^ ?n" by (simp only: u)
  next
    assume "unat a div 2 ^ ?n = unat base div 2 ^ ?n"
    then have "unat (drop_bit ?n a) = unat (drop_bit ?n base)" by (simp only: u)
    then show "in_prefix len base a" unfolding in_prefix_def by (rule unsigned_word_eqI)
  qed
qed

lemma unat_small: "n < 2 ^ LENGTH('a) \<Longrightarrow> unat (word_of_nat n :: 'a::len word) = n"
  unfolding unsigned_of_nat of_nat_id by (rule take_bit_nat_eq_self)

lemma unat_v4: "a < 256 \<Longrightarrow> b < 256 \<Longrightarrow> c < 256 \<Longrightarrow> d < 256 \<Longrightarrow>
   unat (v4 a b c d) = ((a * 256 + b) * 256 + c) * 256 + d"
  unfolding v4_def by (rule unat_small) simp

lemma unat_v6_head: "g < 2 ^ 16 \<Longrightarrow> unat (v6_head g) = g * 2 ^ 112"
proof -
  assume g: "g < 2 ^ 16"
  have "v6_head g = word_of_nat (g * 2 ^ 112)"
    unfolding v6_head_def push_bit_eq_mult of_nat_mult of_nat_power by simp
  moreover have "unat (word_of_nat (g * 2 ^ 112) :: 128 word) = g * 2 ^ 112"
  proof (rule unat_small)
    have "g * 2 ^ 112 < 2 ^ 16 * (2 ^ 112 :: nat)" using g by (rule mult_strict_right_mono) simp
    then show "g * 2 ^ 112 < 2 ^ LENGTH(128)" by simp
  qed
  ultimately show ?thesis by simp
qed

lemma prefix_range:
  fixes x base :: "'a::len word"
  assumes "len \<le> LENGTH('a)" and "q * 2 ^ (LENGTH('a) - len) = unat base"
  shows "in_prefix len base x \<longleftrightarrow>
    unat base \<le> unat x \<and> unat x \<le> unat base + 2 ^ (LENGTH('a) - len) - 1"
proof -
  have q: "unat base div 2 ^ (LENGTH('a) - len) = q" unfolding assms(2) [symmetric] by simp
  have "in_prefix len base x \<longleftrightarrow> unat x div 2 ^ (LENGTH('a) - len) = q"
    using q in_prefix_iff [of len base x] by simp
  also have "\<dots> \<longleftrightarrow> q * 2 ^ (LENGTH('a) - len) \<le> unat x \<and> unat x < (q + 1) * 2 ^ (LENGTH('a) - len)"
    by (rule div_eq_iff) simp
  also have "\<dots> \<longleftrightarrow> q * 2 ^ (LENGTH('a) - len) \<le> unat x \<and> unat x \<le> q * 2 ^ (LENGTH('a) - len) + 2 ^ (LENGTH('a) - len) - 1"
  proof -
    have "(1 :: nat) \<le> 2 ^ (LENGTH('a) - len)" by simp
    then show ?thesis unfolding distrib_right mult_1 by linarith
  qed
  finally show ?thesis unfolding assms(2) .
qed

text \<open>The prefixes of the code, as ranges.\<close>

lemma v4_ranges:
  "in_prefix 8 (v4 10 0 0 0) x \<longleftrightarrow> 10 * 2 ^ 24 \<le> unat x \<and> unat x \<le> 11 * 2 ^ 24 - 1"
  "in_prefix 12 (v4 172 16 0 0) x \<longleftrightarrow>
     172 * 2 ^ 24 + 16 * 2 ^ 16 \<le> unat x \<and> unat x \<le> 172 * 2 ^ 24 + 32 * 2 ^ 16 - 1"
  "in_prefix 16 (v4 192 168 0 0) x \<longleftrightarrow>
     192 * 2 ^ 24 + 168 * 2 ^ 16 \<le> unat x \<and> unat x \<le> 192 * 2 ^ 24 + 169 * 2 ^ 16 - 1"
  "in_prefix 8 (v4 127 0 0 0) x \<longleftrightarrow> 127 * 2 ^ 24 \<le> unat x \<and> unat x \<le> 128 * 2 ^ 24 - 1"
  "in_prefix 16 (v4 169 254 0 0) x \<longleftrightarrow>
     169 * 2 ^ 24 + 254 * 2 ^ 16 \<le> unat x \<and> unat x \<le> 169 * 2 ^ 24 + 255 * 2 ^ 16 - 1"
  "in_prefix 24 (v4 224 0 0 0) x \<longleftrightarrow> 224 * 2 ^ 24 \<le> unat x \<and> unat x \<le> 224 * 2 ^ 24 + 255"
  "in_prefix 4 (v4 224 0 0 0) x \<longleftrightarrow> 224 * 2 ^ 24 \<le> unat x \<and> unat x \<le> 240 * 2 ^ 24 - 1"
  "in_prefix 10 (v4 100 64 0 0) x \<longleftrightarrow>
     100 * 2 ^ 24 + 64 * 2 ^ 16 \<le> unat x \<and> unat x \<le> 100 * 2 ^ 24 + 128 * 2 ^ 16 - 1"
  "in_prefix 24 (v4 192 0 0 0) x \<longleftrightarrow> 192 * 2 ^ 24 \<le> unat x \<and> unat x \<le> 192 * 2 ^ 24 + 255"
  "in_prefix 15 (v4 198 18 0 0) x \<longleftrightarrow>
     198 * 2 ^ 24 + 18 * 2 ^ 16 \<le> unat x \<and> unat x \<le> 198 * 2 ^ 24 + 20 * 2 ^ 16 - 1"
  "in_prefix 24 (v4 192 88 99 0) x \<longleftrightarrow>
     192 * 2 ^ 24 + 88 * 2 ^ 16 + 99 * 2 ^ 8 \<le> unat x
     \<and> unat x \<le> 192 * 2 ^ 24 + 88 * 2 ^ 16 + 99 * 2 ^ 8 + 255"
  using prefix_range [of 8 10 "v4 10 0 0 0" x] prefix_range [of 12 "172 * 16 + 1" "v4 172 16 0 0" x]
    prefix_range [of 16 "192 * 256 + 168" "v4 192 168 0 0" x] prefix_range [of 8 127 "v4 127 0 0 0" x]
    prefix_range [of 16 "169 * 256 + 254" "v4 169 254 0 0" x] prefix_range [of 24 "224 * 65536" "v4 224 0 0 0" x]
    prefix_range [of 4 14 "v4 224 0 0 0" x] prefix_range [of 10 "100 * 4 + 1" "v4 100 64 0 0" x]
    prefix_range [of 24 "192 * 65536" "v4 192 0 0 0" x] prefix_range [of 15 "198 * 128 + 9" "v4 198 18 0 0" x]
    prefix_range [of 24 "(192 * 256 + 88) * 256 + 99" "v4 192 88 99 0" x]
  by (simp_all add: unat_v4)

lemma private4: "isPrivateIP (V4 x) \<longleftrightarrow> in_ranges private4_ranges (unat x)"
proof -
  have zero: "x = 0 \<longleftrightarrow> 0 \<le> unat x \<and> unat x \<le> 0" by (simp add: unat_eq_0)
  have multicast: "224 * 2 ^ 24 \<le> unat x \<and> unat x \<le> 224 * 2 ^ 24 + 255 \<Longrightarrow>
      224 * 2 ^ 24 \<le> unat x \<and> unat x \<le> 240 * 2 ^ 24 - 1" by simp
  show ?thesis
    unfolding isPrivateIP_def in_ranges_def private4_ranges_def Let_def Is4In6.simps isIPv4Compatible.simps
      IsPrivate.simps IsLoopback.simps IsLinkLocalUnicast.simps IsLinkLocalMulticast.simps
      IsUnspecified.simps IsMulticast.simps inCIDR_def ip.case if_False v4_ranges zero
      list_ex_Nil_iff list_ex_Cons_iff prod.case
    using multicast by argo
qed

lemma v6_ranges:
  "in_prefix 7 (v6_head 0xFC00) w \<longleftrightarrow> 0xFC00 * 2 ^ 112 \<le> unat w \<and> unat w \<le> 0xFE00 * 2 ^ 112 - 1"
  "in_prefix 10 (v6_head 0xFE80) w \<longleftrightarrow> 0xFE80 * 2 ^ 112 \<le> unat w \<and> unat w \<le> 0xFEC0 * 2 ^ 112 - 1"
  "in_prefix 8 (v6_head 0xFF00) w \<longleftrightarrow> 0xFF00 * 2 ^ 112 \<le> unat w \<and> unat w \<le> 2 ^ 128 - 1"
  using prefix_range [of 7 "0x7E" "v6_head 0xFC00" w] prefix_range [of 10 "0x3FA" "v6_head 0xFE80" w]
    prefix_range [of 8 "0xFF" "v6_head 0xFF00" w]
  by (simp_all add: unat_v6_head)

lemma link_local_multicast6: "drop_bit 112 w AND 0xFF0F = 0xFF02 \<Longrightarrow> in_prefix 8 (v6_head 0xFF00) (w :: 128 word)"
proof -
  assume m: "drop_bit 112 w AND 0xFF0F = 0xFF02"
  have "drop_bit 8 (drop_bit 112 w AND 0xFF0F) = (0xFF :: 128 word)" unfolding m by simp
  then have "drop_bit 120 w AND 0xFF = 0xFF" by (simp add: drop_bit_and)
  moreover have "unat (drop_bit 120 w) < 256"
  proof -
    have "unat w < 2 ^ 128" using unsigned_less [of w, where 'a = nat] by simp
    then have "unat w div 2 ^ 120 < 256" by (simp add: less_mult_imp_div_less)
    then show ?thesis by (simp only: unat_drop_bit_eq drop_bit_eq_div [where ?'a = nat])
  qed
  ultimately have "drop_bit 120 w = 0xFF"
  proof -
    assume a: "drop_bit 120 w AND 0xFF = 0xFF" and b: "unat (drop_bit 120 w) < 256"
    have "unat (take_bit 8 (drop_bit 120 w)) = take_bit 8 (unat (drop_bit 120 w))"
      by (simp only: unsigned_take_bit_eq)
    also have "\<dots> = unat (drop_bit 120 w)" by (rule take_bit_nat_eq_self) (use b in simp)
    finally have "take_bit 8 (drop_bit 120 w) = drop_bit 120 w" by (rule unsigned_word_eqI)
    then show ?thesis using a by (simp add: take_bit_eq_mask mask_numeral)
  qed
  then show ?thesis by (simp add: in_prefix_def v6_head_def)
qed

lemma drop_bit_is:
  assumes "c < 2 ^ LENGTH('a)"
  shows "drop_bit n w = (word_of_nat c :: 'a::len word) \<longleftrightarrow> unat w div 2 ^ n = c"
proof -
  have u: "unat (drop_bit n w) = unat w div 2 ^ n" for w :: "'a word"
    unfolding unat_drop_bit_eq by (rule drop_bit_eq_div)
  show ?thesis
  proof
    assume "drop_bit n w = word_of_nat c"
    then show "unat w div 2 ^ n = c" using u [of w] unat_small [OF assms] by simp
  next
    assume "unat w div 2 ^ n = c"
    then have "unat (drop_bit n w) = unat (word_of_nat c :: 'a word)" using u [of w] unat_small [OF assms] by simp
    then show "drop_bit n w = word_of_nat c" by (rule unsigned_word_eqI)
  qed
qed

lemma high_bits6:
  "drop_bit 32 (w :: 128 word) = 0xFFFF \<longleftrightarrow> unat w div 2 ^ 32 = 0xFFFF"
  "drop_bit 32 (w :: 128 word) = 0 \<longleftrightarrow> unat w div 2 ^ 32 = 0"
  using drop_bit_is [of "0xFFFF" 32 w] drop_bit_is [of 0 32 w] by simp_all

lemma unat_low4: "unat (ucast w :: 32 word) = unat (w :: 128 word) mod 2 ^ 32"
  by (simp add: unsigned_ucast_eq take_bit_eq_mod)

lemma small6: "(w :: 128 word) = 0 \<longleftrightarrow> unat w = 0" "(w :: 128 word) = 1 \<longleftrightarrow> unat w = 1"
  by (simp_all add: word_eq_iff_unsigned [where ?'a = nat])

text \<open>
  C26. Which addresses the dial guard refuses, as number ranges. An IPv4 address is refused
  exactly when it lies in one of eleven ranges (unspecified, private, carrier-grade NAT,
  loopback, link-local, protocol assignments, 6to4 relay, benchmarking, multicast). An IPv6
  address in the mapped form, or in the deprecated compatible form other than the two
  addresses 0 and 1, is classified by the IPv4 address in its low 32 bits; any other is
  refused exactly when it is unspecified, loopback, unique-local, link-local or multicast.
\<close>

theorem private_address_ranges:
  "isPrivateIP a =
    (case a of
       V4 x \<Rightarrow> in_ranges private4_ranges (unat x)
     | V6 w \<Rightarrow>
         if unat w div 2 ^ 32 = 0xFFFF \<or> (unat w div 2 ^ 32 = 0 \<and> 1 < unat w)
         then in_ranges private4_ranges (unat w mod 2 ^ 32)
         else in_ranges private6_ranges (unat w))"
proof (cases a)
  case (V4 x)
  then show ?thesis by (simp only: private4 ip.case)
next
  case (V6 w)
  have compat: "isIPv4Compatible (V6 w) \<longleftrightarrow> unat w div 2 ^ 32 = 0 \<and> 1 < unat w"
    unfolding isIPv4Compatible.simps IsUnspecified.simps IsLoopback.simps high_bits6 unfolding small6 by linarith
  show ?thesis
  proof (cases "unat w div 2 ^ 32 = 0xFFFF \<or> (unat w div 2 ^ 32 = 0 \<and> 1 < unat w)")
    case True
    have "isPrivateIP (V6 w) = isPrivateIP (V4 (ucast w))"
      using True unfolding isPrivateIP_def Let_def compat Is4In6.simps high_bits6
      by (auto simp: Is4In6.simps isIPv4Compatible.simps)
    then show ?thesis using True by (simp only: V6 private4 unat_low4 ip.case if_True)
  next
    case False
    have "isPrivateIP (V6 w) \<longleftrightarrow> IsPrivate (V6 w) \<or> IsLoopback (V6 w) \<or> IsLinkLocalUnicast (V6 w)
        \<or> IsLinkLocalMulticast (V6 w) \<or> IsUnspecified (V6 w) \<or> IsMulticast (V6 w)"
    proof -
      have nm: "\<not> Is4In6 (V6 w)" "\<not> isIPv4Compatible (V6 w)"
        using False unfolding compat Is4In6.simps high_bits6 by blast+
      show ?thesis unfolding isPrivateIP_def Let_def if_not_P [OF nm(1)] if_not_P [OF nm(2)] ip.case by argo
    qed
    also have "\<dots> \<longleftrightarrow> in_ranges private6_ranges (unat w)"
    proof -
      have z: "0 \<le> unat w \<and> unat w \<le> 1 \<longleftrightarrow> unat w = 0 \<or> unat w = 1" by linarith
      show ?thesis unfolding IsPrivate.simps IsLoopback.simps IsLinkLocalUnicast.simps IsLinkLocalMulticast.simps
        IsUnspecified.simps IsMulticast.simps in_ranges_def private6_ranges_def v6_ranges
        list_ex_Nil_iff list_ex_Cons_iff prod.case small6 z
        using link_local_multicast6 [of w] unfolding v6_ranges by blast
    qed
    finally show ?thesis using False by (simp only: V6 ip.case if_False)
  qed
qed

section \<open>The requests of a fetch\<close>

lemma resolved_public: "resolvePublicIP env n host = Inr a \<Longrightarrow> \<not> isPrivateIP a"
  by (auto simp: resolvePublicIP_def Let_def split: option.splits if_splits)

lemma redirect_checked:
  "check_redirect env allowed via u = None \<Longrightarrow>
   via < maxRelayRedirects \<and> pu_scheme u = ''https'' \<and> (allowed = [] \<or> hostAllowed (pu_hostname u) allowed)"
  by (auto simp: check_redirect_def split: if_splits)

definition public_dial :: "bool \<Rightarrow> parsed_url \<times> ip option \<Rightarrow> bool" where
  "public_dial guarded e \<longleftrightarrow> (guarded \<longrightarrow> (case snd e of None \<Rightarrow> False | Some a \<Rightarrow> \<not> isPrivateIP a))"

definition allowed_target :: "string list \<Rightarrow> parsed_url \<Rightarrow> bool" where
  "allowed_target allowed u \<longleftrightarrow>
     pu_scheme u = ''https'' \<and> (allowed = [] \<or> hostAllowed (pu_hostname u) allowed)"

lemma relay_do_log:
  assumes "n < maxRelayRedirects" and "relay_do guarded allowed env n u = (log, res)"
  shows "length log \<le> maxRelayRedirects - n
    \<and> (\<forall>e \<in> set log. public_dial guarded e)
    \<and> (\<forall>e \<in> set log. fst e = u \<or> allowed_target allowed (fst e))"
  using assms
proof (induction guarded allowed env n u arbitrary: log res rule: relay_do.induct)
  case (1 guarded allowed env n u)
  show ?case
  proof (cases "pu_scheme u \<notin> {''http'', ''https''} \<or> pu_hostname u = []")
    case True
    then show ?thesis using "1.prems" by (auto simp: relay_do.simps [of guarded allowed env n u])
  next
    case ok: False
    define dial where "dial = (if guarded
      then map_sum (\<lambda>e. e) Some (resolvePublicIP env (2 * n + 1) (pu_hostname u)) else Inr None)"
    note unf = relay_do.simps [of guarded allowed env n u, folded dial_def]
    show ?thesis
    proof (cases dial)
      case (Inl e)
      then show ?thesis using "1.prems" ok by (auto simp: unf)
    next
      case (Inr d)
      have pub: "public_dial guarded (u, d)"
        using Inr resolved_public [of env "2 * n + 1" "pu_hostname u"]
        by (cases "resolvePublicIP env (2 * n + 1) (pu_hostname u)")
          (auto simp: dial_def public_dial_def split: if_splits)
      show ?thesis
      proof (cases "ev_serve env n u")
        case (Redirected v)
        show ?thesis
        proof (cases "check_redirect env allowed (Suc n) v")
          case (Some e)
          then show ?thesis using "1.prems" ok Inr Redirected pub by (auto simp: unf)
        next
          case None
          obtain log' res' where l: "relay_do guarded allowed env (Suc n) v = (log', res')" by fastforce
          have log: "log = (u, d) # log'" using "1.prems"(2) ok Inr Redirected None l by (auto simp: unf)
          have v: "allowed_target allowed v" "Suc n < maxRelayRedirects"
            using redirect_checked [OF None] by (simp_all add: allowed_target_def)
          have IH: "length log' \<le> maxRelayRedirects - Suc n
              \<and> (\<forall>e \<in> set log'. public_dial guarded e)
              \<and> (\<forall>e \<in> set log'. fst e = v \<or> allowed_target allowed (fst e))"
            using "1.IH" [OF ok, folded dial_def, OF Inr Redirected None v(2) l] .
          then show ?thesis using log pub v by auto
        qed
      qed (use "1.prems" ok Inr pub in \<open>auto simp: unf\<close>)
    qed
  qed
qed

text \<open>What a fetch does, by the outcome of its requests.\<close>

lemma OpenFileURL_cases:
  obtains (stopped) e where "rl_log (OpenFileURL url_parse request_ok env raw opts) = []"
      "rl_out (OpenFileURL url_parse request_ok env raw opts) = Inl e"
      "rl_body_closed (OpenFileURL url_parse request_ok env raw opts) = False"
    | (fetched) u log res where "url_parse raw = Some u"
      "trim_space raw \<noteq> [] \<longrightarrow> pu_scheme u = ''https'' \<and> \<not> pu_user u"
      "ro_hosts opts = [] \<or> hostAllowed (pu_hostname u) (ro_hosts opts)"
      "relay_do (\<not> ro_injected opts) (ro_hosts opts) env 0 u = (log, res)"
      "rl_log (OpenFileURL url_parse request_ok env raw opts) = log"
      "(case res of
          Inl e \<Rightarrow> rl_out (OpenFileURL url_parse request_ok env raw opts) = Inl e
            \<and> \<not> rl_body_closed (OpenFileURL url_parse request_ok env raw opts)
            \<and> rl_cancelled (OpenFileURL url_parse request_ok env raw opts) = (0 < ro_timeout opts)
        | Inr r \<Rightarrow>
            (let maxBytes = (if ro_max opts = 0 then defaultRelayMaxBytes else ro_max opts) in
             if 200 \<le> rp_status r \<and> rp_status r < 300 \<and> 0 \<le> rp_length r \<and> rp_length r \<le> maxBytes
             then rl_out (OpenFileURL url_parse request_ok env raw opts) = Inr ((maxBytes, rp_body r), rp_length r)
               \<and> \<not> rl_body_closed (OpenFileURL url_parse request_ok env raw opts)
               \<and> \<not> rl_cancelled (OpenFileURL url_parse request_ok env raw opts)
             else (\<exists>e. rl_out (OpenFileURL url_parse request_ok env raw opts) = Inl e)
               \<and> rl_body_closed (OpenFileURL url_parse request_ok env raw opts)
               \<and> rl_cancelled (OpenFileURL url_parse request_ok env raw opts) = (0 < ro_timeout opts)))"
proof (cases "validateHTTPFileURL url_parse raw (if ro_max opts = 0 then defaultRelayMaxBytes else ro_max opts)")
  case (Some e)
  then show thesis by (intro stopped [of e]) (simp_all add: OpenFileURL_def Let_def)
next
  case val: None
  show thesis
  proof (cases "url_parse raw")
    case None
    show thesis
      by (cases "ro_hosts opts = []")
        (use val None in \<open>auto intro!: stopped simp: OpenFileURL_def Let_def\<close>)
  next
    case (Some u)
    show thesis
    proof (cases "(ro_hosts opts \<noteq> [] \<and> \<not> hostAllowed (pu_hostname u) (ro_hosts opts)) \<or> \<not> request_ok raw")
      case True
      show thesis
        by (cases "ro_hosts opts \<noteq> [] \<and> \<not> hostAllowed (pu_hostname u) (ro_hosts opts)")
          (use True val Some in \<open>auto intro!: stopped simp: OpenFileURL_def Let_def\<close>)
    next
      case False
      obtain log res where d: "relay_do (\<not> ro_injected opts) (ro_hosts opts) env 0 u = (log, res)" by fastforce
      have u: "trim_space raw \<noteq> [] \<longrightarrow> pu_scheme u = ''https'' \<and> \<not> pu_user u"
        using val Some by (auto simp: validateHTTPFileURL_def bad_https_url_def split: if_splits)
      note unf = OpenFileURL_def Let_def val Some d
      have pass: "\<not> (ro_hosts opts \<noteq> [] \<and> \<not> hostAllowed (pu_hostname u) (ro_hosts opts))" "request_ok raw"
        using False by blast+
      show thesis
      proof (rule fetched [OF Some u _ d])
        show "ro_hosts opts = [] \<or> hostAllowed (pu_hostname u) (ro_hosts opts)" using pass by blast
      next
        show "rl_log (OpenFileURL url_parse request_ok env raw opts) = log"
          using pass by (cases res) (auto simp: unf)
      next
        show "case res of
            Inl e \<Rightarrow> rl_out (OpenFileURL url_parse request_ok env raw opts) = Inl e
              \<and> \<not> rl_body_closed (OpenFileURL url_parse request_ok env raw opts)
              \<and> rl_cancelled (OpenFileURL url_parse request_ok env raw opts) = (0 < ro_timeout opts)
          | Inr r \<Rightarrow>
              (let maxBytes = (if ro_max opts = 0 then defaultRelayMaxBytes else ro_max opts) in
               if 200 \<le> rp_status r \<and> rp_status r < 300 \<and> 0 \<le> rp_length r \<and> rp_length r \<le> maxBytes
               then rl_out (OpenFileURL url_parse request_ok env raw opts) = Inr ((maxBytes, rp_body r), rp_length r)
                 \<and> \<not> rl_body_closed (OpenFileURL url_parse request_ok env raw opts)
                 \<and> \<not> rl_cancelled (OpenFileURL url_parse request_ok env raw opts)
               else (\<exists>e. rl_out (OpenFileURL url_parse request_ok env raw opts) = Inl e)
                 \<and> rl_body_closed (OpenFileURL url_parse request_ok env raw opts)
                 \<and> rl_cancelled (OpenFileURL url_parse request_ok env raw opts) = (0 < ro_timeout opts))"
        proof (cases res)
          case (Inl e)
          then show ?thesis using pass by (auto simp: unf)
        next
          case (Inr r)
          let ?max = "if ro_max opts = 0 then defaultRelayMaxBytes else ro_max opts"
          consider "rp_status r < 200 \<or> 300 \<le> rp_status r"
            | "200 \<le> rp_status r" "rp_status r < 300" "rp_length r < 0"
            | "200 \<le> rp_status r" "rp_status r < 300" "0 \<le> rp_length r" "?max < rp_length r"
            | "200 \<le> rp_status r" "rp_status r < 300" "0 \<le> rp_length r" "rp_length r \<le> ?max"
            by linarith
          then show ?thesis using pass by cases (auto simp: unf Inr)
        qed
      qed
    qed
  qed
qed


section \<open>What the caller is handed\<close>


sublocale capped_source \<subseteq> limited: byte_source
  "limited_read read too_large" "limited_rest rest" "limited_ending rest ending too_large"
  "\<lambda>st. 0 \<le> fst st \<and> inv (snd st)"
proof (unfold_locales, goal_cases)
  case (1 st k)
  then show ?case
    using read_len [of "snd st" "if fst st < int k then nat (fst st) else k"]
    by (auto simp: limited_read_def split: prod.split if_splits)
next
  case (2 st k bs st')
  obtain m s where st: "st = (m, s)" by (cases st)
  have i: "inv s" "0 \<le> m" using 2(1) by (simp_all add: st)
  show ?case
  proof (cases "m = 0")
    case True
    obtain cs e s' where r: "read 1 s = ((cs, e), s')" by (metis surj_pair)
    have "cs = []" "e = More" using 2(2) r by (auto simp: limited_read_def st True split: if_splits)
    then show ?thesis using read_progress [OF i(1), of 1 cs s'] r by simp
  next
    case False
    let ?k = "if m < int k then nat m else k"
    obtain s' where r: "read ?k s = ((bs, More), s')" and st': "st' = (m - int (length bs), s')"
      using 2(2) False by (auto simp: limited_read_def st split: prod.splits)
    have m: "rest s = bs @ rest s'" "ending s' = ending s" "inv s'" using read_more [OF i(1) r] by blast+
    have "length bs \<le> ?k" using read_len [OF i(1), of ?k] r by simp
    then have l: "int (length bs) \<le> m" using i(2) by (auto split: if_splits)
    then have "length bs \<le> nat m" by simp
    moreover have "nat m - length bs = nat (m - int (length bs))" using l by simp
    ultimately show ?thesis using m l by (simp add: st st' limited_rest_def limited_ending_def)
  qed
next
  case (3 st k bs e st')
  obtain m s where st: "st = (m, s)" by (cases st)
  have i: "inv s" "0 \<le> m" using 3(1) by (simp_all add: st)
  show ?case
  proof (cases "m = 0")
    case True
    obtain cs e' s' where r: "read 1 s = ((cs, e'), s')" by (metis surj_pair)
    show ?thesis
    proof (cases "cs = []")
      case True
      then have "e' = e" "bs = []" using 3(2) r by (simp_all add: limited_read_def st \<open>m = 0\<close>)
      then show ?thesis using read_end [OF i(1) r] 3(3) True
        by (simp add: st limited_rest_def limited_ending_def \<open>m = 0\<close>)
    next
      case False
      have "rest s \<noteq> []"
        using False read_more [OF i(1), of 1 cs s'] read_end [OF i(1), of 1 cs e' s'] r by (cases "e' = More") auto
      then show ?thesis using 3(2) r False by (auto simp: st limited_rest_def limited_ending_def limited_read_def \<open>m = 0\<close>)
    qed
  next
    case False
    let ?k = "if m < int k then nat m else k"
    obtain s' where r: "read ?k s = ((bs, e), s')"
      using 3(2) False by (auto simp: limited_read_def st split: prod.splits)
    have "length bs \<le> ?k" using read_len [OF i(1), of ?k] r by simp
    then have l: "int (length bs) \<le> m" using i(2) by (auto split: if_splits)
    then have "length bs \<le> nat m" by simp
    then show ?thesis using read_end [OF i(1) r 3(3)] l by (simp add: st limited_rest_def limited_ending_def)
  qed
next
  case (4 st k bs st')
  obtain m s where st: "st = (m, s)" by (cases st)
  have i: "inv s" "0 \<le> m" using 4(1) by (simp_all add: st)
  show ?case
  proof (cases "m = 0")
    case True
    obtain cs e s' where r: "read 1 s = ((cs, e), s')" by (metis surj_pair)
    have "cs = []" "e = More" using 4(3) r by (auto simp: limited_read_def st True split: if_splits)
    then show ?thesis using read_progress [OF i(1), of 1 cs s'] r by simp
  next
    case False
    let ?k = "if m < int k then nat m else k"
    obtain s' where r: "read ?k s = ((bs, More), s')"
      using 4(3) False by (auto simp: limited_read_def st split: prod.splits)
    have "0 < ?k" using False i(2) 4(2) by simp
    then show ?thesis using read_progress [OF i(1) _ r] by simp
  qed
next
  case (5 st)
  then show ?case using ending_final by (simp add: limited_ending_def)
qed

interpretation relay_body: capped_source any_read ar_data ar_end ar_ok FileTooLarge
  by unfold_locales

text \<open>
  C27. The body handed over delivers the server's bytes up to the limit, whatever the chunks and
  the buffers. When the body fits it arrives whole, with its own ending; when it is longer the
  caller reads exactly the first bytes up to the limit and then the too-large error, also when
  the server declared a smaller length.
\<close>

theorem relay_body_capped:
  assumes "rl_out (OpenFileURL url_parse request_ok env raw opts) = Inr ((m, body), declared)"
    and "ar_ok body" and "0 \<notin> set ks" and "length (ar_data body) < length ks"
  shows "drain (limited_read any_read FileTooLarge) ks (m, body) =
    (if int (length (ar_data body)) \<le> m then (ar_data body, ar_end body)
     else (take (nat m) (ar_data body), ReadFailed FileTooLarge))"
proof (cases rule: OpenFileURL_cases [of url_parse request_ok env raw opts])
  case (stopped e)
  then show ?thesis using assms(1) by simp
next
  case (fetched u log res)
  have m: "0 \<le> m" using fetched(6) assms(1) by (cases res) (auto simp: Let_def split: if_splits)
  have l: "length (limited_rest ar_data (m, body)) < length ks"
    using assms(4) by (simp add: limited_rest_def)
  have "drain (limited_read any_read FileTooLarge) ks (m, body)
      = (limited_rest ar_data (m, body), limited_ending ar_data ar_end FileTooLarge (m, body))"
    by (rule relay_body.limited.drain_all [OF _ assms(3) l]) (use m assms(2) in simp)
  then show ?thesis by (simp add: limited_rest_def limited_ending_def)
qed

section \<open>Corners of the checks\<close>

text \<open>
  A blank URL passes validation, since "required" is left to the callers, and the parse error
  of the second \<open>url.Parse\<close> is dropped: with an allowlist the nil URL is dereferenced.
\<close>

theorem blank_url_panics:
  assumes "trim_space raw = []" and "url_parse raw = None" and "ro_hosts opts \<noteq> []"
  shows "rl_out (OpenFileURL url_parse request_ok env raw opts) = Inl NilPanic"
  using assms by (simp add: OpenFileURL_def validateHTTPFileURL_def Let_def)

text \<open>A blank allowlist entry admits every host written with its final dot.\<close>

theorem blank_entry_admits_rooted_hosts:
  assumes "has_suffix host ''.''"
  shows "hostAllowed host ('' '' # allowed)"
proof -
  obtain h where h: "host = h @ ''.''" using assms unfolding has_suffix_iff by blast
  have c: "to_lower (trim_space '' '') = []" by code_simp
  have dot: "lower_char CHR ''.'' = CHR ''.''" by code_simp
  have "has_suffix (to_lower host) ''.''"
    unfolding h has_suffix_iff by (rule exI [of _ "to_lower h"]) (simp add: to_lower_def dot)
  then show ?thesis unfolding hostAllowed_def Let_def list_ex_Cons_iff c by simp
qed

section \<open>Witnesses\<close>

text \<open>
  A fetch with a redirect: the resolver answers a private address at one lookup and a public
  one otherwise, and the server declares less than it sends.
\<close>

definition demo_url :: "string \<Rightarrow> parsed_url option" where
  "demo_url raw =
     (if raw = ''https://files.example.com/a''
      then Some \<lparr>pu_scheme = ''https'', pu_hostname = ''files.example.com'', pu_user = False\<rparr>
      else None)"

definition demo_env :: "relay_error any_reader relay_env" where
  "demo_env =
     \<lparr>ev_parse_addr = (\<lambda>s. None),
      ev_lookup = (\<lambda>n host. Some [if n = 7 then V4 (v4 10 0 0 1) else V4 (v4 93 184 215 14)]),
      ev_serve = (\<lambda>n u. if n = 0
        then Redirected \<lparr>pu_scheme = ''https'', pu_hostname = ''cdn.example.com'', pu_user = False\<rparr>
        else Reply \<lparr>rp_status = 200, rp_length = 3,
          rp_body = \<lparr>ar_data = ''abcdef'', ar_end = AtEOF, ar_chunks = [2, 3], ar_joint = True\<rparr>\<rparr>)\<rparr>"

definition demo_opts :: relay_options where
  "demo_opts = \<lparr>ro_injected = False, ro_hosts = [''example.com''], ro_max = 4, ro_timeout = 30\<rparr>"

lemma demo_address: "resolvePublicIP demo_env n h = Inr (V4 (v4 93 184 215 14))" if "n \<noteq> 7"
proof -
  have "\<not> isPrivateIP (V4 (v4 93 184 215 14))"
    by (simp add: private4 in_ranges_def private4_ranges_def unat_v4)
  then show ?thesis using that by (simp add: resolvePublicIP_def demo_env_def Let_def Unmap_def)
qed

lemma demo_strings:
  "trim_space ''https://files.example.com/a'' \<noteq> []" "trim_suffix ''cdn.example.com'' ''.'' = ''cdn.example.com''"
  "hostAllowed ''files.example.com'' [''example.com'']" "hostAllowed ''cdn.example.com'' [''example.com'']"
  by code_simp+

lemma demo_redirect:
  "check_redirect demo_env [''example.com''] (Suc 0)
     \<lparr>pu_scheme = ''https'', pu_hostname = ''cdn.example.com'', pu_user = False\<rparr> = None"
proof -
  have "\<not> isPrivateIP (V4 (v4 93 184 215 14))"
    by (simp add: private4 in_ranges_def private4_ranges_def unat_v4)
  then show ?thesis
    by (simp add: check_redirect_def rejectPrivateHost_def demo_strings demo_env_def Unmap_def maxRelayRedirects_def)
qed

lemma demo_fetch:
  "rl_out (OpenFileURL demo_url (\<lambda>s. True) demo_env ''https://files.example.com/a'' demo_opts) =
     Inr ((4, \<lparr>ar_data = ''abcdef'', ar_end = AtEOF, ar_chunks = [2, 3], ar_joint = True\<rparr>), 3)"
proof -
  have second: "ev_serve demo_env 0 \<lparr>pu_scheme = ''https'', pu_hostname = ''files.example.com'', pu_user = False\<rparr>
      = Redirected \<lparr>pu_scheme = ''https'', pu_hostname = ''cdn.example.com'', pu_user = False\<rparr>"
    "ev_serve demo_env (Suc 0) u = Reply \<lparr>rp_status = 200, rp_length = 3,
          rp_body = \<lparr>ar_data = ''abcdef'', ar_end = AtEOF, ar_chunks = [2, 3], ar_joint = True\<rparr>\<rparr>" for u
    by (simp_all add: demo_env_def)
  show ?thesis
    by (simp add: OpenFileURL_def validateHTTPFileURL_def bad_https_url_def demo_strings demo_opts_def
        demo_url_def relay_do.simps demo_address second demo_redirect)
qed


theorem relay_body_capped_witness:
  "drain (limited_read any_read FileTooLarge) [1, 2, 3, 4, 5, 6, 7]
     (4, \<lparr>ar_data = ''abcdef'', ar_end = AtEOF, ar_chunks = [2, 3], ar_joint = True\<rparr>)
   = (''abcd'', ReadFailed FileTooLarge)"
  using relay_body_capped [OF demo_fetch, of "[1, 2, 3, 4, 5, 6, 7]"] by (simp add: ar_ok_def)

end
