(* ===== verification/UploadHttp.thy ===== *)
theory UploadHttp
  imports UploadTasks Loopback Http Contracts FileRelay
begin

text \<open>
  \<open>transfer/upload_http.go\<close>: the coordinator of the one-time PUT endpoints. It keeps the
  minted tokens and a back reference from each prepared handle to its token, and feeds the
  upload task manager. Each locked section is one function of the state; \<open>putHandler\<close>
  composes them with the steps other goroutines take in between (\<open>mid1\<close>, \<open>mid2\<close>). Fresh
  tokens and handles, the clocks and the outcome of \<open>net.Listen\<close> are arguments; the CORS
  wrapper around the route is a library and is not modelled.
\<close>

section \<open>State\<close>

record upload_token =
  tn_name :: string
  tn_expires :: time
  tn_used :: bool
  tn_handle :: string
  tn_jwt :: string

record 'r upload =
  cu_loopback :: loopback
  cu_tokens :: "(string, upload_token) gomap"
  cu_byHandle :: "(string, string) gomap"
  cu_maxBytes :: int
  cu_tasks :: "'r manager"

text \<open>The zero manager a nil argument is replaced with: nothing is configured.\<close>

definition zero_manager :: "'r manager" where
  "zero_manager =
     \<lparr>um_tasks = [], um_tombs = [], um_order = [], um_exec = False, um_ttl = 0, um_MaxActive = 0,
      um_PreparedTTL = 0, um_MaxPrepared = 0, um_ExecTimeout = 0\<rparr>"

definition NewHTTPUpload :: "'r manager option \<Rightarrow> int \<Rightarrow> 'r upload" where
  "NewHTTPUpload tasks maxBytes =
     \<lparr>cu_loopback = new_loopback, cu_tokens = [], cu_byHandle = [],
      cu_maxBytes = (if maxBytes \<le> 0 then EffectiveRelayMaxBytes 0 else maxBytes),
      cu_tasks = (case tasks of None \<Rightarrow> zero_manager | Some m \<Rightarrow> m)\<rparr>"

definition up_MaxBytes :: "'r upload \<Rightarrow> int" where
  "up_MaxBytes cu = cu_maxBytes cu"

definition up_Tasks :: "'r upload \<Rightarrow> 'r manager" where
  "up_Tasks cu = cu_tasks cu"

definition up_SetBaseURL :: "string \<Rightarrow> 'r upload \<Rightarrow> 'r upload" where
  "up_SetBaseURL url cu = cu\<lparr>cu_loopback := lb_SetBaseURL url (cu_loopback cu)\<rparr>"

definition up_AddTrustedOrigins :: "string list \<Rightarrow> 'r upload \<Rightarrow> 'r upload" where
  "up_AddTrustedOrigins origins cu = cu\<lparr>cu_loopback := AddTrustedOrigins origins (cu_loopback cu)\<rparr>"

definition ConnectOrigins :: "('e, string) result \<Rightarrow> 'r upload \<Rightarrow> string list \<times> 'r upload" where
  "ConnectOrigins listen cu =
     (let lb = snd (EnsureLoopback listen (cu_loopback cu))
      in ([Origin lb], cu\<lparr>cu_loopback := lb\<rparr>))"

definition up_Stop :: "'r upload \<Rightarrow> 'r upload" where
  "up_Stop cu = cu\<lparr>cu_loopback := lb_Stop (cu_loopback cu)\<rparr>"

section \<open>Minting and claiming\<close>

definition prune_token :: "time \<Rightarrow> string \<times> upload_token \<Rightarrow> 'r upload \<Rightarrow> 'r upload" where
  "prune_token now e cu =
     (if after now (tn_expires (snd e)) then
        let c = cu\<lparr>cu_tokens := gdel (fst e) (cu_tokens cu)\<rparr>
        in if tn_handle (snd e) \<noteq> [] then c\<lparr>cu_byHandle := gdel (tn_handle (snd e)) (cu_byHandle c)\<rparr> else c
      else cu)"

definition up_prune :: "time \<Rightarrow> 'r upload \<Rightarrow> 'r upload" where
  "up_prune now cu = fold (prune_token now) (cu_tokens cu) cu"

definition up_Mint ::
  "('e, string) result \<Rightarrow> string \<Rightarrow> time \<Rightarrow> time \<Rightarrow> go_context \<Rightarrow> string \<Rightarrow> duration \<Rightarrow> 'r upload \<Rightarrow>
   string \<times> 'r upload" where
  "up_Mint listen token t1 t2 ctx name ttl cu =
     (case EnsureLoopback listen (cu_loopback cu) of
        ((Some e, started), lb) \<Rightarrow> ([], cu\<lparr>cu_loopback := lb\<rparr>)
      | ((None, started), lb) \<Rightarrow>
          let name' = (if name = [] then DefaultUploadName else name);
              ttl' = (if ttl \<le> 0 then DefaultHTTPUploadTTL else ttl);
              c = up_prune t1 (cu\<lparr>cu_loopback := lb\<rparr>);
              tok = \<lparr>tn_name = name', tn_expires = t2 + ttl', tn_used = False, tn_handle = [],
                     tn_jwt = cred_From ctx\<rparr>
          in (URLFor ''upload'' token lb, c\<lparr>cu_tokens := gset token tok (cu_tokens c)\<rparr>))"

text \<open>
  \<open>Prepare\<close>: the URL and the handle, both empty on an error. The manager's clocks are \<open>now\<close>
  and \<open>tp\<close>, the coordinator's \<open>t1\<close> and \<open>t2\<close>.
\<close>

definition up_Prepare ::
  "('e, string) result \<Rightarrow> string \<Rightarrow> string \<Rightarrow> time \<Rightarrow> time \<Rightarrow> time \<Rightarrow> time \<Rightarrow> go_context \<Rightarrow> string \<Rightarrow>
   duration \<Rightarrow> prepare_option option list \<Rightarrow> 'r upload \<Rightarrow> (string \<times> string) \<times> 'r upload" where
  "up_Prepare listen token hid now tp t1 t2 ctx name ttl opts cu =
     (case EnsureLoopback listen (cu_loopback cu) of
        ((Some e, started), lb) \<Rightarrow> (([], []), cu\<lparr>cu_loopback := lb\<rparr>)
      | ((None, started), lb) \<Rightarrow>
          let name' = (if name = [] then DefaultUploadName else name);
              ttl' = (if ttl \<le> 0 then DefaultHTTPUploadTTL else ttl);
              cu1 = cu\<lparr>cu_loopback := lb\<rparr>
          in (case um_Prepare hid now tp name' ttl' opts (cu_tasks cu1) of
                (Inl err, m) \<Rightarrow> (([], []), cu1\<lparr>cu_tasks := m\<rparr>)
              | (Inr h, m) \<Rightarrow>
                  let c = up_prune t1 (cu1\<lparr>cu_tasks := m\<rparr>);
                      tok = \<lparr>tn_name = name', tn_expires = t2 + ttl', tn_used = False, tn_handle = h,
                             tn_jwt = cred_From ctx\<rparr>
                  in ((URLFor ''upload'' token lb, h),
                      c\<lparr>cu_tokens := gset token tok (cu_tokens c),
                        cu_byHandle := gset h token (cu_byHandle c)\<rparr>)))"

definition FindUpload :: "time \<Rightarrow> string \<Rightarrow> 'r upload \<Rightarrow> string \<times> bool" where
  "FindUpload now handle cu =
     (case gget (cu_byHandle cu) handle of
        None \<Rightarrow> ([], False)
      | Some token \<Rightarrow>
          (case gget (cu_tokens cu) token of
             None \<Rightarrow> ([], False)
           | Some t \<Rightarrow> if tn_used t \<or> after now (tn_expires t) then ([], False)
                       else (URLFor ''upload'' token (cu_loopback cu), True)))"

text \<open>\<open>claim\<close>: the name, the handle and the credential of the token, when it is accepted.\<close>

definition up_claim :: "time \<Rightarrow> string \<Rightarrow> 'r upload \<Rightarrow> (string \<times> string \<times> string) option \<times> 'r upload" where
  "up_claim now token cu =
     (case gget (cu_tokens cu) token of
        None \<Rightarrow> (None, cu)
      | Some t \<Rightarrow>
          let c = (if tn_handle t \<noteq> [] then cu\<lparr>cu_byHandle := gdel (tn_handle t) (cu_byHandle cu)\<rparr> else cu)
          in if tn_used t \<or> after now (tn_expires t)
             then (None, c\<lparr>cu_tokens := gdel token (cu_tokens c)\<rparr>)
             else (Some (tn_name t, tn_handle t, tn_jwt t),
                   c\<lparr>cu_tokens := gset token (t\<lparr>tn_used := True\<rparr>) (cu_tokens c)\<rparr>))"

section \<open>Receiving a body\<close>

text \<open>
  The reads of a request body: the sizes of its successive chunks, then the end of the body
  or a transfer error; the declared length is \<open>r.ContentLength\<close>.
\<close>

datatype body_end = BodyEOF | BodyFailed

record put_body =
  pb_chunks :: "nat list"
  pb_end :: body_end
  pb_length :: int

datatype copy_error = BodyTooLarge | BodyReadError | ClosedPipe

text \<open>
  \<open>io.Copy(pw, http.MaxBytesReader(w, r.Body, rem))\<close>. \<open>pipe\<close> is the number of bytes the
  reading end takes before it is closed, \<open>None\<close> when it takes them all. A read past the limit
  delivers what fits, which is written, and then the error.
\<close>

definition pipe_takes :: "nat option \<Rightarrow> nat \<Rightarrow> bool" where
  "pipe_takes pipe n = (n = 0 \<or> (case pipe of None \<Rightarrow> True | Some k \<Rightarrow> n \<le> k))"

fun copy_body :: "int \<Rightarrow> nat option \<Rightarrow> nat list \<Rightarrow> body_end \<Rightarrow> copy_error option" where
  "copy_body rem pipe [] e = (case e of BodyEOF \<Rightarrow> None | BodyFailed \<Rightarrow> Some BodyReadError)"
| "copy_body rem pipe (n # ns) e =
     (if rem < int n
      then if pipe_takes pipe (nat rem) then Some BodyTooLarge else Some ClosedPipe
      else if pipe_takes pipe n then copy_body (rem - int n) (map_option (\<lambda>k. k - n) pipe) ns e
      else Some ClosedPipe)"

text \<open>
  \<open>%q\<close> and the JSON string of a handle: handles and states need no escapes. The texts are
  those of the errors \<open>Start\<close>, \<open>Prepare\<close> and \<open>Fulfill\<close> return.
\<close>

definition quoted :: "string \<Rightarrow> string" where
  "quoted s = [CHR 0x22] @ s @ [CHR 0x22]"

fun state_text :: "upload_state \<Rightarrow> string" where
  "state_text Prepared = ''prepared''"
| "state_text Queued = ''queued''"
| "state_text Running = ''running''"
| "state_text Completed = ''completed''"
| "state_text Failed = ''failed''"
| "state_text Cancelled = ''cancelled''"
| "state_text Expired = ''expired''"

fun upload_error_text :: "upload_error \<Rightarrow> string" where
  "upload_error_text NotConfigured = ''upload executor is not configured''"
| "upload_error_text TooManyActive = ''too many concurrent async uploads''"
| "upload_error_text TooManyPrepared = ''too many unresolved upload preparations''"
| "upload_error_text (UnknownHandle k) = ''unknown upload handle '' @ quoted k"
| "upload_error_text (HandleExpired k) =
     ''upload handle '' @ quoted k @ '' has expired; start a fresh upload''"
| "upload_error_text (InProgress k) =
     ''upload '' @ quoted k @ '' is already in progress; refusing a second fulfillment''"
| "upload_error_text (AlreadyFinished k s) =
     ''upload '' @ quoted k @ '' already finished (state '' @ state_text s @ ''); refusing a second fulfillment''"
| "upload_error_text (CannotFulfill k s) =
     ''upload '' @ quoted k @ '' cannot be fulfilled from state '' @ state_text s"
| "upload_error_text (NotCancellable k s) =
     ''upload '' @ quoted k @ '' is not cancellable (state '' @ state_text s @ '')''"

text \<open>\<open>Cancel\<close> as its caller sees it: the locked section, then the reader is closed.\<close>

definition cancel_upload :: "time \<Rightarrow> string \<Rightarrow> 'r manager \<Rightarrow> nat list \<times> 'r manager" where
  "cancel_upload now tid m =
     (case um_Cancel now tid m of
        (Some err, m') \<Rightarrow> ([], m')
      | (None, m') \<Rightarrow>
          (case gget (um_tasks m') tid of
             None \<Rightarrow> ([], m')
           | Some t \<Rightarrow> (case closeReader t of (cl, t') \<Rightarrow> (cl, m'\<lparr>um_tasks := gset tid t' (um_tasks m')\<rparr>))))"

text \<open>
  The answer to a PUT, what was handed to the executor (the handle, the call and the
  credential on its context), and the readers closed on the way.
\<close>

record put_reply =
  pr_response :: http_response
  pr_executed :: "(string \<times> exec_call \<times> string) option"
  pr_closed :: "nat list"

definition refused :: "http_response \<Rightarrow> put_reply" where
  "refused resp = \<lparr>pr_response = resp, pr_executed = None, pr_closed = []\<rparr>"

text \<open>What the handler uses of the world: clocks, the fresh handle and pipe of this request.\<close>

record put_env =
  pe_claim :: time
  pe_now :: time
  pe_t1 :: time
  pe_t2 :: time
  pe_cancel :: time
  pe_fresh :: string
  pe_pipe :: nat
  pe_takes :: "nat option"

definition hand_over ::
  "put_env \<Rightarrow> string \<Rightarrow> string \<Rightarrow> int \<Rightarrow> 'r manager \<Rightarrow>
   ((upload_error, string \<times> exec_call) result \<times> nat list) \<times> 'r manager" where
  "hand_over env name handle len m =
     (if handle \<noteq> [] then
        (case um_Fulfill handle (pe_t1 env) (pe_t2 env) (pe_pipe env) len name False m of
           ((Inl err, cl), m') \<Rightarrow> ((Inl err, cl), m')
         | ((Inr xc, cl), m') \<Rightarrow> ((Inr (handle, xc), cl), m'))
      else um_Start (pe_fresh env) (pe_now env) (pe_t1 env) (pe_t2 env) (pe_pipe env) len name False m)"

definition accepted_response :: "string \<Rightarrow> http_response" where
  "accepted_response tid =
     \<lparr>hr_status = 202, hr_headers = [(''Content-Type'', ''application/json'')],
      hr_body = ''{'' @ quoted ''upload_handle'' @ '':'' @ quoted tid @ ''}'' @ [CHR 0x0A]\<rparr>"

definition putHandler ::
  "put_env \<Rightarrow> ('r upload \<Rightarrow> 'r upload) \<Rightarrow> ('r upload \<Rightarrow> 'r upload) \<Rightarrow> go_context \<Rightarrow> http_request \<Rightarrow>
   put_body \<Rightarrow> 'r upload \<Rightarrow> put_reply \<times> 'r upload" where
  "putHandler env mid1 mid2 rctx r body cu =
     (if rq_method r \<noteq> ''PUT'' then
        (refused (http_Error [(''Allow'', ''PUT'')] ''method not allowed'' 405), cu)
      else
        let token = trim_prefix (rq_path r) ''/upload/''
        in if token = [] then (refused http_NotFound, cu)
           else (case up_claim (pe_claim env) token cu of
              (None, c0) \<Rightarrow>
                (refused (http_Error [] ''invalid, expired, or already-used upload endpoint'' 404), c0)
            | (Some (name, handle, jwt), c0) \<Rightarrow>
                let ctx = cred_With (WithoutCancel rctx) jwt; c1 = mid1 c0
                in (case hand_over env name handle (pb_length body) (cu_tasks c1) of
                  ((Inl err, cl), m) \<Rightarrow>
                    (\<lparr>pr_response = http_Error [] (upload_error_text err) 500,
                      pr_executed = None, pr_closed = cl\<rparr>, c1\<lparr>cu_tasks := m\<rparr>)
                | ((Inr (tid, xc), cl), m) \<Rightarrow>
                    let c2 = mid2 (c1\<lparr>cu_tasks := m\<rparr>); executed = Some (tid, xc, cred_From ctx)
                    in (case copy_body (cu_maxBytes cu) (pe_takes env) (pb_chunks body) (pb_end body) of
                      Some err \<Rightarrow>
                        (case cancel_upload (pe_cancel env) tid (cu_tasks c2) of (cl', m') \<Rightarrow>
                          (\<lparr>pr_response = http_Error [] ''request body not fully received''
                              (if err = BodyTooLarge then 413 else 500),
                            pr_executed = executed, pr_closed = cl @ cl'\<rparr>, c2\<lparr>cu_tasks := m'\<rparr>))
                    | None \<Rightarrow>
                        (\<lparr>pr_response = accepted_response tid, pr_executed = executed, pr_closed = cl\<rparr>, c2)))))"

section \<open>The tokens and the back references\<close>

abbreviation token_dead :: "time \<Rightarrow> upload_token \<Rightarrow> bool" where
  "token_dead now t \<equiv> tn_used t \<or> after now (tn_expires t)"

text \<open>What a prune does, field by field.\<close>

lemma prune_fold_fields [simp]:
  "cu_loopback (fold (prune_token now) es cu) = cu_loopback cu"
  "cu_maxBytes (fold (prune_token now) es cu) = cu_maxBytes cu"
  "cu_tasks (fold (prune_token now) es cu) = cu_tasks cu"
  by (induction es arbitrary: cu) (simp_all add: prune_token_def Let_def)

lemma prune_fold_tokens:
  "gget (cu_tokens (fold (prune_token now) es cu)) k =
     (if \<exists>t. (k, t) \<in> set es \<and> after now (tn_expires t) then None else gget (cu_tokens cu) k)"
  by (induction es arbitrary: cu) (auto simp: prune_token_def Let_def)

lemma prune_token_handles:
  "gget (cu_byHandle (prune_token now e cu)) h =
     (if h \<noteq> [] \<and> after now (tn_expires (snd e)) \<and> tn_handle (snd e) = h
      then None else gget (cu_byHandle cu) h)"
  by (simp add: prune_token_def Let_def)

lemma prune_fold_handles:
  "gget (cu_byHandle (fold (prune_token now) es cu)) h =
     (if h \<noteq> [] \<and> (\<exists>k t. (k, t) \<in> set es \<and> after now (tn_expires t) \<and> tn_handle t = h)
      then None else gget (cu_byHandle cu) h)"
proof (induction es arbitrary: cu)
  case Nil
  then show ?case by simp
next
  case (Cons e es)
  have ex: "(\<exists>k t. (k, t) \<in> set (e # es) \<and> after now (tn_expires t) \<and> tn_handle t = h) \<longleftrightarrow>
      (after now (tn_expires (snd e)) \<and> tn_handle (snd e) = h)
      \<or> (\<exists>k t. (k, t) \<in> set es \<and> after now (tn_expires t) \<and> tn_handle t = h)"
    by (cases e) auto
  show ?case
    unfolding ex fold_Cons o_apply Cons.IH [of "prune_token now e cu"] prune_token_handles
    by (simp only: split: if_split) blast
qed

lemma prune_fold_gok:
  "gok (cu_tokens cu) \<Longrightarrow> gok (cu_tokens (fold (prune_token now) es cu))"
  "gok (cu_byHandle cu) \<Longrightarrow> gok (cu_byHandle (fold (prune_token now) es cu))"
  by (induction es arbitrary: cu) (simp_all add: prune_token_def Let_def)

lemma up_prune_fields [simp]:
  "cu_loopback (up_prune now cu) = cu_loopback cu" "cu_maxBytes (up_prune now cu) = cu_maxBytes cu"
  "cu_tasks (up_prune now cu) = cu_tasks cu"
  by (simp_all add: up_prune_def)

lemma gok_ex_mem: "gok m \<Longrightarrow> (\<exists>t. (k, t) \<in> set m \<and> P t) \<longleftrightarrow> (\<exists>t. gget m k = Some t \<and> P t)"
  by (simp add: map_of_eq_Some_iff)

lemma up_prune_tokens:
  assumes "gok (cu_tokens cu)"
  shows "gget (cu_tokens (up_prune now cu)) k =
     (case gget (cu_tokens cu) k of None \<Rightarrow> None
      | Some t \<Rightarrow> if after now (tn_expires t) then None else Some t)"
  unfolding up_prune_def prune_fold_tokens gok_ex_mem [OF assms]
  by (simp split: option.split)

lemma up_prune_handles:
  assumes "gok (cu_tokens cu)"
  shows "gget (cu_byHandle (up_prune now cu)) h =
     (if h \<noteq> [] \<and> (\<exists>k t. gget (cu_tokens cu) k = Some t \<and> after now (tn_expires t) \<and> tn_handle t = h)
      then None else gget (cu_byHandle cu) h)"
  unfolding up_prune_def prune_fold_handles gok_ex_mem [OF assms] ..

text \<open>
  The bookkeeping: a handle has a back reference to a token exactly when it is the handle of
  that token and the token has not been claimed, and no two tokens share a handle.
\<close>

definition back_refs :: "(string, upload_token) gomap \<Rightarrow> (string, string) gomap \<Rightarrow> bool" where
  "back_refs tokens refs \<longleftrightarrow>
     (\<forall>h k. gget refs h = Some k \<longleftrightarrow>
        h \<noteq> [] \<and> (\<exists>t. gget tokens k = Some t \<and> tn_handle t = h \<and> \<not> tn_used t))"

definition own_handles :: "(string, upload_token) gomap \<Rightarrow> bool" where
  "own_handles tokens \<longleftrightarrow>
     (\<forall>k k' t t'. gget tokens k = Some t \<longrightarrow> gget tokens k' = Some t' \<longrightarrow>
        tn_handle t = tn_handle t' \<longrightarrow> tn_handle t \<noteq> [] \<longrightarrow> k = k')"

definition cu_inv :: "'r upload \<Rightarrow> bool" where
  "cu_inv cu \<longleftrightarrow> gok (cu_tokens cu) \<and> back_refs (cu_tokens cu) (cu_byHandle cu)
     \<and> own_handles (cu_tokens cu)"

lemma cu_inv_new: "cu_inv (NewHTTPUpload m mb)"
  by (simp add: cu_inv_def NewHTTPUpload_def back_refs_def own_handles_def)

lemma back_refsD:
  "back_refs tokens refs \<Longrightarrow> gget refs h = Some k \<Longrightarrow>
   h \<noteq> [] \<and> (\<exists>t. gget tokens k = Some t \<and> tn_handle t = h \<and> \<not> tn_used t)"
  by (simp add: back_refs_def)

lemma back_refsI:
  "back_refs tokens refs \<Longrightarrow> gget tokens k = Some t \<Longrightarrow> \<not> tn_used t \<Longrightarrow> tn_handle t \<noteq> [] \<Longrightarrow>
   gget refs (tn_handle t) = Some k"
  by (simp add: back_refs_def)

lemma own_handlesD:
  "own_handles tokens \<Longrightarrow> gget tokens k = Some t \<Longrightarrow> gget tokens k' = Some t' \<Longrightarrow>
   tn_handle t = tn_handle t' \<Longrightarrow> tn_handle t \<noteq> [] \<Longrightarrow> k = k'"
  unfolding own_handles_def by blast

text \<open>Dropping a set of tokens together with their back references keeps it.\<close>

lemma back_refs_drop:
  assumes refs: "back_refs tokens refs" and own: "own_handles tokens"
    and tk: "\<And>k. gget tokens' k = (case gget tokens k of None \<Rightarrow> None | Some t \<Rightarrow> if D t then None else Some t)"
    and rf: "\<And>h. gget refs' h = (if h \<noteq> [] \<and> (\<exists>k t. gget tokens k = Some t \<and> D t \<and> tn_handle t = h)
               then None else gget refs h)"
  shows "back_refs tokens' refs' \<and> own_handles tokens'"
proof
  show "own_handles tokens'"
    unfolding own_handles_def
    using own_handlesD [OF own] by (auto simp: tk split: option.splits if_splits)
  have "gget refs' h = Some k \<longleftrightarrow>
      h \<noteq> [] \<and> (\<exists>t. gget tokens' k = Some t \<and> tn_handle t = h \<and> \<not> tn_used t)" for h k
  proof
    assume *: "gget refs' h = Some k"
    then have r: "gget refs h = Some k"
      and nd: "\<not> (h \<noteq> [] \<and> (\<exists>k t. gget tokens k = Some t \<and> D t \<and> tn_handle t = h))"
      by (simp_all add: rf split: if_splits)
    obtain t where t: "h \<noteq> []" "gget tokens k = Some t" "tn_handle t = h" "\<not> tn_used t"
      using back_refsD [OF refs r] by blast
    with nd have "\<not> D t" by blast
    with t show "h \<noteq> [] \<and> (\<exists>t. gget tokens' k = Some t \<and> tn_handle t = h \<and> \<not> tn_used t)"
      by (simp add: tk)
  next
    assume "h \<noteq> [] \<and> (\<exists>t. gget tokens' k = Some t \<and> tn_handle t = h \<and> \<not> tn_used t)"
    then obtain t where h: "h \<noteq> []" and t': "gget tokens' k = Some t" and th: "tn_handle t = h" "\<not> tn_used t"
      by blast
    have t: "gget tokens k = Some t" "\<not> D t" using t' by (auto simp: tk split: option.splits if_splits)
    have r: "gget refs h = Some k" using back_refsI [OF refs t(1) th(2)] h th(1) by simp
    have "\<not> D u" if "gget tokens j = Some u" "tn_handle u = h" for j u
    proof -
      have "j = k" using own_handlesD [OF own that(1) t(1)] that(2) h th(1) by simp
      with that(1) t show ?thesis by simp
    qed
    then show "gget refs' h = Some k" using r by (auto simp: rf)
  qed
  then show "back_refs tokens' refs'" unfolding back_refs_def by blast
qed

lemma up_prune_inv: "cu_inv cu \<Longrightarrow> cu_inv (up_prune now cu)"
proof -
  assume inv: "cu_inv cu"
  then have ok: "gok (cu_tokens cu)" by (simp add: cu_inv_def)
  have "back_refs (cu_tokens (up_prune now cu)) (cu_byHandle (up_prune now cu))
      \<and> own_handles (cu_tokens (up_prune now cu))"
    by (rule back_refs_drop [where tokens = "cu_tokens cu" and refs = "cu_byHandle cu"
          and D = "\<lambda>t. after now (tn_expires t)"])
      (use inv in \<open>simp_all add: cu_inv_def up_prune_tokens [OF ok] up_prune_handles [OF ok]\<close>)
  then show ?thesis using prune_fold_gok(1) [OF ok] by (simp add: cu_inv_def up_prune_def)
qed

text \<open>Adding a token, bare or with a fresh handle, and claiming one.\<close>

lemma back_refs_bare:
  assumes "back_refs tokens refs" and "own_handles tokens" and "gget tokens k = None" and "tn_handle t = []"
  shows "back_refs (gset k t tokens) refs \<and> own_handles (gset k t tokens)"
  using assms unfolding back_refs_def own_handles_def by simp

lemma back_refs_prepared:
  assumes refs: "back_refs tokens refs" and own: "own_handles tokens" and k: "gget tokens k = None"
    and h: "tn_handle t \<noteq> []" "\<not> tn_used t"
    and fresh: "\<And>j u. gget tokens j = Some u \<Longrightarrow> tn_handle u \<noteq> tn_handle t"
  shows "back_refs (gset k t tokens) (gset (tn_handle t) k refs) \<and> own_handles (gset k t tokens)"
proof
  show "own_handles (gset k t tokens)"
    unfolding own_handles_def using own_handlesD [OF own] fresh by (simp split: if_split) metis
  have "gget (gset (tn_handle t) k refs) g = Some j \<longleftrightarrow>
      g \<noteq> [] \<and> (\<exists>u. gget (gset k t tokens) j = Some u \<and> tn_handle u = g \<and> \<not> tn_used u)" for g j
  proof (cases "g = tn_handle t")
    case True
    then show ?thesis using h fresh by auto
  next
    case False
    have "gget refs g = Some j \<longleftrightarrow> g \<noteq> [] \<and> (\<exists>u. gget tokens j = Some u \<and> tn_handle u = g \<and> \<not> tn_used u)"
      using refs unfolding back_refs_def by blast
    then show ?thesis using False k by (cases "j = k") auto
  qed
  then show "back_refs (gset k t tokens) (gset (tn_handle t) k refs)" unfolding back_refs_def by blast
qed

lemma back_refs_spend:
  assumes refs: "back_refs tokens refs" and own: "own_handles tokens" and k: "gget tokens k = Some t"
    and x: "x = None \<or> x = Some (t\<lparr>tn_used := True\<rparr>)"
    and tk: "\<And>j. gget tokens' j = (if j = k then x else gget tokens j)"
    and rf: "\<And>h. gget refs' h = (if h \<noteq> [] \<and> h = tn_handle t then None else gget refs h)"
  shows "back_refs tokens' refs' \<and> own_handles tokens'"
proof
  have sub: "\<exists>v. gget tokens j = Some v \<and> tn_handle v = tn_handle u" if "gget tokens' j = Some u" for j u
    using that k x by (auto simp: tk split: if_splits)
  show "own_handles tokens'"
    unfolding own_handles_def
  proof (intro allI impI)
    fix j j' u u'
    assume *: "gget tokens' j = Some u" "gget tokens' j' = Some u'" "tn_handle u = tn_handle u'" "tn_handle u \<noteq> []"
    obtain v v' where "gget tokens j = Some v" "tn_handle v = tn_handle u"
      "gget tokens j' = Some v'" "tn_handle v' = tn_handle u'" using sub *(1,2) by blast
    then show "j = j'" using own_handlesD [OF own] * by metis
  qed
  have "gget refs' g = Some j \<longleftrightarrow>
      g \<noteq> [] \<and> (\<exists>u. gget tokens' j = Some u \<and> tn_handle u = g \<and> \<not> tn_used u)" for g j
  proof -
    have old: "gget refs g = Some j \<longleftrightarrow> g \<noteq> [] \<and> (\<exists>u. gget tokens j = Some u \<and> tn_handle u = g \<and> \<not> tn_used u)"
      using refs unfolding back_refs_def by blast
    show ?thesis
    proof (cases "j = k")
      case True
      then show ?thesis using old k x by (auto simp: rf tk)
    next
      case False
      have "tn_handle u \<noteq> tn_handle t" if "gget tokens j = Some u" "tn_handle t \<noteq> []" for u
        using own_handlesD [OF own that(1) k] that False by metis
      then show ?thesis using old False by (auto simp: rf tk)
    qed
  qed
  then show "back_refs tokens' refs'" unfolding back_refs_def by blast
qed

text \<open>What the operations do, case by case.\<close>

lemma up_Mint_cases:
  obtains (failed) lb where "up_Mint listen token t1 t2 ctx name ttl cu = ([], cu\<lparr>cu_loopback := lb\<rparr>)"
    | (minted) lb tok c where "tn_handle tok = []" "\<not> tn_used tok"
        "tn_expires tok = t2 + (if ttl \<le> 0 then DefaultHTTPUploadTTL else ttl)"
        "c = up_prune t1 (cu\<lparr>cu_loopback := lb\<rparr>)"
        "up_Mint listen token t1 t2 ctx name ttl cu =
           (URLFor ''upload'' token lb, c\<lparr>cu_tokens := gset token tok (cu_tokens c)\<rparr>)"
proof -
  obtain err started lb where e: "EnsureLoopback listen (cu_loopback cu) = ((err, started), lb)"
    by (metis surj_pair)
  show thesis
  proof (cases err)
    case None
    then show thesis
      using e by (intro minted [where lb = lb]) (simp_all add: up_Mint_def Let_def)
  next
    case (Some x)
    then show thesis using e by (intro failed [of lb]) (simp add: up_Mint_def)
  qed
qed

lemma up_Prepare_cases:
  obtains (failed) lb m where "up_Prepare listen token hid now tp t1 t2 ctx name ttl opts cu =
        (([], []), cu\<lparr>cu_loopback := lb, cu_tasks := m\<rparr>)"
    | (prepared) lb m tok c where "tn_handle tok = hid" "\<not> tn_used tok" "tn_jwt tok = cred_From ctx"
        "tn_expires tok = t2 + (if ttl \<le> 0 then DefaultHTTPUploadTTL else ttl)"
        "um_Prepare hid now tp (if name = [] then DefaultUploadName else name)
           (if ttl \<le> 0 then DefaultHTTPUploadTTL else ttl) opts (cu_tasks cu) = (Inr hid, m)"
        "c = up_prune t1 (cu\<lparr>cu_loopback := lb, cu_tasks := m\<rparr>)"
        "up_Prepare listen token hid now tp t1 t2 ctx name ttl opts cu =
           ((URLFor ''upload'' token lb, hid),
            c\<lparr>cu_tokens := gset token tok (cu_tokens c), cu_byHandle := gset hid token (cu_byHandle c)\<rparr>)"
proof -
  let ?ttl = "if ttl \<le> 0 then DefaultHTTPUploadTTL else ttl"
  let ?nm = "if name = [] then DefaultUploadName else name"
  obtain err started lb where e: "EnsureLoopback listen (cu_loopback cu) = ((err, started), lb)"
    by (metis surj_pair)
  obtain r m where p: "um_Prepare hid now tp ?nm ?ttl opts (cu_tasks cu) = (r, m)" by fastforce
  have hid: "h = hid" if "r = Inr h" for h
    using p that by (auto simp: um_Prepare_def Let_def split: if_splits option.splits)
  show thesis
  proof (cases err)
    case None
    show thesis
    proof (cases r)
      case (Inl err)
      with None e p show thesis by (intro failed [where lb = lb and m = m]) (simp add: up_Prepare_def Let_def)
    next
      case (Inr h)
      with None e p hid show thesis
        by (intro prepared [where lb = lb and m = m]) (simp_all add: up_Prepare_def Let_def)
    qed
  next
    case (Some x)
    then show thesis using e by (intro failed [where lb = lb and m = "cu_tasks cu"]) (simp add: up_Prepare_def)
  qed
qed

lemma up_claim_cases:
  obtains (unknown) "gget (cu_tokens cu) token = None" "up_claim now token cu = (None, cu)"
    | (dead) t where "gget (cu_tokens cu) token = Some t" "token_dead now t"
        "fst (up_claim now token cu) = None"
        "cu_tokens (snd (up_claim now token cu)) = gdel token (cu_tokens cu)"
        "\<And>h. gget (cu_byHandle (snd (up_claim now token cu))) h =
           (if h \<noteq> [] \<and> h = tn_handle t then None else gget (cu_byHandle cu) h)"
    | (claimed) t where "gget (cu_tokens cu) token = Some t" "\<not> token_dead now t"
        "fst (up_claim now token cu) = Some (tn_name t, tn_handle t, tn_jwt t)"
        "cu_tokens (snd (up_claim now token cu)) = gset token (t\<lparr>tn_used := True\<rparr>) (cu_tokens cu)"
        "\<And>h. gget (cu_byHandle (snd (up_claim now token cu))) h =
           (if h \<noteq> [] \<and> h = tn_handle t then None else gget (cu_byHandle cu) h)"
proof (cases "gget (cu_tokens cu) token")
  case None
  then show thesis by (intro unknown) (simp_all add: up_claim_def)
next
  case (Some t)
  show thesis
    by (cases "token_dead now t")
      (use Some in \<open>intro dead [of t]; simp add: up_claim_def Let_def\<close>,
       use Some in \<open>intro claimed [of t]; simp add: up_claim_def Let_def\<close>)
qed

lemma up_claim_fields [simp]:
  "cu_tasks (snd (up_claim now token cu)) = cu_tasks cu"
  "cu_loopback (snd (up_claim now token cu)) = cu_loopback cu"
  "cu_maxBytes (snd (up_claim now token cu)) = cu_maxBytes cu"
  by (simp_all add: up_claim_def Let_def split: option.split)

lemma up_claim_inv: "cu_inv cu \<Longrightarrow> cu_inv (snd (up_claim now token cu))"
proof (rule up_claim_cases [of cu token now])
  assume inv: "cu_inv cu"
  note ok = inv [unfolded cu_inv_def]
  show ?thesis if "gget (cu_tokens cu) token = None" "up_claim now token cu = (None, cu)"
    using inv that by simp
  show ?thesis if t: "gget (cu_tokens cu) token = Some t"
    "cu_tokens (snd (up_claim now token cu)) = gdel token (cu_tokens cu)"
    "\<And>h. gget (cu_byHandle (snd (up_claim now token cu))) h =
       (if h \<noteq> [] \<and> h = tn_handle t then None else gget (cu_byHandle cu) h)" for t
  proof -
    let ?c = "snd (up_claim now token cu)"
    have "back_refs (cu_tokens ?c) (cu_byHandle ?c) \<and> own_handles (cu_tokens ?c)"
      by (rule back_refs_spend [OF _ _ t(1), where x = None]) (use ok t in simp_all)
    then show ?thesis using ok t by (simp add: cu_inv_def)
  qed
  show ?thesis if t: "gget (cu_tokens cu) token = Some t"
    "cu_tokens (snd (up_claim now token cu)) = gset token (t\<lparr>tn_used := True\<rparr>) (cu_tokens cu)"
    "\<And>h. gget (cu_byHandle (snd (up_claim now token cu))) h =
       (if h \<noteq> [] \<and> h = tn_handle t then None else gget (cu_byHandle cu) h)" for t
  proof -
    let ?c = "snd (up_claim now token cu)"
    have "back_refs (cu_tokens ?c) (cu_byHandle ?c) \<and> own_handles (cu_tokens ?c)"
      by (rule back_refs_spend [OF _ _ t(1), where x = "Some (t\<lparr>tn_used := True\<rparr>)"]) (use ok t in simp_all)
    then show ?thesis using ok t by (simp add: cu_inv_def)
  qed
qed

section \<open>Runs of the coordinator\<close>

text \<open>
  The locked sections in any order, with what the other users of the shared task manager do
  to it in between. Minted tokens and prepared handles are fresh.
\<close>

datatype 'r up_op =
    UMint "(string, string) result" string time time go_context string duration
  | UPrepare "(string, string) result" string string time time time time go_context string duration
      "prepare_option option list"
  | UClaim time string
  | UTasks "'r manager"
  | UBase string
  | UTrust "string list"
  | UStop

fun up_step :: "'r up_op \<Rightarrow> 'r upload \<Rightarrow> 'r upload" where
  "up_step (UMint listen token t1 t2 ctx name ttl) cu = snd (up_Mint listen token t1 t2 ctx name ttl cu)"
| "up_step (UPrepare listen token hid now tp t1 t2 ctx name ttl opts) cu =
     snd (up_Prepare listen token hid now tp t1 t2 ctx name ttl opts cu)"
| "up_step (UClaim now token) cu = snd (up_claim now token cu)"
| "up_step (UTasks m) cu = cu\<lparr>cu_tasks := m\<rparr>"
| "up_step (UBase url) cu = up_SetBaseURL url cu"
| "up_step (UTrust origins) cu = up_AddTrustedOrigins origins cu"
| "up_step UStop cu = up_Stop cu"

abbreviation fresh_handle :: "string \<Rightarrow> 'r upload \<Rightarrow> bool" where
  "fresh_handle hid cu \<equiv> hid \<noteq> [] \<and> (\<forall>e \<in> set (cu_tokens cu). tn_handle (snd e) \<noteq> hid)"

fun fresh_op :: "'r up_op \<Rightarrow> 'r upload \<Rightarrow> bool" where
  "fresh_op (UMint listen token t1 t2 ctx name ttl) cu = (gget (cu_tokens cu) token = None)"
| "fresh_op (UPrepare listen token hid now tp t1 t2 ctx name ttl opts) cu =
     (gget (cu_tokens cu) token = None \<and> fresh_handle hid cu)"
| "fresh_op _ cu = True"

fun up_fresh :: "'r up_op list \<Rightarrow> 'r upload \<Rightarrow> bool" where
  "up_fresh [] cu = True"
| "up_fresh (op # ops) cu = (fresh_op op cu \<and> up_fresh ops (up_step op cu))"

definition up_run :: "'r up_op list \<Rightarrow> 'r upload \<Rightarrow> 'r upload" where
  "up_run ops cu = fold up_step ops cu"

lemma up_prune_sub:
  "gok (cu_tokens cu) \<Longrightarrow> gget (cu_tokens (up_prune now cu)) k = Some t \<Longrightarrow> gget (cu_tokens cu) k = Some t"
  by (simp add: up_prune_tokens split: option.splits if_splits)

lemma cu_inv_other: "cu_inv cu \<Longrightarrow> cu_inv (cu\<lparr>cu_loopback := lb\<rparr>)" "cu_inv cu \<Longrightarrow> cu_inv (cu\<lparr>cu_tasks := m\<rparr>)"
  by (simp_all add: cu_inv_def)

lemma up_Mint_inv:
  assumes "cu_inv cu" and "gget (cu_tokens cu) token = None"
  shows "cu_inv (snd (up_Mint listen token t1 t2 ctx name ttl cu))"
proof (rule up_Mint_cases [of listen token t1 t2 ctx name ttl cu])
  fix lb tok c
  assume tok: "tn_handle tok = []" and c: "c = up_prune t1 (cu\<lparr>cu_loopback := lb\<rparr>)"
    and r: "up_Mint listen token t1 t2 ctx name ttl cu =
      (URLFor ''upload'' token lb, c\<lparr>cu_tokens := gset token tok (cu_tokens c)\<rparr>)"
  have inv: "cu_inv c" unfolding c by (intro up_prune_inv cu_inv_other assms(1))
  have "gget (cu_tokens c) token = None"
    unfolding c using assms by (subst up_prune_tokens) (simp_all add: cu_inv_def)
  then show ?thesis
    using back_refs_bare [of "cu_tokens c" "cu_byHandle c" token tok] inv tok by (simp add: r cu_inv_def)
qed (simp add: cu_inv_other assms(1))

lemma up_Prepare_inv:
  assumes "cu_inv cu" and "gget (cu_tokens cu) token = None" and "fresh_handle hid cu"
  shows "cu_inv (snd (up_Prepare listen token hid now tp t1 t2 ctx name ttl opts cu))"
proof (rule up_Prepare_cases [of listen token hid now tp t1 t2 ctx name ttl opts cu])
  fix lb tok c m
  assume tok: "tn_handle tok = hid" "\<not> tn_used tok"
    and c: "c = up_prune t1 (cu\<lparr>cu_loopback := lb, cu_tasks := m\<rparr>)"
    and r: "up_Prepare listen token hid now tp t1 t2 ctx name ttl opts cu =
      ((URLFor ''upload'' token lb, hid),
       c\<lparr>cu_tokens := gset token tok (cu_tokens c), cu_byHandle := gset hid token (cu_byHandle c)\<rparr>)"
  have inv: "cu_inv c" unfolding c by (intro up_prune_inv cu_inv_other assms(1))
  have sub: "gget (cu_tokens cu) k = Some t" if "gget (cu_tokens c) k = Some t" for k t
    using up_prune_sub [of "cu\<lparr>cu_loopback := lb, cu_tasks := m\<rparr>" t1 k t] that assms(1)
    by (simp add: c cu_inv_def)
  have "gget (cu_tokens c) token = None" using sub assms(2) by (metis not_Some_eq)
  moreover have "tn_handle u \<noteq> hid" if "gget (cu_tokens c) j = Some u" for j u
    using gget_SomeD [OF sub [OF that]] assms(3) by fastforce
  ultimately show ?thesis
    using back_refs_prepared [of "cu_tokens c" "cu_byHandle c" token tok] inv tok assms(3)
    by (simp add: r cu_inv_def)
qed (simp add: cu_inv_other assms(1))

lemma up_step_inv: "cu_inv cu \<Longrightarrow> fresh_op op cu \<Longrightarrow> cu_inv (up_step op cu)"
  by (cases op)
    (simp_all add: up_Mint_inv up_Prepare_inv up_claim_inv up_SetBaseURL_def up_AddTrustedOrigins_def
      up_Stop_def cu_inv_other)

lemma up_run_inv: "cu_inv cu \<Longrightarrow> up_fresh ops cu \<Longrightarrow> cu_inv (up_run ops cu)"
  by (induction ops arbitrary: cu) (simp_all add: up_run_def up_step_inv)

text \<open>The operations that leave a token alone until \<open>e\<close>.\<close>

fun op_spares :: "string \<Rightarrow> time \<Rightarrow> 'r up_op \<Rightarrow> bool" where
  "op_spares k e (UMint listen token t1 t2 ctx name ttl) = (t1 \<le> e)"
| "op_spares k e (UPrepare listen token hid now tp t1 t2 ctx name ttl opts) = (t1 \<le> e)"
| "op_spares k e (UClaim now token) = (token \<noteq> k)"
| "op_spares k e _ = True"

lemma up_prune_keeps:
  "gok (cu_tokens cu) \<Longrightarrow> gget (cu_tokens cu) k = Some t \<Longrightarrow> now \<le> tn_expires t \<Longrightarrow>
   gget (cu_tokens (up_prune now cu)) k = Some t"
  by (simp add: up_prune_tokens)

lemma up_step_keeps:
  assumes inv: "cu_inv cu" and k: "gget (cu_tokens cu) k = Some t"
    and op: "fresh_op op cu" "op_spares k (tn_expires t) op"
  shows "gget (cu_tokens (up_step op cu)) k = Some t"
proof (cases op)
  case (UMint listen token t1 t2 ctx name ttl)
  have ne: "token \<noteq> k" using op k UMint by auto
  show ?thesis
  proof (rule up_Mint_cases [of listen token t1 t2 ctx name ttl cu])
    fix lb tok c
    assume c: "c = up_prune t1 (cu\<lparr>cu_loopback := lb\<rparr>)" and r: "up_Mint listen token t1 t2 ctx name ttl cu =
      (URLFor ''upload'' token lb, c\<lparr>cu_tokens := gset token tok (cu_tokens c)\<rparr>)"
    have "gget (cu_tokens c) k = Some t"
      unfolding c using inv k op UMint by (intro up_prune_keeps) (simp_all add: cu_inv_def)
    then show ?thesis using ne by (simp add: UMint r)
  qed (simp add: UMint k)
next
  case (UPrepare listen token hid now tp t1 t2 ctx name ttl opts)
  have ne: "token \<noteq> k" using op k UPrepare by auto
  show ?thesis
  proof (rule up_Prepare_cases [of listen token hid now tp t1 t2 ctx name ttl opts cu])
    fix lb tok c m
    assume c: "c = up_prune t1 (cu\<lparr>cu_loopback := lb, cu_tasks := m\<rparr>)"
      and r: "up_Prepare listen token hid now tp t1 t2 ctx name ttl opts cu =
        ((URLFor ''upload'' token lb, hid),
         c\<lparr>cu_tokens := gset token tok (cu_tokens c), cu_byHandle := gset hid token (cu_byHandle c)\<rparr>)"
    have "gget (cu_tokens c) k = Some t"
      unfolding c using inv k op UPrepare by (intro up_prune_keeps) (simp_all add: cu_inv_def)
    then show ?thesis using ne by (simp add: UPrepare r)
  qed (simp add: UPrepare k)
next
  case (UClaim now token)
  then have "token \<noteq> k" using op by simp
  then show ?thesis using k by (simp add: UClaim up_claim_def Let_def split: option.split)
qed (simp_all add: k up_SetBaseURL_def up_AddTrustedOrigins_def up_Stop_def)

lemma up_run_keeps:
  "cu_inv cu \<Longrightarrow> gget (cu_tokens cu) k = Some t \<Longrightarrow> up_fresh ops cu \<Longrightarrow>
   \<forall>op \<in> set ops. op_spares k (tn_expires t) op \<Longrightarrow> gget (cu_tokens (up_run ops cu)) k = Some t"
  by (induction ops arbitrary: cu) (simp_all add: up_run_def up_step_inv up_step_keeps)

lemma FindUpload_live:
  "cu_inv cu \<Longrightarrow> gget (cu_tokens cu) k = Some t \<Longrightarrow> \<not> token_dead now t \<Longrightarrow> tn_handle t \<noteq> [] \<Longrightarrow>
   FindUpload now (tn_handle t) cu = (URLFor ''upload'' k (cu_loopback cu), True)"
  using back_refsI [of "cu_tokens cu" "cu_byHandle cu" k t]
  by (simp add: FindUpload_def cu_inv_def)

lemma FindUpload_True:
  assumes "cu_inv cu" and "snd (FindUpload now h cu)"
  shows "\<exists>k t. gget (cu_tokens cu) k = Some t \<and> \<not> token_dead now t \<and> tn_handle t = h \<and> h \<noteq> []"
proof -
  have refs: "back_refs (cu_tokens cu) (cu_byHandle cu)" using assms(1) by (simp add: cu_inv_def)
  obtain k t where k: "gget (cu_byHandle cu) h = Some k" "gget (cu_tokens cu) k = Some t" "\<not> token_dead now t"
    using assms(2) by (auto simp: FindUpload_def split: option.splits if_splits)
  then show ?thesis using back_refsD [OF refs k(1)] by auto
qed

section \<open>The one-time contract\<close>

text \<open>Both ways to mint, as one operation: bare, or bound to a prepared handle.\<close>

datatype mint_kind =
    Bare "(string, string) result" time go_context string duration
  | Bound "(string, string) result" string time time time go_context string duration
      "prepare_option option list"

fun up_mint :: "time \<Rightarrow> string \<Rightarrow> mint_kind \<Rightarrow> 'r upload \<Rightarrow> 'r upload" where
  "up_mint t1 k (Bare listen t2 ctx name ttl) cu = snd (up_Mint listen k t1 t2 ctx name ttl cu)"
| "up_mint t1 k (Bound listen hid now tp t2 ctx name ttl opts) cu =
     snd (up_Prepare listen k hid now tp t1 t2 ctx name ttl opts cu)"

definition up_pending :: "'r upload \<Rightarrow> string \<Rightarrow> bool" where
  "up_pending cu k \<longleftrightarrow> (case gget (cu_tokens cu) k of None \<Rightarrow> False | Some t \<Rightarrow> \<not> tn_used t)"

lemma up_mint_gok: "gok (cu_tokens cu) \<Longrightarrow> gok (cu_tokens (up_mint t1 k x cu))"
proof (cases x)
  case (Bare listen t2 ctx name ttl)
  assume "gok (cu_tokens cu)"
  then show ?thesis
    by (cases rule: up_Mint_cases [of listen k t1 t2 ctx name ttl cu])
      (simp_all add: Bare up_prune_def prune_fold_gok)
next
  case (Bound listen hid now tp t2 ctx name ttl opts)
  assume "gok (cu_tokens cu)"
  then show ?thesis
    by (cases rule: up_Prepare_cases [of listen k hid now tp t1 t2 ctx name ttl opts cu])
      (simp_all add: Bound up_prune_def prune_fold_gok)
qed

lemma up_prune_pending:
  assumes "gok (cu_tokens cu)" and "up_pending (up_prune now cu) k"
  shows "up_pending cu k"
  using assms(2) unfolding up_pending_def up_prune_tokens [OF assms(1)]
  by (simp split: option.splits if_splits)

lemma up_mint_frame:
  assumes ok: "gok (cu_tokens cu)" and ne: "k' \<noteq> k" and p: "up_pending (up_mint t1 k x cu) k'"
  shows "up_pending cu k'"
proof (cases x)
  case (Bare listen t2 ctx name ttl)
  show ?thesis
  proof (cases rule: up_Mint_cases [of listen k t1 t2 ctx name ttl cu])
    case (failed lb)
    then show ?thesis using p by (simp add: Bare up_pending_def)
  next
    case (minted lb tok c)
    then have "up_pending c k'" using p ne by (simp add: Bare up_pending_def)
    then have "up_pending (cu\<lparr>cu_loopback := lb\<rparr>) k'"
      using up_prune_pending [of "cu\<lparr>cu_loopback := lb\<rparr>" t1 k'] ok minted(4) by simp
    then show ?thesis by (simp add: up_pending_def)
  qed
next
  case (Bound listen hid now tp t2 ctx name ttl opts)
  show ?thesis
  proof (cases rule: up_Prepare_cases [of listen k hid now tp t1 t2 ctx name ttl opts cu])
    case (failed lb m)
    then show ?thesis using p by (simp add: Bound up_pending_def)
  next
    case (prepared lb m tok c)
    then have "up_pending c k'" using p ne by (simp add: Bound up_pending_def)
    then have "up_pending (cu\<lparr>cu_loopback := lb, cu_tasks := m\<rparr>) k'"
      using up_prune_pending [of "cu\<lparr>cu_loopback := lb, cu_tasks := m\<rparr>" t1 k'] ok prepared(6) by simp
    then show ?thesis by (simp add: up_pending_def)
  qed
qed

interpretation uploads: one_time_tokens up_claim up_mint up_pending "\<lambda>cu. gok (cu_tokens cu)"
proof (unfold_locales, goal_cases)
  case (1 cu t k)
  then show ?case by (cases rule: up_claim_cases [of cu k t]) (simp_all add: up_pending_def)
next
  case (2 cu t k)
  then show ?case by (cases rule: up_claim_cases [of cu k t]) (simp_all add: up_pending_def)
next
  case (3 cu t k k')
  then show ?case
    by (cases rule: up_claim_cases [of cu k t]) (auto simp: up_pending_def split: if_splits)
next
  case (4 cu k' k t x)
  then show ?case by (rule up_mint_frame)
next
  case (5 cu t k)
  then show ?case by (cases rule: up_claim_cases [of cu k t]) simp_all
next
  case (6 cu t k x)
  then show ?case by (rule up_mint_gok)
qed

section \<open>The copy of the body\<close>

lemma copy_body_exact:
  "0 \<le> rem \<Longrightarrow> copy_body rem pipe ns e =
     (if \<not> pipe_takes pipe (min (sum_list ns) (nat rem)) then Some ClosedPipe
      else if rem < int (sum_list ns) then Some BodyTooLarge
      else if e = BodyFailed then Some BodyReadError else None)"
proof (induction rem pipe ns e rule: copy_body.induct)
  case (1 rem pipe e)
  then show ?case by (cases e) (simp_all add: pipe_takes_def)
next
  case (2 rem pipe n ns e)
  show ?case
  proof (cases "rem < int n")
    case True
    then have "min (sum_list (n # ns)) (nat rem) = nat rem" using "2.prems" by simp
    then show ?thesis using True by simp
  next
    case False
    have m: "min (sum_list (n # ns)) (nat rem) = n + min (sum_list ns) (nat (rem - int n))"
      using False by auto
    have "pipe_takes pipe (n + j) \<longleftrightarrow> pipe_takes pipe n \<and> pipe_takes (map_option (\<lambda>k. k - n) pipe) j" for j
      by (cases pipe) (auto simp: pipe_takes_def)
    then show ?thesis using False 2 unfolding m by simp
  qed
qed

section \<open>Properties\<close>

text \<open>
  A minted upload endpoint accepts at most one PUT: in any sequence of claims and mints
  (bare or prepared), at any clocks, a fresh token minted at most once is claimed with
  success at most once.
\<close>

theorem upload_endpoint_claimed_at_most_once:
  assumes "gok (cu_tokens cu)" and "gget (cu_tokens cu) k = None" and "mints_of k es \<le> 1"
  shows "count_list (token_run up_claim up_mint es cu) k \<le> 1"
  by (rule uploads.claimed_at_most_once) (use assms in \<open>simp_all add: up_pending_def\<close>)

definition demo_ctx :: go_context where
  "demo_ctx = \<lparr>cx_jwt = Some ''jwt'', cx_detached = False\<rparr>"

definition demo_listen :: "(string, string) result" where
  "demo_listen = Inr ''a:1''"

definition demo_upload :: "nat upload" where
  "demo_upload = NewHTTPUpload (Some demo_manager) 100"

theorem upload_endpoint_claimed_at_most_once_witness:
  "let es = [TMint 1 ''tok'' (Bound (Inr ''a:1'') ''h'' 1 1 1 demo_ctx [] 10 []), TClaim 2 ''tok'', TClaim 2 ''tok'']
   in token_run up_claim up_mint es demo_upload = [''tok'']
    \<and> count_list (token_run up_claim up_mint es demo_upload) ''tok'' \<le> 1"
proof -
  let ?es = "[TMint 1 ''tok'' (Bound (Inr ''a:1'') ''h'' 1 1 1 demo_ctx [] 10 []), TClaim 2 ''tok'', TClaim 2 ''tok'']"
  have "token_run up_claim up_mint ?es demo_upload = [''tok'']" by code_simp
  moreover have "count_list (token_run up_claim up_mint ?es demo_upload) ''tok'' \<le> 1"
    by (rule upload_endpoint_claimed_at_most_once) (simp_all add: demo_upload_def NewHTTPUpload_def)
  ultimately show ?thesis by (simp add: Let_def)
qed



text \<open>What the handler does after the claim, with the steps of the others made explicit.\<close>

definition request_upload_token :: "http_request \<Rightarrow> string" where
  "request_upload_token r = (if rq_method r = ''PUT'' then trim_prefix (rq_path r) ''/upload/'' else [])"

definition live_token :: "time \<Rightarrow> string \<Rightarrow> 'r upload \<Rightarrow> upload_token option" where
  "live_token now k cu =
     (if k = [] then None
      else case gget (cu_tokens cu) k of None \<Rightarrow> None | Some t \<Rightarrow> if token_dead now t then None else Some t)"

lemma putHandler_refused:
  assumes "live_token (pe_claim env) (request_upload_token r) cu = None"
  shows "\<exists>st. putHandler env mid1 mid2 rctx r body cu = (refused st, snd (putHandler env mid1 mid2 rctx r body cu))
     \<and> hr_status st = (if rq_method r = ''PUT'' then 404 else 405)
     \<and> cu_tasks (snd (putHandler env mid1 mid2 rctx r body cu)) = cu_tasks cu"
proof (cases "request_upload_token r = []")
  case True
  then show ?thesis by (auto simp: putHandler_def request_upload_token_def Let_def)
next
  case False
  then have m: "rq_method r = ''PUT''" and k: "request_upload_token r = trim_prefix (rq_path r) ''/upload/''"
    by (auto simp: request_upload_token_def split: if_splits)
  obtain c where c: "up_claim (pe_claim env) (request_upload_token r) cu = (None, c)" "cu_tasks c = cu_tasks cu"
    using assms False
    by (cases "gget (cu_tokens cu) (request_upload_token r)")
      (auto simp: live_token_def up_claim_def Let_def split: if_splits)
  show ?thesis
    by (rule exI [of _ "http_Error [] ''invalid, expired, or already-used upload endpoint'' 404"])
      (use m False c in \<open>simp add: putHandler_def Let_def k\<close>)
qed

lemma putHandler_claimed:
  assumes "live_token (pe_claim env) (request_upload_token r) cu = Some t"
    and "c1 = mid1 (snd (up_claim (pe_claim env) (request_upload_token r) cu))"
  shows "putHandler env mid1 mid2 rctx r body cu =
    (case hand_over env (tn_name t) (tn_handle t) (pb_length body) (cu_tasks c1) of
      ((Inl err, cl), m) \<Rightarrow>
        (\<lparr>pr_response = http_Error [] (upload_error_text err) 500, pr_executed = None, pr_closed = cl\<rparr>,
         c1\<lparr>cu_tasks := m\<rparr>)
    | ((Inr (tid, xc), cl), m) \<Rightarrow>
        (case copy_body (cu_maxBytes cu) (pe_takes env) (pb_chunks body) (pb_end body) of
          Some err \<Rightarrow>
            (case cancel_upload (pe_cancel env) tid (cu_tasks (mid2 (c1\<lparr>cu_tasks := m\<rparr>))) of (cl', m') \<Rightarrow>
              (\<lparr>pr_response = http_Error [] ''request body not fully received''
                  (if err = BodyTooLarge then 413 else 500),
                pr_executed = Some (tid, xc, tn_jwt t), pr_closed = cl @ cl'\<rparr>,
               (mid2 (c1\<lparr>cu_tasks := m\<rparr>))\<lparr>cu_tasks := m'\<rparr>))
        | None \<Rightarrow>
            (\<lparr>pr_response = accepted_response tid, pr_executed = Some (tid, xc, tn_jwt t), pr_closed = cl\<rparr>,
             mid2 (c1\<lparr>cu_tasks := m\<rparr>))))"
proof -
  have ne: "request_upload_token r \<noteq> []" and t: "gget (cu_tokens cu) (request_upload_token r) = Some t"
    and live: "\<not> token_dead (pe_claim env) t"
    using assms(1) by (auto simp: live_token_def split: if_splits option.splits)
  have m: "rq_method r = ''PUT''" and k: "trim_prefix (rq_path r) ''/upload/'' = request_upload_token r"
    using ne by (auto simp: request_upload_token_def split: if_splits)
  have c: "up_claim (pe_claim env) (request_upload_token r) cu =
      (Some (tn_name t, tn_handle t, tn_jwt t), snd (up_claim (pe_claim env) (request_upload_token r) cu))"
    using t live by (simp add: up_claim_def Let_def)
  show ?thesis
    unfolding putHandler_def assms(2) using m ne
    by (simp only: k Let_def cred_From_With)
      (subst c, simp split: sum.split prod.split option.split)
qed

lemma hand_over_refused:
  assumes "um_inv m" and "hand_over env name handle len m = ((Inl err, cl), m')"
  shows "cl = [pe_pipe env]"
proof (cases "handle = []")
  case True
  then have "um_Start (pe_fresh env) (pe_now env) (pe_t1 env) (pe_t2 env) (pe_pipe env) len name False m
      = ((Inl err, cl), m')" using assms(2) by (simp add: hand_over_def)
  from um_Start_effect [OF assms(1) this] show ?thesis by simp
next
  case False
  then have "um_Fulfill handle (pe_t1 env) (pe_t2 env) (pe_pipe env) len name False m = ((Inl err, cl), m')"
    using assms(2) by (auto simp: hand_over_def split: prod.splits sum.splits)
  from um_Fulfill_effect [OF assms(1) this] show ?thesis by simp
qed

lemma hand_over_bound:
  assumes "um_inv m" and "handle \<noteq> []" and "hand_over env name handle len m = ((Inr (tid, xc), cl), m')"
  shows "tid = handle \<and> cl = [] \<and> xc_reader xc = pe_pipe env \<and> xc_size xc = len
    \<and> (\<exists>tt. gget (um_tasks m) handle = Some tt \<and> tk_state tt = Prepared
         \<and> xc_archiveMode xc = tk_archiveMode tt \<and> xc_wrap xc = tk_wrap tt
         \<and> gget (um_tasks m') handle = Some (claimed_task (pe_t2 env) (tk_task tt) (pe_pipe env)))"
proof -
  have f: "um_Fulfill handle (pe_t1 env) (pe_t2 env) (pe_pipe env) len name False m = ((Inr xc, cl), m')"
    and tid: "tid = handle"
    using assms(2,3) by (auto simp: hand_over_def split: prod.splits sum.splits)
  obtain tt where tt: "gget (um_tasks m) handle = Some tt" "tk_state tt = Prepared" "cl = []"
      "tasks_set handle (claimed_task (pe_t2 env) (tk_task tt) (pe_pipe env)) m m'"
    using um_Fulfill_effect [OF assms(1) f] by auto
  have "xc_reader xc = pe_pipe env \<and> xc_size xc = len \<and> xc_archiveMode xc = tk_archiveMode tt \<and> xc_wrap xc = tk_wrap tt"
    using f tt(1,2) by (auto simp: um_Fulfill_def Let_def split: if_splits prod.splits option.splits)
  then show ?thesis using tid tt by (auto simp: tasks_set_def)
qed

lemma hand_over_accepted:
  assumes "um_inv m" and "hand_over env name handle len m = ((Inr (tid, xc), cl), m')"
  shows "tid = (if handle = [] then pe_fresh env else handle) \<and> cl = []
    \<and> xc_reader xc = pe_pipe env \<and> xc_size xc = len
    \<and> (handle \<noteq> [] \<longrightarrow> (\<exists>tt. gget (um_tasks m) tid = Some tt \<and> tk_state tt = Prepared
         \<and> xc_archiveMode xc = tk_archiveMode tt \<and> xc_wrap xc = tk_wrap tt))"
proof (cases "handle = []")
  case True
  then have "um_Start (pe_fresh env) (pe_now env) (pe_t1 env) (pe_t2 env) (pe_pipe env) len name False m
      = ((Inr (tid, xc), cl), m')" using assms(2) by (simp add: hand_over_def)
  then show ?thesis using True
    by (auto simp: um_Start_def Let_def split: if_splits prod.splits option.splits)
next
  case False
  then show ?thesis using hand_over_bound [OF assms(1) False assms(2)] by auto
qed

lemma cancel_upload_effect:
  assumes "gget (um_tasks (snd (cancel_upload now k m))) k = Some t"
  shows "tk_state t \<notin> {Prepared, Queued, Running}
    \<and> (fst (cancel_upload now k m) \<noteq> [] \<longrightarrow> tk_state t = Cancelled \<and> tk_reader t = None)"
proof (cases "gget (um_tasks m) k")
  case None
  then show ?thesis using assms
    by (cases "gget (um_tombs m) k") (simp_all add: cancel_upload_def um_Cancel_def)
next
  case (Some u)
  show ?thesis
  proof (cases "tk_state u \<in> {Prepared, Queued, Running}")
    case True
    then show ?thesis using assms Some
      by (auto simp: cancel_upload_def um_Cancel_def closeReader_def split: if_splits option.splits)
  next
    case False
    then show ?thesis using assms Some by (simp add: cancel_upload_def um_Cancel_def)
  qed
qed

text \<open>
  C5. The answer to a PUT, on every branch and whatever other goroutines do in between. A
  request that is not a PUT on a live, unclaimed token is refused with 405 or 404, runs
  nothing and leaves the tasks alone. Otherwise the token is spent by this request. When the
  manager refuses the bytes the answer is 500, nothing runs and the pipe is closed. When it
  accepts them, the executor is called with the pipe, the declared length and the
  credential recorded at the mint, for the endpoint's own handle when it was prepared (a task
  that was still prepared, with its recorded archive mode and wrap flag); the answer is
  202, naming the handle, exactly when the body ended within the byte cap and every byte of
  it went through the pipe; it is 413 when the body is over the cap and 500 when it broke
  off or the pipe was closed early.
\<close>

theorem put_outcome:
  assumes "0 \<le> cu_maxBytes cu"
    and "um_inv (cu_tasks (mid1 (snd (up_claim (pe_claim env) (request_upload_token r) cu))))"
    and "putHandler env mid1 mid2 rctx r body cu = (rep, cu')"
  shows "case live_token (pe_claim env) (request_upload_token r) cu of
      None \<Rightarrow> hr_status (pr_response rep) = (if rq_method r = ''PUT'' then 404 else 405)
        \<and> pr_executed rep = None \<and> pr_closed rep = [] \<and> cu_tasks cu' = cu_tasks cu
    | Some t \<Rightarrow>
        (case pr_executed rep of
           None \<Rightarrow> hr_status (pr_response rep) = 500 \<and> pr_closed rep = [pe_pipe env]
         | Some (tid, xc, jwt) \<Rightarrow>
             tid = (if tn_handle t = [] then pe_fresh env else tn_handle t)
           \<and> xc_reader xc = pe_pipe env \<and> xc_size xc = pb_length body \<and> jwt = tn_jwt t
           \<and> (tn_handle t \<noteq> [] \<longrightarrow>
                (\<exists>tt. gget (um_tasks (cu_tasks (mid1 (snd (up_claim (pe_claim env) (request_upload_token r) cu))))) tid
                       = Some tt
                    \<and> tk_state tt = Prepared
                    \<and> xc_archiveMode xc = tk_archiveMode tt \<and> xc_wrap xc = tk_wrap tt))
           \<and> (let total = sum_list (pb_chunks body); cap = cu_maxBytes cu in
               if \<not> pipe_takes (pe_takes env) (min total (nat cap)) then hr_status (pr_response rep) = 500
               else if cap < int total then hr_status (pr_response rep) = 413
               else if pb_end body = BodyFailed then hr_status (pr_response rep) = 500
               else pr_response rep = accepted_response tid))"
proof (cases "live_token (pe_claim env) (request_upload_token r) cu")
  case None
  then show ?thesis using putHandler_refused [OF None, of mid1 mid2 rctx body] assms(3)
    by (auto simp: refused_def)
next
  case (Some t)
  define c1 where "c1 = mid1 (snd (up_claim (pe_claim env) (request_upload_token r) cu))"
  have inv: "um_inv (cu_tasks c1)" using assms(2) by (simp add: c1_def)
  obtain res cl m where h: "hand_over env (tn_name t) (tn_handle t) (pb_length body) (cu_tasks c1) = ((res, cl), m)"
    by (metis surj_pair)
  note run = putHandler_claimed [OF Some, where ?c1.0 = c1 and ?mid1.0 = mid1 and ?mid2.0 = mid2 and rctx = rctx
      and body = body, OF c1_def, unfolded h]
  note copy = copy_body_exact [OF assms(1), of "pe_takes env" "pb_chunks body" "pb_end body"]
  show ?thesis
  proof (cases res)
    case (Inl err)
    have "cl = [pe_pipe env]" by (rule hand_over_refused [OF inv h [unfolded Inl]])
    then show ?thesis using Some run assms(3) by (auto simp: Inl)
  next
    case (Inr p)
    obtain tid xc where p: "p = (tid, xc)" by fastforce
    note acc = hand_over_accepted [OF inv h [unfolded Inr p]]
    have ex: "pr_executed rep = Some (tid, xc, tn_jwt t)"
      using run assms(3) by (auto simp: Inr p split: option.splits prod.splits)
    have st: "case copy_body (cu_maxBytes cu) (pe_takes env) (pb_chunks body) (pb_end body) of
        Some err \<Rightarrow> hr_status (pr_response rep) = (if err = BodyTooLarge then 413 else 500)
      | None \<Rightarrow> pr_response rep = accepted_response tid"
      using run assms(3) by (auto simp: Inr p split: option.splits prod.splits)
    show ?thesis
      using acc st Some ex unfolding copy
      by (auto simp: c1_def [symmetric] Let_def split: if_splits)
  qed
qed

definition demo_put :: http_request where
  "demo_put = \<lparr>rq_method = ''PUT'', rq_path = ''/upload/tok'', rq_headers = []\<rparr>"

definition demo_env :: put_env where
  "demo_env = \<lparr>pe_claim = 2, pe_now = 2, pe_t1 = 2, pe_t2 = 2, pe_cancel = 3, pe_fresh = ''new'',
     pe_pipe = 1, pe_takes = None\<rparr>"

definition demo_prepared :: "nat upload" where
  "demo_prepared = snd (up_Prepare demo_listen ''tok'' ''h'' 1 1 1 1 demo_ctx [] 10 [] demo_upload)"

lemma demo_prepared_inv: "um_inv (cu_tasks demo_prepared)"
proof -
  have "um_inv (snd (um_Prepare ''h'' 1 1 DefaultUploadName 10 [] demo_manager))"
    by (rule um_Prepare_inv [OF demo_manager_inv]) (simp_all add: demo_manager_def)
  moreover have "cu_tasks demo_prepared = snd (um_Prepare ''h'' 1 1 DefaultUploadName 10 [] demo_manager)"
    by code_simp
  ultimately show ?thesis by simp
qed

theorem put_outcome_witness:
  "hr_status (pr_response (fst (putHandler demo_env (\<lambda>c. c) (\<lambda>c. c) demo_ctx demo_put
      \<lparr>pb_chunks = [60, 41], pb_end = BodyEOF, pb_length = -1\<rparr> demo_prepared))) = 413"
proof -
  let ?b = "\<lparr>pb_chunks = [60, 41], pb_end = BodyEOF, pb_length = -1\<rparr>"
  let ?r = "putHandler demo_env (\<lambda>c. c) (\<lambda>c. c) demo_ctx demo_put ?b demo_prepared"
  have cap: "cu_maxBytes demo_prepared = 100" by code_simp
  have lt: "live_token (pe_claim demo_env) (request_upload_token demo_put) demo_prepared =
      Some \<lparr>tn_name = ''upload'', tn_expires = 11, tn_used = False, tn_handle = ''h'', tn_jwt = ''jwt''\<rparr>"
    by code_simp
  have ex: "pr_executed (fst ?r) \<noteq> None" by code_simp
  have inv: "um_inv (cu_tasks (snd (up_claim (pe_claim demo_env) (request_upload_token demo_put) demo_prepared)))"
    by (simp add: demo_prepared_inv)
  have takes: "pipe_takes (pe_takes demo_env) n" for n by (simp add: demo_env_def pipe_takes_def)
  have "?r = (fst ?r, snd ?r)" by simp
  from put_outcome [where ?mid1.0 = "\<lambda>c. c", OF _ inv this] lt ex cap takes
  show ?thesis by (auto simp: Let_def split: option.splits)
qed

text \<open>
  C23. A body that was not fully received never becomes an upload. When the executor was
  called but the request is not answered with 202, the handler has cancelled the task: once
  it returns, the task of the handle is no longer prepared, queued or running, and if it was
  the handler that ended it, the task is cancelled and holds no open reader. This holds
  whatever other goroutines do to the coordinator and the tasks while the body is copied.
\<close>

theorem truncated_body_never_live:
  assumes "putHandler env mid1 mid2 rctx r body cu = (rep, cu')"
    and "pr_executed rep = Some (tid, xc, jwt)" and "hr_status (pr_response rep) \<noteq> 202"
    and "gget (um_tasks (cu_tasks cu')) tid = Some t"
  shows "tk_state t \<notin> {Prepared, Queued, Running}
    \<and> (pr_closed rep \<noteq> [] \<longrightarrow> tk_state t = Cancelled \<and> tk_reader t = None)"
proof -
  obtain tok where tok: "live_token (pe_claim env) (request_upload_token r) cu = Some tok"
    using assms(1,2) putHandler_refused [of env r cu mid1 mid2 rctx body]
    by (cases "live_token (pe_claim env) (request_upload_token r) cu") (auto simp: refused_def)
  define c1 where "c1 = mid1 (snd (up_claim (pe_claim env) (request_upload_token r) cu))"
  obtain res cl m where h: "hand_over env (tn_name tok) (tn_handle tok) (pb_length body) (cu_tasks c1) = ((res, cl), m)"
    by (metis surj_pair)
  note run = putHandler_claimed [OF tok, where ?c1.0 = c1 and ?mid1.0 = mid1 and ?mid2.0 = mid2 and rctx = rctx
      and body = body, OF c1_def, unfolded h]
  obtain p where res: "res = Inr p" using run assms(1,2) by (cases res) auto
  obtain k x where p: "p = (k, x)" by fastforce
  let ?m2 = "cu_tasks (mid2 (c1\<lparr>cu_tasks := m\<rparr>))"
  obtain err where err: "copy_body (cu_maxBytes cu) (pe_takes env) (pb_chunks body) (pb_end body) = Some err"
    using run assms(1,3) by (cases "copy_body (cu_maxBytes cu) (pe_takes env) (pb_chunks body) (pb_end body)")
      (auto simp: res p accepted_response_def)
  have k: "k = tid" and cl: "pr_closed rep = cl @ fst (cancel_upload (pe_cancel env) tid ?m2)"
    and cu': "cu_tasks cu' = snd (cancel_upload (pe_cancel env) tid ?m2)"
    using run assms(1,2) by (auto simp: res p err split: prod.splits)
  have "cl = []" using h unfolding res p
    by (auto simp: hand_over_def um_Start_def um_Fulfill_def Let_def
        split: if_splits prod.splits option.splits upload_state.splits sum.splits)
  then show ?thesis
    using cancel_upload_effect [of "pe_cancel env" tid ?m2 t] assms(4) cl cu' by simp
qed

theorem truncated_body_never_live_witness:
  "let p = putHandler demo_env (\<lambda>c. c) (\<lambda>c. c) demo_ctx demo_put
             \<lparr>pb_chunks = [60], pb_end = BodyFailed, pb_length = 80\<rparr> demo_prepared
   in \<exists>t. gget (um_tasks (cu_tasks (snd p))) ''h'' = Some t \<and> tk_state t = Cancelled \<and> pr_closed (fst p) = [1]"
proof -
  let ?p = "putHandler demo_env (\<lambda>c. c) (\<lambda>c. c) demo_ctx demo_put
      \<lparr>pb_chunks = [60], pb_end = BodyFailed, pb_length = 80\<rparr> demo_prepared"
  have p: "?p = (fst ?p, snd ?p)" by simp
  have ex: "map_option fst (pr_executed (fst ?p)) = Some ''h''" by code_simp
  then obtain xc jwt where "pr_executed (fst ?p) = Some (''h'', xc, jwt)" by auto
  moreover have "hr_status (pr_response (fst ?p)) \<noteq> 202" by code_simp
  moreover obtain t where t: "gget (um_tasks (cu_tasks (snd ?p))) ''h'' = Some t"
  proof -
    have "gget (um_tasks (cu_tasks (snd ?p))) ''h'' \<noteq> None" by code_simp
    then show thesis using that by blast
  qed
  moreover have "pr_closed (fst ?p) = [1]" by code_simp
  ultimately show ?thesis using truncated_body_never_live [OF p, of "''h''" xc jwt t] by (auto simp: Let_def)
qed

lemma um_Prepare_static:
  "um_ttl (snd (um_Prepare k now tp name ttl opts m)) = um_ttl m"
  "um_exec (snd (um_Prepare k now tp name ttl opts m)) = um_exec m"
  "fst (um_Prepare k now tp name ttl opts m) = Inr h \<Longrightarrow> um_exec m"
  by (simp_all add: um_Prepare_def Let_def split: option.splits if_splits)

text \<open>
  An endpoint can outlive its prepared task. The task's window runs from the creation
  instant the manager read, the endpoint's from a clock read after that: in the gap between
  the two expiries, once any call has pruned the manager, \<open>FindUpload\<close> still offers the URL
  as continuable while a PUT to it is answered 500 because the handle has expired. The
  comment in \<open>Prepare\<close> says the recorded TTL guarantees the opposite.
\<close>

theorem endpoint_outlives_task:
  assumes "cu_inv cu" and "gget (cu_tokens cu) token = None" and "fresh_handle hid cu"
    and inv: "um_inv (cu_tasks cu)" and ttl: "0 < um_ttl (cu_tasks cu)"
    and fresh: "hid \<notin> gkeys (um_tasks (cu_tasks cu))" "hid \<notin> gkeys (um_tombs (cu_tasks cu))"
    and prep: "up_Prepare listen token hid now tp t1 t2 ctx name ttl opts cu = ((url, hid), cu1)"
    and gap: "now + (if ttl \<le> 0 then DefaultHTTPUploadTTL else ttl) < u"
      "u \<le> t2 + (if ttl \<le> 0 then DefaultHTTPUploadTTL else ttl)"
    and req: "request_upload_token r = token" "token \<noteq> []" "pe_claim env = u"
  shows "let cu2 = cu1\<lparr>cu_tasks := um_prune u (cu_tasks cu1)\<rparr> in
     FindUpload u hid cu2 = (URLFor ''upload'' token (cu_loopback cu2), True)
   \<and> pr_response (fst (putHandler env (\<lambda>c. c) mid2 rctx r body cu2))
       = http_Error [] (upload_error_text (HandleExpired hid)) 500"
proof -
  let ?ttl = "if ttl \<le> 0 then DefaultHTTPUploadTTL else ttl"
  let ?m = "cu_tasks cu1" let ?cu2 = "cu1\<lparr>cu_tasks := um_prune u ?m\<rparr>"
  have hid: "hid \<noteq> []" using assms(3) by simp
  have inv1: "cu_inv cu1"
    using up_Prepare_inv [OF assms(1-3), of listen now tp t1 t2 ctx name ttl opts] prep by simp
  obtain t where t: "gget (cu_tokens cu1) token = Some t" "tn_handle t = hid" "\<not> tn_used t" "tn_expires t = t2 + ?ttl"
    and p: "um_Prepare hid now tp (if name = [] then DefaultUploadName else name) ?ttl opts (cu_tasks cu) = (Inr hid, ?m)"
  proof (cases rule: up_Prepare_cases [of listen token hid now tp t1 t2 ctx name ttl opts cu])
    case (failed lb m)
    then show thesis using prep hid by simp
  next
    case (prepared lb m tok c)
    have cu1: "cu1 = c\<lparr>cu_tokens := gset token tok (cu_tokens c), cu_byHandle := gset hid token (cu_byHandle c)\<rparr>"
      using prep unfolding prepared(7) by simp
    have "gget (cu_tokens cu1) token = Some tok" "cu_tasks cu1 = m" unfolding cu1 prepared(6) by simp_all
    then show thesis using prepared(1,2,4,5) that [of tok] by blast
  qed
  have minv: "um_inv ?m"
    using um_Prepare_inv [OF inv fresh, of now tp "if name = [] then DefaultUploadName else name" ?ttl opts]
    unfolding p by simp
  have mttl: "0 < um_ttl ?m" and ex: "um_exec ?m"
    using um_Prepare_static [of hid now tp "if name = [] then DefaultUploadName else name" ?ttl opts "cu_tasks cu"] ttl
    unfolding p by simp_all
  obtain nm mode w where tk: "gget (um_tasks ?m) hid = Some (prepared_task hid nm now ?ttl mode w)"
    using um_Prepare_effect [OF inv p] by (auto simp: tasks_set_def)
  let ?tt = "prepared_task hid nm now ?ttl mode w"
  have st: "tk_state ?tt = Prepared" "ut_created (tk_task ?tt) = now" "prepared_ttl ?m ?tt = ?ttl" "0 < ?ttl"
    by (simp_all add: prepared_task_def new_task_def prepared_ttl_def DefaultHTTPUploadTTL_def minute_def second_def)
  have due: "tombed ?m u hid = Some (lapsed_tomb u ?tt)"
  proof -
    have "tomb_for ?m u ?tt = Some (lapsed_tomb u ?tt)"
      unfolding tomb_for_prepared [OF st(1)] st(2,3)
      by (rule if_P, rule conjI [OF st(4)]) (use gap(1) in linarith)
    then show ?thesis by (simp only: tombed_def tk option.case)
  qed
  have "gget (um_tombs (um_prune u ?m)) hid = Some (lapsed_tomb u ?tt)"
    using um_prune_young [OF minv mttl, of u hid] mttl by (simp add: due stale_def lapsed_tomb_def)
  then have dead: "hid \<in> gkeys (um_tombs (um_prune u ?m))" by (rule gget_in_keys)
  have inv2: "cu_inv ?cu2" using inv1 by (simp add: cu_inv_def)
  have live: "live_token (pe_claim env) (request_upload_token r) ?cu2 = Some t"
    using t gap(2) req by (simp add: live_token_def)
  have find: "FindUpload u hid ?cu2 = (URLFor ''upload'' token (cu_loopback ?cu2), True)"
  proof -
    have "gget (cu_tokens ?cu2) token = Some t" "\<not> token_dead u t" "tn_handle t \<noteq> []" using t gap(2) hid by simp_all
    from FindUpload_live [OF inv2 this] show ?thesis unfolding t(2) .
  qed
  have "hand_over env (tn_name t) hid (pb_length body)
      (cu_tasks (snd (up_claim (pe_claim env) (request_upload_token r) ?cu2)))
      = ((Inl (HandleExpired hid), [pe_pipe env]), um_prune u ?m)"
    using hid dead ex by (simp add: hand_over_def um_Fulfill_def)
  then have "pr_response (fst (putHandler env (\<lambda>c. c) mid2 rctx r body ?cu2))
      = http_Error [] (upload_error_text (HandleExpired hid)) 500"
    using putHandler_claimed [OF live refl, of "\<lambda>c. c" mid2 rctx body] t(2) by simp
  then show ?thesis using find by (simp add: Let_def)
qed

theorem endpoint_outlives_task_witness:
  "let cu1 = snd (up_Prepare demo_listen ''tok'' ''h'' 1 1 1 3 demo_ctx [] 10 [] demo_upload);
       cu2 = cu1\<lparr>cu_tasks := um_prune 12 (cu_tasks cu1)\<rparr>
   in FindUpload 12 ''h'' cu2 = (''http://a:1/upload/tok'', True)"
proof -
  let ?P = "up_Prepare demo_listen ''tok'' ''h'' 1 1 1 3 demo_ctx [] 10 [] demo_upload"
  have m: "cu_tasks demo_upload = demo_manager" by (simp add: demo_upload_def NewHTTPUpload_def)
  have inv: "cu_inv demo_upload" by (simp add: demo_upload_def cu_inv_new)
  have fresh: "gget (cu_tokens demo_upload) ''tok'' = None" "fresh_handle ''h'' demo_upload"
    by (simp_all add: demo_upload_def NewHTTPUpload_def)
  have um: "um_inv (cu_tasks demo_upload)" "0 < um_ttl (cu_tasks demo_upload)"
    "''h'' \<notin> gkeys (um_tasks (cu_tasks demo_upload))" "''h'' \<notin> gkeys (um_tombs (cu_tasks demo_upload))"
    by (simp_all add: m demo_manager_inv) (simp_all add: demo_manager_def)
  have P: "?P = ((fst (fst ?P), ''h''), snd ?P)" by code_simp
  have gap: "1 + (if (10::int) \<le> 0 then DefaultHTTPUploadTTL else 10) < 12"
    "12 \<le> 3 + (if (10::int) \<le> 0 then DefaultHTTPUploadTTL else 10)" by simp_all
  have req: "request_upload_token demo_put = ''tok''" "''tok'' \<noteq> []" by code_simp+
  have env: "pe_claim (demo_env\<lparr>pe_claim := 12\<rparr>) = 12" by simp
  have url: "URLFor ''upload'' ''tok'' (cu_loopback (snd ?P)) = ''http://a:1/upload/tok''" by code_simp
  show ?thesis
    using endpoint_outlives_task [OF inv fresh um P gap req env] url by (simp add: Let_def)
qed

end
