(* ===== verification/DownloadHttp.thy ===== *)
theory DownloadHttp
  imports UploadTasks Loopback Http Contracts
begin

unbundle bit_operations_syntax

text \<open>
  \<open>transfer/download_http.go\<close> and \<open>transfer/download_limits.go\<close>: the coordinator of the
  one-time GET endpoints, the writer it answers through and the byte cap of a stream. A
  token carries its serve closure, modelled by the run it makes for a context (the chunks
  it writes and its error), and its cleanup hook, modelled by a number: operations report
  the hooks they run, in order. Sizes are 64-bit words read as signed integers.
\<close>

section \<open>The response writer\<close>

text \<open>
  A \<open>net/http\<close> response: the header map, what the first \<open>WriteHeader\<close> or \<open>Write\<close> committed,
  and the body written so far.
\<close>

record response_writer =
  rw_headers :: "(string, string) gomap"
  rw_committed :: "(nat \<times> (string, string) gomap) option"
  rw_body :: string

definition new_writer :: response_writer where
  "new_writer = \<lparr>rw_headers = [], rw_committed = None, rw_body = []\<rparr>"

definition rw_set :: "string \<Rightarrow> string \<Rightarrow> response_writer \<Rightarrow> response_writer" where
  "rw_set k v w = w\<lparr>rw_headers := gset k v (rw_headers w)\<rparr>"

definition rw_WriteHeader :: "nat \<Rightarrow> response_writer \<Rightarrow> response_writer" where
  "rw_WriteHeader code w =
     (if rw_committed w = None then w\<lparr>rw_committed := Some (code, rw_headers w)\<rparr> else w)"

definition rw_Write :: "string \<Rightarrow> response_writer \<Rightarrow> response_writer" where
  "rw_Write p w = (let w' = rw_WriteHeader 200 w in w'\<lparr>rw_body := rw_body w' @ p\<rparr>)"

definition rw_Error :: "string \<Rightarrow> nat \<Rightarrow> response_writer \<Rightarrow> response_writer" where
  "rw_Error msg code w =
     rw_Write (msg @ [CHR 0x0A])
       (rw_WriteHeader code
         (w\<lparr>rw_headers := gset ''X-Content-Type-Options'' ''nosniff''
             (gset ''Content-Type'' ''text/plain; charset=utf-8'' (gdel ''Content-Length'' (rw_headers w)))\<rparr>))"

text \<open>The response the client sees: a handler that commits nothing answers 200.\<close>

definition response_of :: "response_writer \<Rightarrow> http_response" where
  "response_of w =
     (case rw_committed w of
        Some (code, hs) \<Rightarrow> \<lparr>hr_status = code, hr_headers = hs, hr_body = rw_body w\<rparr>
      | None \<Rightarrow> \<lparr>hr_status = 200, hr_headers = rw_headers w, hr_body = rw_body w\<rparr>)"

text \<open>\<open>deferredResponseWriter\<close>: it withholds the status until the first byte or \<open>finish\<close>.\<close>

record deferred_writer =
  dw_under :: response_writer
  dw_wroteHeader :: bool
  dw_status :: nat

definition dw_WriteHeader :: "nat \<Rightarrow> deferred_writer \<Rightarrow> deferred_writer" where
  "dw_WriteHeader code dw =
     (if dw_wroteHeader dw then dw
      else dw\<lparr>dw_wroteHeader := True, dw_status := code, dw_under := rw_WriteHeader code (dw_under dw)\<rparr>)"

definition dw_Write :: "string \<Rightarrow> deferred_writer \<Rightarrow> deferred_writer" where
  "dw_Write p dw =
     (let dw' = (if \<not> dw_wroteHeader dw then dw_WriteHeader 200 dw else dw)
      in dw'\<lparr>dw_under := rw_Write p (dw_under dw')\<rparr>)"

definition dw_finish :: "deferred_writer \<Rightarrow> deferred_writer" where
  "dw_finish dw = (if \<not> dw_wroteHeader dw then dw_WriteHeader 200 dw else dw)"

section \<open>The byte cap of a stream\<close>

text \<open>
  \<open>SizeLimitedWriter\<close>: \<open>len\<close> is the length of the slice, \<open>n\<close> the bytes the underlying writer
  takes of it. The sum of the check is computed at 64 bits.
\<close>

record limited_writer =
  lw_maxBytes :: "64 word"
  lw_written :: "64 word"

definition NewSizeLimitedWriter :: "64 word \<Rightarrow> limited_writer" where
  "NewSizeLimitedWriter maxBytes = \<lparr>lw_maxBytes = maxBytes, lw_written = 0\<rparr>"

definition lw_Write :: "nat \<Rightarrow> nat \<Rightarrow> limited_writer \<Rightarrow> (64 word, nat) result \<times> limited_writer" where
  "lw_Write len n lw =
     (if 0 < sint (lw_maxBytes lw) \<and> sint (lw_maxBytes lw) < sint (lw_written lw + word_of_nat len)
      then (Inl (lw_maxBytes lw), lw)
      else (Inr n, lw\<lparr>lw_written := lw_written lw + word_of_nat n\<rparr>))"

section \<open>Headers\<close>

text \<open>\<open>itoa\<close>: the digits are written from the end of a 20-byte buffer.\<close>

definition digit :: "nat \<Rightarrow> char" where
  "digit d = char_of (48 + d)"

function dec_loop :: "nat \<Rightarrow> string \<Rightarrow> string" where
  "dec_loop n acc = (if n = 0 then acc else dec_loop (n div 10) (digit (n mod 10) # acc))"
  by pat_completeness auto
termination by (relation "measure fst") auto

declare dec_loop.simps [simp del]

definition itoa :: "64 word \<Rightarrow> string" where
  "itoa n =
     (if n = 0 then ''0''
      else
        let neg = sint n < 0; m = (if neg then - n else n);
            b = (if 0 < sint m then dec_loop (nat (sint m)) [] else [])
        in if neg then CHR ''-'' # b else b)"

definition unsafe_name_chars :: "char set" where
  "unsafe_name_chars =
     {CHR ''/'', CHR 0x5C, CHR 0x22, CHR 0x0D, CHR 0x0A, CHR '':'', CHR ''*'', CHR ''?'',
      CHR ''|'', CHR ''<'', CHR ''>''}"

text \<open>The name is valid UTF-8, so the replaced runes are single bytes.\<close>

definition SanitizeFilename :: "string \<Rightarrow> string" where
  "SanitizeFilename name =
     (if name = [] then ''download''
      else
        let out = map (\<lambda>r. if r \<in> unsafe_name_chars then CHR ''_'' else r) name
        in if out = [] \<or> out = ''.'' \<or> out = ''..'' then ''download'' else out)"

section \<open>The coordinator\<close>

text \<open>The error of a serve closure: its text, and whether it wraps the over-cap error.\<close>

datatype serve_error = ServeError (se_text: string) (se_too_large: bool)

record serve_run =
  sv_chunks :: "string list" \<comment> \<open>the slices the response accepted, in order\<close>
  sv_err :: "serve_error option"

definition IsDownloadTooLarge :: "serve_error \<Rightarrow> bool" where
  "IsDownloadTooLarge err = se_too_large err"

record download_token =
  dt_name :: string
  dt_size :: "64 word"
  dt_serve :: "go_context \<Rightarrow> serve_run"
  dt_expires :: time
  dt_used :: bool
  dt_cleanup :: "nat option"
  dt_jwt :: string

record download =
  hd_loopback :: loopback
  hd_tokens :: "(string, download_token) gomap"

definition NewHTTPDownload :: download where
  "NewHTTPDownload = \<lparr>hd_loopback = new_loopback, hd_tokens = []\<rparr>"

definition DefaultHTTPDownloadTTL :: duration where "DefaultHTTPDownloadTTL = 5 * minute"

definition release :: "download_token \<Rightarrow> nat list" where
  "release t = (case dt_cleanup t of None \<Rightarrow> [] | Some c \<Rightarrow> [c])"

definition dl_SetBaseURL :: "string \<Rightarrow> download \<Rightarrow> download" where
  "dl_SetBaseURL url d = d\<lparr>hd_loopback := lb_SetBaseURL url (hd_loopback d)\<rparr>"

definition dl_AddTrustedOrigins :: "string list \<Rightarrow> download \<Rightarrow> download" where
  "dl_AddTrustedOrigins origins d = d\<lparr>hd_loopback := AddTrustedOrigins origins (hd_loopback d)\<rparr>"

definition dl_Stop :: "download \<Rightarrow> download" where
  "dl_Stop d = d\<lparr>hd_loopback := lb_Stop (hd_loopback d)\<rparr>"

datatype mint_error = NoSource | ListenFailed string

text \<open>The loop of \<open>Mint\<close> over the expired tokens: the hooks it runs and what it keeps.\<close>

definition dl_expired :: "time \<Rightarrow> download \<Rightarrow> download_token list" where
  "dl_expired now d = filter (\<lambda>t. after now (dt_expires t)) (map snd (hd_tokens d))"

definition dl_prune :: "time \<Rightarrow> download \<Rightarrow> nat list \<times> download" where
  "dl_prune now d =
     (concat (map release (dl_expired now d)),
      d\<lparr>hd_tokens := gsweep (\<lambda>_ t. after now (dt_expires t)) (hd_tokens d)\<rparr>)"

definition dl_Mint ::
  "(string, string) result \<Rightarrow> string \<Rightarrow> time \<Rightarrow> go_context \<Rightarrow> string \<Rightarrow> 64 word \<Rightarrow>
   (go_context \<Rightarrow> serve_run) option \<Rightarrow> duration \<Rightarrow> nat option list \<Rightarrow> download \<Rightarrow>
   ((mint_error, string) result \<times> nat list) \<times> download" where
  "dl_Mint listen token now ctx name sz serve ttl cleanup d =
     (case serve of
        None \<Rightarrow> ((Inl NoSource, []), d)
      | Some f \<Rightarrow>
          (case EnsureLoopback listen (hd_loopback d) of
             ((Some e, started), lb) \<Rightarrow> ((Inl (ListenFailed e), []), d\<lparr>hd_loopback := lb\<rparr>)
           | ((None, started), lb) \<Rightarrow>
               let name' = (if name = [] then DefaultUploadName else name);
                   ttl' = (if ttl \<le> 0 then DefaultHTTPDownloadTTL else ttl);
                   cleanupFn = (case cleanup of [] \<Rightarrow> None | c # cs \<Rightarrow> c);
                   (released, d1) = dl_prune now (d\<lparr>hd_loopback := lb\<rparr>);
                   tok = \<lparr>dt_name = name', dt_size = sz, dt_serve = f, dt_expires = now + ttl',
                          dt_used = False, dt_cleanup = cleanupFn, dt_jwt = cred_From ctx\<rparr>
               in ((Inr (URLFor ''download'' token lb), released),
                   d1\<lparr>hd_tokens := gset token tok (hd_tokens d1)\<rparr>)))"

definition dl_claim ::
  "time \<Rightarrow> string \<Rightarrow> download \<Rightarrow> (download_token option \<times> nat list) \<times> download" where
  "dl_claim now token d =
     (case gget (hd_tokens d) token of
        None \<Rightarrow> ((None, []), d)
      | Some t \<Rightarrow>
          if dt_used t \<or> after now (dt_expires t)
          then ((None, release t), d\<lparr>hd_tokens := gdel token (hd_tokens d)\<rparr>)
          else ((Some (t\<lparr>dt_used := True\<rparr>), []),
                d\<lparr>hd_tokens := gset token (t\<lparr>dt_used := True\<rparr>) (hd_tokens d)\<rparr>))"

text \<open>The part of \<open>getHandler\<close> after the claim: the response and the hooks it runs.\<close>

definition serve_token :: "go_context \<Rightarrow> download_token \<Rightarrow> response_writer \<times> nat list" where
  "serve_token rctx t =
     (let w1 = rw_set ''Content-Disposition''
                 (''attachment; filename='' @ [CHR 0x22] @ SanitizeFilename (dt_name t) @ [CHR 0x22]) new_writer;
          w2 = rw_set ''Content-Type'' ''application/octet-stream'' w1;
          w3 = (if 0 < sint (dt_size t) then rw_set ''Content-Length'' (itoa (dt_size t)) w2 else w2);
          run = dt_serve t (cred_With rctx (dt_jwt t));
          dw = fold dw_Write (sv_chunks run) \<lparr>dw_under = w3, dw_wroteHeader = False, dw_status = 0\<rparr>
      in case sv_err run of
           Some err \<Rightarrow>
             (if dw_wroteHeader dw then (dw_under dw, release t)
              else (rw_Error (se_text err) (if IsDownloadTooLarge err then 413 else 500) (dw_under dw), release t))
         | None \<Rightarrow> (dw_under (dw_finish dw), release t))"

text \<open>
  \<open>getHandler\<close>; \<open>mid\<close> is what other goroutines do to the coordinator while the bytes are
  streamed. The hooks are those this request runs: of a dead token it removes, or of the
  token it has served.
\<close>

definition getHandler ::
  "time \<Rightarrow> (download \<Rightarrow> download) \<Rightarrow> go_context \<Rightarrow> http_request \<Rightarrow> download \<Rightarrow>
   (http_response \<times> nat list) \<times> download" where
  "getHandler now mid rctx r d =
     (if rq_method r \<noteq> ''GET'' then
        ((response_of (rw_Error ''method not allowed'' 405 (rw_set ''Allow'' ''GET'' new_writer)), []), d)
      else
        let token = trim_prefix (rq_path r) ''/download/''
        in if token = [] then ((http_NotFound, []), d)
           else (case dl_claim now token d of
              ((None, rel), d1) \<Rightarrow>
                ((response_of (rw_Error ''invalid, expired, or already-used download endpoint'' 404 new_writer), rel), d1)
            | ((Some t, rel), d1) \<Rightarrow>
                (case serve_token rctx t of (w, rel') \<Rightarrow> ((response_of w, rel @ rel'), mid d1))))"

section \<open>The size header\<close>

definition digit_value :: "char \<Rightarrow> nat" where
  "digit_value c = of_char c - 48"

definition digits_value :: "nat \<Rightarrow> string \<Rightarrow> nat" where
  "digits_value v ds = foldl (\<lambda>v c. v * 10 + digit_value c) v ds"

text \<open>The value of a decimal numeral, with an optional sign.\<close>

definition dec_value :: "string \<Rightarrow> int" where
  "dec_value s =
     (case s of [] \<Rightarrow> 0
      | c # ds \<Rightarrow> if c = CHR ''-'' then - int (digits_value 0 ds) else int (digits_value 0 s))"

lemma digit_value_digit: "d < 10 \<Longrightarrow> digit_value (digit d) = d"
  by (simp add: digit_value_def digit_def)

lemma digit_not_minus: "d < 10 \<Longrightarrow> digit d \<noteq> CHR ''-''"
proof
  assume "d < 10" and "digit d = CHR ''-''"
  then have "of_char (digit d) = (45 :: nat)" by simp
  with \<open>d < 10\<close> show False by (simp add: digit_def)
qed

lemma digits_value_loop: "digits_value 0 (dec_loop n acc) = digits_value n acc"
proof (induction n acc rule: dec_loop.induct)
  case (1 n acc)
  show ?case
  proof (cases "n = 0")
    case False
    have "dec_loop n acc = dec_loop (n div 10) (digit (n mod 10) # acc)"
      using False by (simp add: dec_loop.simps [of n acc])
    then show ?thesis using "1.IH" [OF False] by (simp add: digits_value_def digit_value_digit)
  qed (simp add: dec_loop.simps)
qed

lemma dec_loop_length: "n < 10 ^ k \<Longrightarrow> length (dec_loop n acc) \<le> k + length acc"
proof (induction n acc arbitrary: k rule: dec_loop.induct)
  case (1 n acc)
  show ?case
  proof (cases "n = 0")
    case False
    then obtain j where k: "k = Suc j" using "1.prems" by (cases k) auto
    have "n div 10 < 10 ^ j" using "1.prems" by (simp add: k less_mult_imp_div_less mult.commute)
    from "1.IH" [OF False this] show ?thesis
      using False by (simp add: dec_loop.simps [of n acc] k)
  qed (simp add: dec_loop.simps)
qed

lemma dec_loop_digits: "set (dec_loop n acc) \<subseteq> digit ` {..<10} \<union> set acc"
proof (induction n acc rule: dec_loop.induct)
  case (1 n acc)
  show ?case
  proof (cases "n = 0")
    case False
    have "digit (n mod 10) \<in> digit ` {..<10}" by simp
    then show ?thesis using "1.IH" [OF False] False by (auto simp: dec_loop.simps [of n acc])
  qed (simp add: dec_loop.simps)
qed

lemma dec_loop_unsigned: "n \<noteq> 0 \<Longrightarrow> dec_value (dec_loop n []) = int n"
proof (cases "dec_loop n []")
  case Nil
  assume "n \<noteq> 0"
  then show ?thesis using digits_value_loop [of n "[]"] Nil by (simp add: digits_value_def)
next
  case (Cons c ds)
  have "c \<in> digit ` {..<10}" using dec_loop_digits [of n "[]"] Cons by simp
  then have "c \<noteq> CHR ''-''" using digit_not_minus by auto
  then show ?thesis using digits_value_loop [of n "[]"] Cons by (simp add: dec_value_def digits_value_def)
qed

lemma sint_minus_word: "sint (n :: 64 word) \<noteq> - (2 ^ 63) \<Longrightarrow> sint (- n) = - sint n"
proof -
  assume ne: "sint n \<noteq> - (2 ^ 63)"
  have lo: "- (2 ^ 63) \<le> sint n" and hi: "sint n < 2 ^ 63"
    using sint_greater_eq [of n] sint_less [of n] by simp_all
  have "sint (- n) = signed_take_bit 63 (- sint n)"
    by (simp add: sint_word_ariths)
  also have "\<dots> = - sint n"
    using lo hi ne by (intro signed_take_bit_int_eq_self) simp_all
  finally show ?thesis .
qed

text \<open>
  \<open>itoa\<close> writes the decimal numeral of every 64-bit size but the least one, in at most the
  20 bytes of its buffer: reading the numeral back gives the signed value.
\<close>

theorem itoa_roundtrip:
  assumes "sint n \<noteq> - (2 ^ 63)"
  shows "dec_value (itoa n) = sint n \<and> length (itoa n) \<le> 20"
proof -
  have hi: "sint n < 2 ^ 63" and lo: "- (2 ^ 63) \<le> sint n"
    using sint_less [of n] sint_greater_eq [of n] by simp_all
  have len: "length (dec_loop (nat k) []) \<le> 19" if "k \<le> 2 ^ 63" for k :: int
  proof -
    have "nat k < 10 ^ 19" using that by simp
    from dec_loop_length [OF this, of "[]"] show ?thesis by simp
  qed
  consider (zero) "n = 0" | (pos) "0 < sint n" "n \<noteq> 0" | (neg) "sint n < 0" "n \<noteq> 0"
    by (metis linorder_neqE_linordered_idom sint_0 signed_eq_0_iff)
  then show ?thesis
  proof cases
    case zero
    then show ?thesis by (simp add: itoa_def dec_value_def digits_value_def digit_value_def)
  next
    case pos
    then show ?thesis using dec_loop_unsigned [of "nat (sint n)"] len [of "sint n"] hi
      by (simp add: itoa_def)
  next
    case neg
    have m: "sint (- n) = - sint n" using assms by (rule sint_minus_word)
    show ?thesis using neg m len [of "- sint n"] lo digits_value_loop [of "nat (- sint n)" "[]"]
      by (simp add: itoa_def Let_def dec_value_def digits_value_def)
  qed
qed

theorem itoa_roundtrip_witness: "itoa (- 1200) = ''-1200'' \<and> dec_value (itoa (- 1200)) = - 1200"
proof -
  have s: "sint (- 1200 :: 64 word) = - 1200" by code_simp
  then show ?thesis using itoa_roundtrip [of "- 1200"] by (simp, code_simp)
qed

text \<open>
  The least 64-bit value is its own negation, so \<open>itoa\<close> finds no digits to write and
  answers the bare sign.
\<close>

theorem itoa_least_is_sign: "itoa (- (2 ^ 63)) = ''-''"
  by code_simp

section \<open>The file name\<close>


section \<open>The cap\<close>

text \<open>A run of writes; the bytes that went through.\<close>

fun lw_run :: "(nat \<times> nat) list \<Rightarrow> limited_writer \<Rightarrow> nat \<times> limited_writer" where
  "lw_run [] lw = (0, lw)"
| "lw_run ((len, n) # ws) lw =
     (case lw_Write len n lw of
        (Inl e, lw') \<Rightarrow> lw_run ws lw'
      | (Inr k, lw') \<Rightarrow> (case lw_run ws lw' of (rest, lw'') \<Rightarrow> (k + rest, lw'')))"

lemma sint_word_of_nat: "n < 2 ^ 63 \<Longrightarrow> sint (word_of_nat n :: 64 word) = int n"
proof -
  assume "n < 2 ^ 63"
  then have "signed_take_bit 63 (int n) = int n"
    by (intro signed_take_bit_int_eq_self) (simp_all add: nat_less_iff flip: of_nat_power)
  then show ?thesis by (simp add: signed_of_nat)
qed

lemma sint_add_nat:
  assumes "0 \<le> sint w" and "sint w + int n < 2 ^ 63"
  shows "sint (w + word_of_nat n :: 64 word) = sint w + int n"
proof -
  have n: "n < 2 ^ 63" using assms by simp
  have "sint (w + word_of_nat n) = signed_take_bit 63 (sint w + sint (word_of_nat n :: 64 word))"
    by (simp add: sint_word_ariths)
  also have "\<dots> = sint w + int n"
    unfolding sint_word_of_nat [OF n] by (rule signed_take_bit_int_eq_self) (use assms in simp_all)
  finally show ?thesis .
qed

abbreviation write_ok :: "64 word \<Rightarrow> nat \<times> nat \<Rightarrow> bool" where
  "write_ok cap w \<equiv> snd w \<le> fst w \<and> int (fst w) + sint cap < 2 ^ 63"

lemma lw_Write_exact:
  assumes "0 < sint (lw_maxBytes lw)" and "0 \<le> sint (lw_written lw)"
    and "sint (lw_written lw) \<le> sint (lw_maxBytes lw)" and "int len + sint (lw_maxBytes lw) < 2 ^ 63"
  shows "lw_Write len n lw =
     (if sint (lw_maxBytes lw) < sint (lw_written lw) + int len then (Inl (lw_maxBytes lw), lw)
      else (Inr n, lw\<lparr>lw_written := lw_written lw + word_of_nat n\<rparr>))"
proof -
  have "sint (lw_written lw + word_of_nat len) = sint (lw_written lw) + int len"
    by (rule sint_add_nat) (use assms in linarith)+
  then show ?thesis using assms(1) by (simp add: lw_Write_def)
qed

lemma lw_run_bound:
  assumes "\<forall>w \<in> set ws. write_ok (lw_maxBytes lw) w"
    and "0 < sint (lw_maxBytes lw)" and "0 \<le> sint (lw_written lw)"
    and "sint (lw_written lw) \<le> sint (lw_maxBytes lw)"
  shows "sint (lw_written (snd (lw_run ws lw))) = sint (lw_written lw) + int (fst (lw_run ws lw))
    \<and> sint (lw_written (snd (lw_run ws lw))) \<le> sint (lw_maxBytes lw)
    \<and> (sint (lw_written lw) + int (sum_list (map fst ws)) \<le> sint (lw_maxBytes lw) \<longrightarrow>
         fst (lw_run ws lw) = sum_list (map snd ws))"
  using assms
proof (induction ws arbitrary: lw)
  case Nil
  then show ?case by simp
next
  case (Cons w ws)
  obtain len n where w: "w = (len, n)" by fastforce
  have ok: "n \<le> len" "int len + sint (lw_maxBytes lw) < 2 ^ 63" using Cons.prems(1) w by simp_all
  note wr = lw_Write_exact [OF Cons.prems(2-4) ok(2), of n]
  show ?case
  proof (cases "sint (lw_maxBytes lw) < sint (lw_written lw) + int len")
    case True
    have "lw_run (w # ws) lw = lw_run ws lw" using True by (simp add: w wr)
    then show ?thesis using Cons.IH [of lw] Cons.prems True w by auto
  next
    case False
    let ?lw = "lw\<lparr>lw_written := lw_written lw + word_of_nat n\<rparr>"
    have s: "sint (lw_written ?lw) = sint (lw_written lw) + int n"
      using sint_add_nat [of "lw_written lw" n] Cons.prems(3) ok False by simp
    have r: "lw_run (w # ws) lw = (n + fst (lw_run ws ?lw), snd (lw_run ws ?lw))"
      using False by (simp add: w wr split: prod.split)
    have "sint (lw_written ?lw) \<le> sint (lw_maxBytes ?lw)" "0 \<le> sint (lw_written ?lw)"
      unfolding s using ok False Cons.prems(3) by simp_all
    from Cons.IH [of ?lw, OF _ _ this(2,1)] Cons.prems(1,2)
    have IH: "sint (lw_written (snd (lw_run ws ?lw))) = sint (lw_written ?lw) + int (fst (lw_run ws ?lw))"
      "sint (lw_written (snd (lw_run ws ?lw))) \<le> sint (lw_maxBytes lw)"
      "sint (lw_written ?lw) + int (sum_list (map fst ws)) \<le> sint (lw_maxBytes lw) \<longrightarrow>
         fst (lw_run ws ?lw) = sum_list (map snd ws)" by simp_all
    show ?thesis using IH(1,2) IH(3) ok(1) unfolding r s by (auto simp: w)
  qed
qed

text \<open>
  A capped stream never lets more than the cap through, whatever slices are written and
  however many bytes of each the underlying writer takes: the bytes that reached it are at
  most the cap and are what the writer has counted, and when the slices fit the cap none is
  refused. The bound on the slice lengths keeps the sum of the check within 64 bits.
\<close>

theorem stream_cap_respected:
  assumes "0 < sint cap" and "\<forall>w \<in> set ws. write_ok cap w"
  shows "let (sent, lw) = lw_run ws (NewSizeLimitedWriter cap) in
     int sent \<le> sint cap \<and> sint (lw_written lw) = int sent
   \<and> (int (sum_list (map fst ws)) \<le> sint cap \<longrightarrow> sent = sum_list (map snd ws))"
proof -
  let ?lw = "NewSizeLimitedWriter cap"
  have f: "lw_maxBytes ?lw = cap" "sint (lw_written ?lw) = 0" by (simp_all add: NewSizeLimitedWriter_def)
  have "\<forall>w \<in> set ws. write_ok (lw_maxBytes ?lw) w" using assms(2) unfolding f .
  from lw_run_bound [OF this] assms(1)
  have "sint (lw_written (snd (lw_run ws ?lw))) = int (fst (lw_run ws ?lw))
    \<and> sint (lw_written (snd (lw_run ws ?lw))) \<le> sint cap
    \<and> (int (sum_list (map fst ws)) \<le> sint cap \<longrightarrow> fst (lw_run ws ?lw) = sum_list (map snd ws))"
    unfolding f by simp
  then show ?thesis by (simp add: split_beta Let_def)
qed

theorem stream_cap_respected_witness:
  "fst (lw_run [(60, 60), (60, 60), (40, 30)] (NewSizeLimitedWriter 100)) = 90
   \<and> int (fst (lw_run [(60, 60), (60, 60), (40, 30)] (NewSizeLimitedWriter 100))) \<le> 100"
proof -
  have "sint (100 :: 64 word) = 100" by code_simp
  moreover have "fst (lw_run [(60, 60), (60, 60), (40, 30)] (NewSizeLimitedWriter 100)) = 90" by code_simp
  ultimately show ?thesis
    using stream_cap_respected [of 100 "[(60, 60), (60, 60), (40, 30)]"] by (simp add: split_beta Let_def)
qed

section \<open>The answer to a GET\<close>

lemma dw_Write_after:
  assumes "dw_wroteHeader dw" and "rw_committed (dw_under dw) \<noteq> None"
  shows "fold dw_Write cs dw = dw\<lparr>dw_under := (dw_under dw)\<lparr>rw_body := rw_body (dw_under dw) @ concat cs\<rparr>\<rparr>"
  using assms
  by (induction cs arbitrary: dw) (simp_all add: dw_Write_def rw_Write_def rw_WriteHeader_def Let_def)

lemma dw_Write_first:
  assumes "rw_committed w = None"
  shows "fold dw_Write (c # cs) \<lparr>dw_under = w, dw_wroteHeader = False, dw_status = 0\<rparr> =
    \<lparr>dw_under = w\<lparr>rw_committed := Some (200, rw_headers w), rw_body := rw_body w @ concat (c # cs)\<rparr>,
     dw_wroteHeader = True, dw_status = 200\<rparr>"
proof -
  let ?d = "dw_Write c \<lparr>dw_under = w, dw_wroteHeader = False, dw_status = 0\<rparr>"
  have d: "?d = \<lparr>dw_under = w\<lparr>rw_committed := Some (200, rw_headers w), rw_body := rw_body w @ c\<rparr>,
      dw_wroteHeader = True, dw_status = 200\<rparr>"
    using assms by (simp add: dw_Write_def dw_WriteHeader_def rw_Write_def rw_WriteHeader_def Let_def)
  show ?thesis unfolding fold_Cons o_apply by (subst dw_Write_after) (simp_all add: d)
qed

text \<open>The headers of a download, and the answer its serve run makes.\<close>

definition download_headers :: "download_token \<Rightarrow> (string, string) gomap" where
  "download_headers t =
     [(''Content-Disposition'',
       ''attachment; filename='' @ [CHR 0x22] @ SanitizeFilename (dt_name t) @ [CHR 0x22]),
      (''Content-Type'', ''application/octet-stream'')]
     @ (if 0 < sint (dt_size t) then [(''Content-Length'', itoa (dt_size t))] else [])"

definition run_response :: "download_token \<Rightarrow> serve_run \<Rightarrow> http_response" where
  "run_response t run =
     (case sv_err run of
        Some err \<Rightarrow>
          if sv_chunks run = []
          then http_Error (download_headers t) (se_text err) (if se_too_large err then 413 else 500)
          else \<lparr>hr_status = 200, hr_headers = download_headers t, hr_body = concat (sv_chunks run)\<rparr>
      | None \<Rightarrow> \<lparr>hr_status = 200, hr_headers = download_headers t, hr_body = concat (sv_chunks run)\<rparr>)"

lemma rw_Error_response: "rw_committed w = None \<Longrightarrow> rw_body w = [] \<Longrightarrow>
   response_of (rw_Error msg code w) = http_Error (rw_headers w) msg code"
  by (simp add: response_of_def rw_Error_def rw_Write_def rw_WriteHeader_def http_Error_def Let_def)

lemma serve_token_exact:
  "snd (serve_token rctx t) = release t
   \<and> response_of (fst (serve_token rctx t)) = run_response t (dt_serve t (cred_With rctx (dt_jwt t)))"
proof -
  let ?run = "dt_serve t (cred_With rctx (dt_jwt t))"
  define w where "w = \<lparr>rw_headers = download_headers t, rw_committed = None, rw_body = []\<rparr>"
  have w3: "(let w1 = rw_set ''Content-Disposition''
                 (''attachment; filename='' @ [CHR 0x22] @ SanitizeFilename (dt_name t) @ [CHR 0x22]) new_writer;
          w2 = rw_set ''Content-Type'' ''application/octet-stream'' w1
      in if 0 < sint (dt_size t) then rw_set ''Content-Length'' (itoa (dt_size t)) w2 else w2) = w"
    by (simp add: w_def rw_set_def new_writer_def download_headers_def)
  have run: "serve_token rctx t =
     (let dw = fold dw_Write (sv_chunks ?run) \<lparr>dw_under = w, dw_wroteHeader = False, dw_status = 0\<rparr>
      in case sv_err ?run of
           Some err \<Rightarrow>
             (if dw_wroteHeader dw then (dw_under dw, release t)
              else (rw_Error (se_text err) (if IsDownloadTooLarge err then 413 else 500) (dw_under dw), release t))
         | None \<Rightarrow> (dw_under (dw_finish dw), release t))"
    unfolding w3 [symmetric] serve_token_def Let_def ..
  have w: "rw_committed w = None" "rw_body w = []" "rw_headers w = download_headers t" by (simp_all add: w_def)
  have resp: "response_of (rw_Error msg code w) = http_Error (download_headers t) msg code" for msg code
    using rw_Error_response [OF w(1,2)] by (simp add: w(3))
  have fin: "response_of (rw_WriteHeader 200 w) = \<lparr>hr_status = 200, hr_headers = download_headers t, hr_body = []\<rparr>"
    by (simp add: response_of_def rw_WriteHeader_def w)
  show ?thesis
  proof (cases "sv_chunks ?run")
    case Nil
    then show ?thesis
      by (cases "sv_err ?run")
        (simp_all add: run run_response_def IsDownloadTooLarge_def resp fin dw_finish_def dw_WriteHeader_def)
  next
    case (Cons c cs)
    then show ?thesis
      using dw_Write_first [OF w(1), of c cs]
      by (cases "sv_err ?run")
        (simp_all add: run run_response_def w dw_finish_def response_of_def Let_def del: fold_simps)
  qed
qed

lemma used_token [simp]:
  "download_headers (t\<lparr>dt_used := b\<rparr>) = download_headers t" "release (t\<lparr>dt_used := b\<rparr>) = release t"
  "run_response (t\<lparr>dt_used := b\<rparr>) run = run_response t run"
  by (simp_all add: download_headers_def release_def run_response_def split: option.split)

definition request_download_token :: "http_request \<Rightarrow> string" where
  "request_download_token r = (if rq_method r = ''GET'' then trim_prefix (rq_path r) ''/download/'' else [])"

text \<open>
  C6. The answer to a GET, on every branch. A request that is not a GET of a token is refused
  with 405 or 404 and changes nothing. An unknown token is answered 404; a used or expired
  one is answered 404, removed, and its cleanup hook run. A live token is marked used and its
  bytes are served once: 200 with the download's headers and the bytes written, an error
  status (413 when over the cap) and no download bytes when the stream failed before its
  first byte, and when it failed later a 200 whose body is what was written, under the
  declared length where one is known; the cleanup hook has run when the handler returns.
\<close>

theorem get_outcome:
  assumes "getHandler now mid rctx r d = ((resp, rel), d')"
  shows "if request_download_token r = []
    then resp = (if rq_method r = ''GET'' then http_NotFound
                 else http_Error [(''Allow'', ''GET'')] ''method not allowed'' 405) \<and> rel = [] \<and> d' = d
    else (case gget (hd_tokens d) (request_download_token r) of
        None \<Rightarrow> hr_status resp = 404 \<and> rel = [] \<and> d' = d
      | Some t \<Rightarrow>
          if dt_used t \<or> after now (dt_expires t)
          then hr_status resp = 404 \<and> rel = release t
             \<and> d' = d\<lparr>hd_tokens := gdel (request_download_token r) (hd_tokens d)\<rparr>
          else resp = run_response t (dt_serve t (cred_With rctx (dt_jwt t))) \<and> rel = release t
             \<and> d' = mid (d\<lparr>hd_tokens := gset (request_download_token r) (t\<lparr>dt_used := True\<rparr>) (hd_tokens d)\<rparr>))"
proof (cases "request_download_token r = []")
  case True
  have nw: "rw_committed (rw_set k v new_writer) = None" "rw_body (rw_set k v new_writer) = []" for k v
    by (simp_all add: rw_set_def new_writer_def)
  have "rw_headers (rw_set ''Allow'' ''GET'' new_writer) = [(''Allow'', ''GET'')]"
    by (simp add: rw_set_def new_writer_def)
  then show ?thesis using True assms
    by (auto simp: getHandler_def request_download_token_def rw_Error_response nw split: if_splits)
next
  case False
  then have m: "rq_method r = ''GET''" and k: "trim_prefix (rq_path r) ''/download/'' = request_download_token r"
    by (auto simp: request_download_token_def split: if_splits)
  have nf: "hr_status (response_of (rw_Error msg 404 new_writer)) = 404" for msg
    by (subst rw_Error_response) (simp_all add: new_writer_def)
  note g = assms [unfolded getHandler_def, simplified m k Let_def]
  show ?thesis
  proof (cases "gget (hd_tokens d) (request_download_token r)")
    case None
    then show ?thesis using g False nf by (auto simp: dl_claim_def)
  next
    case (Some t)
    show ?thesis
    proof (cases "dt_used t \<or> after now (dt_expires t)")
      case True
      then show ?thesis using g False Some nf by (auto simp: dl_claim_def)
    next
      case live: False
      let ?t = "t\<lparr>dt_used := True\<rparr>"
      obtain w rl where st: "serve_token rctx ?t = (w, rl)" by fastforce
      have "rl = release t" "response_of w = run_response t (dt_serve t (cred_With rctx (dt_jwt t)))"
        using serve_token_exact [of rctx ?t] by (simp_all add: st)
      then show ?thesis using g False Some live st by (auto simp: dl_claim_def)
    qed
  qed
qed

text \<open>A token whose stream breaks off after its first chunk, one that is over the cap, one that is fine.\<close>

definition demo_token :: "serve_run \<Rightarrow> nat option \<Rightarrow> download_token" where
  "demo_token run c = \<lparr>dt_name = ''a/b.txt'', dt_size = 6, dt_serve = (\<lambda>ctx. run), dt_expires = 10,
     dt_used = False, dt_cleanup = c, dt_jwt = ''jwt''\<rparr>"

definition demo_download :: download where
  "demo_download = NewHTTPDownload\<lparr>hd_tokens :=
     [(''ok'', demo_token \<lparr>sv_chunks = [''abc'', ''def''], sv_err = None\<rparr> (Some 1)),
      (''big'', demo_token \<lparr>sv_chunks = [], sv_err = Some (ServeError ''too big'' True)\<rparr> None),
      (''cut'', demo_token \<lparr>sv_chunks = [''abc''], sv_err = Some (ServeError ''eof'' False)\<rparr> (Some 2))]\<rparr>"

definition demo_get :: "string \<Rightarrow> http_request" where
  "demo_get k = \<lparr>rq_method = ''GET'', rq_path = ''/download/'' @ k, rq_headers = []\<rparr>"

definition demo_rctx :: go_context where
  "demo_rctx = \<lparr>cx_jwt = None, cx_detached = False\<rparr>"

theorem get_outcome_witness:
  "let out = (\<lambda>k. fst (fst (getHandler 5 (\<lambda>d. d) demo_rctx (demo_get k) demo_download)))
   in hr_body (out ''ok'') = ''abcdef'' \<and> hr_status (out ''big'') = 413
    \<and> gget (hr_headers (out ''cut'')) ''Content-Length'' = Some ''6'' \<and> hr_body (out ''cut'') = ''abc''"
proof -
  have g: "getHandler 5 (\<lambda>d. d) demo_rctx (demo_get k) demo_download =
      ((fst (fst (getHandler 5 (\<lambda>d. d) demo_rctx (demo_get k) demo_download)),
        snd (fst (getHandler 5 (\<lambda>d. d) demo_rctx (demo_get k) demo_download))),
       snd (getHandler 5 (\<lambda>d. d) demo_rctx (demo_get k) demo_download))" for k by simp
  have req: "request_download_token (demo_get k) = k" for k
    by (simp add: request_download_token_def demo_get_def trim_prefix_def)
  have six: "itoa 6 = ''6''" "0 < sint (6 :: 64 word)" by code_simp+
  show ?thesis
    using get_outcome [OF g, of "''ok''"] get_outcome [OF g, of "''big''"] get_outcome [OF g, of "''cut''"]
    by (simp add: Let_def req) (simp add: demo_download_def demo_token_def run_response_def download_headers_def six)
qed

section \<open>Runs and cleanup hooks\<close>

text \<open>
  The coordinator with the streams in progress (a stream begins with the claim of its token
  and ends when the handler releases it), the hooks run so far and those handed to \<open>Mint\<close>.
\<close>

record dl_system =
  ds_dl :: download
  ds_streams :: "download_token list"
  ds_released :: "nat list"
  ds_minted :: "nat list"

datatype dl_event =
    DMint "(string, string) result" string time go_context string "64 word" "(go_context \<Rightarrow> serve_run) option"
      duration "nat option"
  | DGet time string
  | DDone nat

definition end_stream :: "'a list \<Rightarrow> nat \<Rightarrow> 'a list" where
  "end_stream xs i = take i xs @ drop (Suc i) xs"

fun dl_fire :: "dl_event \<Rightarrow> dl_system \<Rightarrow> dl_system" where
  "dl_fire (DMint listen token now ctx name sz serve ttl c) s =
     (case dl_Mint listen token now ctx name sz serve ttl [c] (ds_dl s) of
        ((Inl e, rel), d) \<Rightarrow> s\<lparr>ds_dl := d, ds_released := ds_released s @ rel\<rparr>
      | ((Inr url, rel), d) \<Rightarrow>
          s\<lparr>ds_dl := d, ds_released := ds_released s @ rel,
            ds_minted := (case c of None \<Rightarrow> [] | Some x \<Rightarrow> [x]) @ ds_minted s\<rparr>)"
| "dl_fire (DGet now token) s =
     (case dl_claim now token (ds_dl s) of ((r, rel), d) \<Rightarrow>
        s\<lparr>ds_dl := d, ds_released := ds_released s @ rel,
          ds_streams := ds_streams s @ (case r of None \<Rightarrow> [] | Some t \<Rightarrow> [t])\<rparr>)"
| "dl_fire (DDone i) s =
     (if i < length (ds_streams s)
      then s\<lparr>ds_released := ds_released s @ release (ds_streams s ! i),
             ds_streams := end_stream (ds_streams s) i\<rparr>
      else s)"

text \<open>Tokens are random and each mint hands in its own hook.\<close>

fun dl_fresh :: "dl_event \<Rightarrow> dl_system \<Rightarrow> bool" where
  "dl_fresh (DMint listen token now ctx name sz serve ttl c) s =
     (token \<notin> gkeys (hd_tokens (ds_dl s)) \<and> (case c of None \<Rightarrow> True | Some x \<Rightarrow> x \<notin> set (ds_minted s)))"
| "dl_fresh _ s = True"

definition dl_start :: dl_system where
  "dl_start = \<lparr>ds_dl = NewHTTPDownload, ds_streams = [], ds_released = [], ds_minted = []\<rparr>"

inductive dl_reach :: "dl_system \<Rightarrow> bool" where
  start: "dl_reach dl_start"
| step: "dl_reach s \<Longrightarrow> dl_fresh ev s \<Longrightarrow> dl_reach (dl_fire ev s)"

text \<open>Where a hook is: with a waiting token, with a token already used, with a stream, or run.\<close>

abbreviation waiting :: "nat \<Rightarrow> dl_system \<Rightarrow> nat" where
  "waiting c s \<equiv> gcount (\<lambda>_ t. \<not> dt_used t \<and> dt_cleanup t = Some c) (hd_tokens (ds_dl s))"

abbreviation spent_in_map :: "nat \<Rightarrow> dl_system \<Rightarrow> nat" where
  "spent_in_map c s \<equiv> gcount (\<lambda>_ t. dt_used t \<and> dt_cleanup t = Some c) (hd_tokens (ds_dl s))"

abbreviation streaming :: "nat \<Rightarrow> dl_system \<Rightarrow> nat" where
  "streaming c s \<equiv> length (filter (\<lambda>t. dt_cleanup t = Some c) (ds_streams s))"

abbreviation released :: "nat \<Rightarrow> dl_system \<Rightarrow> nat" where
  "released c s \<equiv> count_list (ds_released s) c"

definition hook_inv :: "nat \<Rightarrow> dl_system \<Rightarrow> bool" where
  "hook_inv c s \<longleftrightarrow>
     2 * waiting c s + spent_in_map c s + streaming c s + released c s \<le> 2
   \<and> spent_in_map c s \<le> streaming c s + released c s
   \<and> (if c \<in> set (ds_minted s) then 1 \<le> waiting c s + streaming c s + released c s
      else waiting c s + spent_in_map c s + streaming c s + released c s = 0)"

definition dl_inv :: "dl_system \<Rightarrow> bool" where
  "dl_inv s \<longleftrightarrow> gok (hd_tokens (ds_dl s)) \<and> (\<forall>c. hook_inv c s)"

lemma count_release: "count_list (release t) c = (if dt_cleanup t = Some c then 1 else 0)"
  by (simp add: release_def split: option.split)

lemma count_releases: "count_list (concat (map release ts)) c = length (filter (\<lambda>t. dt_cleanup t = Some c) ts)"
  by (induction ts) (simp_all add: count_release)

lemma filter_end_stream:
  assumes "i < length xs"
  shows "length (filter P (end_stream xs i)) + (if P (xs ! i) then 1 else 0) = length (filter P xs)"
proof -
  have "length (filter P xs) = length (filter P (take i xs @ xs ! i # drop (Suc i) xs))"
    by (simp only: id_take_nth_drop [OF assms, symmetric])
  then show ?thesis by (simp add: end_stream_def)
qed

lemma expired_hooks:
  "length (filter (\<lambda>t. dt_cleanup t = Some c) (dl_expired now d)) =
     gcount (\<lambda>k t. after now (dt_expires t) \<and> dt_cleanup t = Some c) (hd_tokens d)"
  by (simp add: dl_expired_def filter_map o_def conj_commute)

lemma gcount_split: "gcount P m = gcount (\<lambda>k v. Q k v \<and> P k v) m + gcount (\<lambda>k v. \<not> Q k v \<and> P k v) m"
  by (induction m) auto

lemma hook_inv_start: "dl_inv dl_start"
  by (simp add: dl_inv_def hook_inv_def dl_start_def NewHTTPDownload_def)

lemma dl_Mint_cases:
  obtains (refused) e lb where "dl_Mint listen token now ctx name sz serve ttl cl d = ((Inl e, []), d\<lparr>hd_loopback := lb\<rparr>)"
    | (minted) lb url tok where "dt_cleanup tok = (case cl of [] \<Rightarrow> None | c # cs \<Rightarrow> c)" "\<not> dt_used tok"
        "dl_Mint listen token now ctx name sz serve ttl cl d =
           ((Inr url, concat (map release (dl_expired now d))),
            d\<lparr>hd_loopback := lb,
              hd_tokens := gset token tok (gsweep (\<lambda>_ t. after now (dt_expires t)) (hd_tokens d))\<rparr>)"
proof (cases serve)
  case None
  then show thesis by (intro refused [of NoSource "hd_loopback d"]) (simp add: dl_Mint_def)
next
  case (Some f)
  obtain err started lb where e: "EnsureLoopback listen (hd_loopback d) = ((err, started), lb)"
    by (metis surj_pair)
  have same: "dl_expired now (d\<lparr>hd_loopback := lb\<rparr>) = dl_expired now d" by (simp add: dl_expired_def)
  show thesis
  proof (cases err)
    case None
    show thesis
      by (rule minted [where lb = lb and url = "URLFor ''download'' token lb"
            and tok = "\<lparr>dt_name = if name = [] then DefaultUploadName else name, dt_size = sz, dt_serve = f,
              dt_expires = now + (if ttl \<le> 0 then DefaultHTTPDownloadTTL else ttl), dt_used = False,
              dt_cleanup = (case cl of [] \<Rightarrow> None | c # cs \<Rightarrow> c), dt_jwt = cred_From ctx\<rparr>"])
        (use Some None e in \<open>simp_all add: dl_Mint_def dl_prune_def same Let_def\<close>)
  next
    case (Some x)
    then show thesis using \<open>serve = Some f\<close> e by (intro refused [of "ListenFailed x" lb]) (simp add: dl_Mint_def)
  qed
qed

lemma mint_counts:
  assumes "token \<notin> gkeys m"
  shows "gcount Q (gset token tok (gsweep P m)) + gcount (\<lambda>k v. P k v \<and> Q k v) m
    = gcount Q m + (if Q token tok then 1 else 0)"
proof -
  have "token \<notin> gkeys (gsweep P m)" by (rule contra_subsetD [OF gkeys_gsweep_sub assms])
  from gcount_new [OF this, of Q tok] gcount_sweep [of Q P m] show ?thesis by linarith
qed

lemma hook_inv_mint:
  assumes inv: "hook_inv c s" and fresh: "dl_fresh (DMint listen token now ctx name sz serve ttl x) s"
  shows "hook_inv c (dl_fire (DMint listen token now ctx name sz serve ttl x) s)"
proof (cases rule: dl_Mint_cases [of listen token now ctx name sz serve ttl "[x]" "ds_dl s"])
  case (refused e lb)
  then show ?thesis using inv by (auto simp: hook_inv_def)
next
  case (minted lb url tok)
  let ?m = "hd_tokens (ds_dl s)" let ?P = "\<lambda>_ t. after now (dt_expires t)"
  let ?s = "dl_fire (DMint listen token now ctx name sz serve ttl x) s"
  have new: "token \<notin> gkeys ?m" and xf: "x = Some c \<Longrightarrow> c \<notin> set (ds_minted s)" using fresh by auto
  have tok: "dt_cleanup tok = x" "\<not> dt_used tok" using minted by simp_all
  have w: "waiting c ?s + gcount (\<lambda>k t. ?P k t \<and> \<not> dt_used t \<and> dt_cleanup t = Some c) ?m
      = waiting c s + (if x = Some c then 1 else 0)"
    using mint_counts [OF new, of "\<lambda>_ t. \<not> dt_used t \<and> dt_cleanup t = Some c" tok ?P] tok by (simp add: minted)
  have u: "spent_in_map c ?s + gcount (\<lambda>k t. ?P k t \<and> dt_used t \<and> dt_cleanup t = Some c) ?m = spent_in_map c s"
    using mint_counts [OF new, of "\<lambda>_ t. dt_used t \<and> dt_cleanup t = Some c" tok ?P] tok by (simp add: minted)
  have r: "released c ?s = released c s
      + gcount (\<lambda>k t. ?P k t \<and> dt_used t \<and> dt_cleanup t = Some c) ?m
      + gcount (\<lambda>k t. ?P k t \<and> \<not> dt_used t \<and> dt_cleanup t = Some c) ?m"
    using gcount_split [of "\<lambda>k t. ?P k t \<and> dt_cleanup t = Some c" ?m "\<lambda>_ t. dt_used t"]
    by (simp add: minted count_releases expired_hooks conj_left_commute)
  have st: "streaming c ?s = streaming c s" by (simp add: minted)
  have mt: "c \<in> set (ds_minted ?s) \<longleftrightarrow> c \<in> set (ds_minted s) \<or> x = Some c"
    by (auto simp: minted split: option.split)
  show ?thesis
    using inv w u r xf unfolding hook_inv_def st mt by (cases "x = Some c"; cases "c \<in> set (ds_minted s)") simp_all
qed

lemma hook_inv_get:
  assumes ok: "gok (hd_tokens (ds_dl s))" and inv: "hook_inv c s"
  shows "hook_inv c (dl_fire (DGet now token) s)"
proof (cases "gget (hd_tokens (ds_dl s)) token")
  case None
  then show ?thesis using inv by (simp add: dl_claim_def)
next
  case (Some t)
  let ?m = "hd_tokens (ds_dl s)" let ?s = "dl_fire (DGet now token) s"
  show ?thesis
  proof (cases "dt_used t \<or> after now (dt_expires t)")
    case True
    have w: "waiting c ?s + (if \<not> dt_used t \<and> dt_cleanup t = Some c then 1 else 0) = waiting c s"
      using gcount_del [OF ok Some, of "\<lambda>_ t. \<not> dt_used t \<and> dt_cleanup t = Some c"] True Some
      by (simp add: dl_claim_def)
    have u: "spent_in_map c ?s + (if dt_used t \<and> dt_cleanup t = Some c then 1 else 0) = spent_in_map c s"
      using gcount_del [OF ok Some, of "\<lambda>_ t. dt_used t \<and> dt_cleanup t = Some c"] True Some
      by (simp add: dl_claim_def)
    have r: "released c ?s = released c s + (if dt_cleanup t = Some c then 1 else 0)"
      using True Some by (simp add: dl_claim_def count_release)
    have st: "streaming c ?s = streaming c s" "ds_minted ?s = ds_minted s" using True Some by (simp_all add: dl_claim_def)
    show ?thesis using inv w u r unfolding hook_inv_def st by (simp split: if_splits)
  next
    case False
    have w: "waiting c ?s + (if dt_cleanup t = Some c then 1 else 0) = waiting c s"
      using gcount_set [OF ok Some, of "\<lambda>_ t. \<not> dt_used t \<and> dt_cleanup t = Some c" "t\<lparr>dt_used := True\<rparr>"] False Some
      by (simp add: dl_claim_def)
    have u: "spent_in_map c ?s = spent_in_map c s + (if dt_cleanup t = Some c then 1 else 0)"
      using gcount_set [OF ok Some, of "\<lambda>_ t. dt_used t \<and> dt_cleanup t = Some c" "t\<lparr>dt_used := True\<rparr>"] False Some
      by (simp add: dl_claim_def)
    have st: "streaming c ?s = streaming c s + (if dt_cleanup t = Some c then 1 else 0)" "ds_minted ?s = ds_minted s"
      "released c ?s = released c s"
      using False Some by (simp_all add: dl_claim_def)
    show ?thesis using inv w u unfolding hook_inv_def st by (simp split: if_splits)
  qed
qed

lemma hook_inv_done: "hook_inv c s \<Longrightarrow> hook_inv c (dl_fire (DDone i) s)"
proof (cases "i < length (ds_streams s)")
  case True
  assume inv: "hook_inv c s"
  let ?s = "dl_fire (DDone i) s"
  have st: "streaming c ?s + (if dt_cleanup (ds_streams s ! i) = Some c then 1 else 0) = streaming c s"
    using True filter_end_stream [OF True, of "\<lambda>t. dt_cleanup t = Some c"] by simp
  have r: "released c ?s = released c s + (if dt_cleanup (ds_streams s ! i) = Some c then 1 else 0)"
    using True by (simp add: count_release)
  have same: "ds_dl ?s = ds_dl s" "ds_minted ?s = ds_minted s" using True by simp_all
  show ?thesis using inv st r unfolding hook_inv_def same by (simp split: if_splits)
qed simp

lemma dl_fire_gok: "gok (hd_tokens (ds_dl s)) \<Longrightarrow> gok (hd_tokens (ds_dl (dl_fire ev s)))"
proof (cases ev)
  case (DMint listen token now ctx name sz serve ttl x)
  assume "gok (hd_tokens (ds_dl s))"
  then show ?thesis
    by (cases rule: dl_Mint_cases [of listen token now ctx name sz serve ttl "[x]" "ds_dl s"]) (simp_all add: DMint)
next
  case (DGet now token)
  assume "gok (hd_tokens (ds_dl s))"
  then show ?thesis by (cases "gget (hd_tokens (ds_dl s)) token") (simp_all add: DGet dl_claim_def)
qed simp

lemma dl_fire_inv: "dl_inv s \<Longrightarrow> dl_fresh ev s \<Longrightarrow> dl_inv (dl_fire ev s)"
  unfolding dl_inv_def
  by (cases ev) (auto intro: dl_fire_gok hook_inv_mint hook_inv_get hook_inv_done simp del: dl_fire.simps dl_fresh.simps)

lemma dl_reach_inv: "dl_reach s \<Longrightarrow> dl_inv s"
  by (induction rule: dl_reach.induct) (auto intro: hook_inv_start dl_fire_inv)

text \<open>
  C16. The accounting of cleanup hooks over any run of mints, GETs and ends of streams, however
  they interleave. A hook handed to a mint is never run while its token waits to be used; it
  is run at least once by the time the token is used or gone and its stream has ended, so no
  backing resource leaks; and it is run at most twice.
\<close>

theorem cleanup_accounting:
  assumes "dl_reach s"
  shows "count_list (ds_released s) c \<le> 2
   \<and> ((\<exists>k t. gget (hd_tokens (ds_dl s)) k = Some t \<and> \<not> dt_used t \<and> dt_cleanup t = Some c)
        \<longrightarrow> count_list (ds_released s) c = 0)
   \<and> (c \<in> set (ds_minted s)
        \<and> (\<forall>k t. (k, t) \<in> set (hd_tokens (ds_dl s)) \<and> dt_cleanup t = Some c \<longrightarrow> dt_used t)
        \<and> (\<forall>t \<in> set (ds_streams s). dt_cleanup t \<noteq> Some c)
        \<longrightarrow> 1 \<le> count_list (ds_released s) c)"
proof -
  have inv: "hook_inv c s" using dl_reach_inv [OF assms] by (simp add: dl_inv_def)
  have "count_list (ds_released s) c = 0"
    if "gget (hd_tokens (ds_dl s)) k = Some t" "\<not> dt_used t \<and> dt_cleanup t = Some c" for k t
    using gcount_pos [of "hd_tokens (ds_dl s)" k t "\<lambda>_ t. \<not> dt_used t \<and> dt_cleanup t = Some c", OF that] inv
    by (simp add: hook_inv_def)
  moreover have "1 \<le> count_list (ds_released s) c"
    if "c \<in> set (ds_minted s)"
      and u: "\<forall>k t. (k, t) \<in> set (hd_tokens (ds_dl s)) \<and> dt_cleanup t = Some c \<longrightarrow> dt_used t"
      and st: "\<forall>t \<in> set (ds_streams s). dt_cleanup t \<noteq> Some c"
  proof -
    have "filter (\<lambda>e. \<not> dt_used (snd e) \<and> dt_cleanup (snd e) = Some c) (hd_tokens (ds_dl s)) = []"
      using u by (force simp: filter_empty_conv)
    then have "waiting c s = 0" by simp
    moreover have "streaming c s = 0" using st by (simp add: filter_empty_conv)
    ultimately show ?thesis using inv that(1) by (simp add: hook_inv_def)
  qed
  ultimately show ?thesis using inv by (auto simp: hook_inv_def)
qed

definition demo_serve :: "(go_context \<Rightarrow> serve_run) option" where
  "demo_serve = Some (\<lambda>ctx. \<lparr>sv_chunks = [''abc''], sv_err = None\<rparr>)"

definition demo_dl_run :: dl_system where
  "demo_dl_run = fold dl_fire
     [DMint (Inr ''a:1'') ''tok'' 0 demo_rctx ''f'' 3 demo_serve 10 (Some 7), DGet 1 ''tok'', DDone 0] dl_start"

lemma demo_dl_run_reach: "dl_reach demo_dl_run"
proof -
  have "dl_reach (dl_fire (DDone 0) (dl_fire (DGet 1 ''tok'')
      (dl_fire (DMint (Inr ''a:1'') ''tok'' 0 demo_rctx ''f'' 3 demo_serve 10 (Some 7)) dl_start)))"
    by (intro dl_reach.intros) (simp_all add: dl_start_def NewHTTPDownload_def)
  then show ?thesis by (simp add: demo_dl_run_def)
qed

theorem cleanup_accounting_witness: "ds_released demo_dl_run = [7] \<and> 1 \<le> count_list (ds_released demo_dl_run) 7"
proof -
  have r: "ds_released demo_dl_run = [7]" "ds_minted demo_dl_run = [7]" "ds_streams demo_dl_run = []" by code_simp+
  have u: "list_all (\<lambda>e. dt_used (snd e)) (hd_tokens (ds_dl demo_dl_run))" by code_simp
  have "1 \<le> count_list (ds_released demo_dl_run) 7"
    using cleanup_accounting [OF demo_dl_run_reach, of 7] r u by (auto simp: list_all_iff)
  then show ?thesis using r by simp
qed

text \<open>
  A second GET of a token that is being streamed runs the cleanup hook under the stream:
  the claim answers 404 and releases the backing resource while the first request still
  serves from it, and the first request then releases it again. The hook is documented to run
  exactly once.
\<close>

theorem reget_releases_under_stream:
  assumes "gget (hd_tokens (ds_dl s)) token = Some t" and "\<not> dt_used t" and "\<not> after u (dt_expires t)"
    and "dt_cleanup t = Some c"
  shows "let s1 = dl_fire (DGet u token) s; s2 = dl_fire (DGet v token) s1;
             s3 = dl_fire (DDone (length (ds_streams s))) s2 in
     ds_released s2 = ds_released s @ [c] \<and> t\<lparr>dt_used := True\<rparr> \<in> set (ds_streams s2)
   \<and> ds_released s3 = ds_released s @ [c, c]"
  using assms by (simp add: Let_def dl_claim_def release_def nth_append)

theorem reget_releases_under_stream_witness:
  "let s = dl_fire (DMint (Inr ''a:1'') ''tok'' 0 demo_rctx ''f'' 3 demo_serve 10 (Some 7)) dl_start
   in ds_released (dl_fire (DGet 2 ''tok'') (dl_fire (DGet 1 ''tok'') s)) = [7]"
proof -
  let ?s = "dl_fire (DMint (Inr ''a:1'') ''tok'' 0 demo_rctx ''f'' 3 demo_serve 10 (Some 7)) dl_start"
  obtain t where "gget (hd_tokens (ds_dl ?s)) ''tok'' = Some t" "\<not> dt_used t" "dt_expires t = 10" "dt_cleanup t = Some 7"
    by (simp add: dl_start_def NewHTTPDownload_def new_loopback_def EnsureLoopback_def dl_Mint_def demo_serve_def
        dl_prune_def gsweep_def)
  moreover have "ds_released ?s = []" by code_simp
  ultimately show ?thesis using reget_releases_under_stream [of ?s "''tok''" t 1 7 2] by (simp add: Let_def)
qed

section \<open>The one-time contract\<close>

type_synonym dl_payload =
  "(string, string) result \<times> go_context \<times> string \<times> 64 word \<times> (go_context \<Rightarrow> serve_run) option
   \<times> duration \<times> nat option list"

definition claim_once :: "time \<Rightarrow> string \<Rightarrow> download \<Rightarrow> download_token option \<times> download" where
  "claim_once now token d = (fst (fst (dl_claim now token d)), snd (dl_claim now token d))"

definition mint_once :: "time \<Rightarrow> string \<Rightarrow> dl_payload \<Rightarrow> download \<Rightarrow> download" where
  "mint_once now token x d =
     (case x of (listen, ctx, name, sz, serve, ttl, cl) \<Rightarrow>
        snd (dl_Mint listen token now ctx name sz serve ttl cl d))"

definition dl_pending :: "download \<Rightarrow> string \<Rightarrow> bool" where
  "dl_pending d k \<longleftrightarrow> (case gget (hd_tokens d) k of None \<Rightarrow> False | Some t \<Rightarrow> \<not> dt_used t)"

lemma dl_sweep_pending:
  assumes "gok m" and "gget (gsweep P m) k = Some t"
  shows "gget m k = Some t"
  using assms(2) unfolding gget_gsweep [OF assms(1)] by (simp split: option.splits if_splits)

interpretation downloads: one_time_tokens claim_once mint_once dl_pending "\<lambda>d. gok (hd_tokens d)"
proof (unfold_locales, goal_cases)
  case (1 d t k)
  then show ?case
    by (cases "gget (hd_tokens d) k") (auto simp: claim_once_def dl_claim_def dl_pending_def split: if_splits)
next
  case (2 d t k)
  then show ?case
    by (cases "gget (hd_tokens d) k") (auto simp: claim_once_def dl_claim_def dl_pending_def split: if_splits)
next
  case (3 d t k k')
  then show ?case
    by (cases "gget (hd_tokens d) k") (auto simp: claim_once_def dl_claim_def dl_pending_def split: if_splits)
next
  case (4 d k' k t x)
  obtain listen ctx name sz serve ttl cl where x: "x = (listen, ctx, name, sz, serve, ttl, cl)"
    by (metis surj_pair)
  show ?case
  proof (cases rule: dl_Mint_cases [of listen k t ctx name sz serve ttl cl d])
    case (refused e lb)
    then show ?thesis using 4 by (simp add: x mint_once_def dl_pending_def)
  next
    case (minted lb url tok)
    then show ?thesis using 4(2,3) dl_sweep_pending [OF 4(1)]
      by (simp add: x mint_once_def dl_pending_def split: option.splits)
  qed
next
  case (5 d t k)
  then show ?case by (cases "gget (hd_tokens d) k") (simp_all add: claim_once_def dl_claim_def)
next
  case (6 d t k x)
  obtain listen ctx name sz serve ttl cl where x: "x = (listen, ctx, name, sz, serve, ttl, cl)"
    by (metis surj_pair)
  show ?case
    by (cases rule: dl_Mint_cases [of listen k t ctx name sz serve ttl cl d]) (use 6 in \<open>simp_all add: x mint_once_def\<close>)
qed

text \<open>
  The bytes behind a download token are served at most once: in any sequence of claims and
  mints a fresh token minted at most once is claimed with success at most once.
\<close>

theorem download_served_at_most_once:
  assumes "gok (hd_tokens d)" and "gget (hd_tokens d) k = None" and "mints_of k es \<le> 1"
  shows "count_list (token_run claim_once mint_once es d) k \<le> 1"
  by (rule downloads.claimed_at_most_once) (use assms in \<open>simp_all add: dl_pending_def\<close>)

theorem download_served_at_most_once_witness:
  "let es = [TMint 1 ''tok'' (Inr ''a:1'', demo_rctx, ''f'', 3, demo_serve, 10, []), TClaim 2 ''tok'', TClaim 2 ''tok'']
   in count_list (token_run claim_once mint_once es NewHTTPDownload) ''tok'' = 1
    \<and> count_list (token_run claim_once mint_once es NewHTTPDownload) ''tok'' \<le> 1"
proof -
  let ?es = "[TMint 1 ''tok'' (Inr ''a:1'', demo_rctx, ''f'', 3, demo_serve, 10, []), TClaim 2 ''tok'', TClaim 2 ''tok'']"
  have "count_list (token_run claim_once mint_once ?es NewHTTPDownload) ''tok'' \<le> 1"
    by (rule download_served_at_most_once) (simp_all add: NewHTTPDownload_def)
  moreover have "count_list (token_run claim_once mint_once ?es NewHTTPDownload) ''tok'' = 1"
    by code_simp
  ultimately show ?thesis by (simp add: Let_def)
qed


end
