(* ===== verification/Json.thy ===== *)
theory Json
  imports Encodings
begin

text \<open>
  JSON as \<open>encoding/json\<close> reads and writes it: values, the parser (the grammar of the Go
  scanner with its nesting limit, string unquoting with surrogate pairs and replacement of
  invalid UTF-8), the quoting of strings with HTML escaping, and the round trip between them.
  Objects keep their members in order, duplicates included, so that a decoder can apply Go's
  rule that the last one wins.
\<close>

datatype json =
    JNull
  | JBool bool
  | JNum string \<comment> \<open>the literal\<close>
  | JStr string
  | JArr "json list"
  | JObj "(string \<times> json) list"

section \<open>Strings\<close>

definition hex_char :: "nat \<Rightarrow> char" where
  "hex_char n = (if n < 10 then char_of (48 + n) else char_of (87 + n))"

fun hex4 :: "string \<Rightarrow> (nat \<times> string) option" where
  "hex4 (a # b # c # d # r) =
     (case (hex_value a, hex_value b, hex_value c, hex_value d) of
        (Some x, Some y, Some z, Some w) \<Rightarrow> Some (((x * 16 + y) * 16 + z) * 16 + w, r)
      | _ \<Rightarrow> None)"
| "hex4 s = None"

text \<open>\<open>utf8.EncodeRune\<close>; surrogates and numbers out of range become the replacement character.\<close>

definition encode_rune :: "nat \<Rightarrow> string" where
  "encode_rune n =
     (if n < 128 then [char_of n]
      else if n < 2048 then [char_of (192 + n div 64), char_of (128 + n mod 64)]
      else if (0xD800 \<le> n \<and> n \<le> 0xDFFF) \<or> 0x10FFFF < n then replacement
      else if n < 65536
      then [char_of (224 + n div 4096), char_of (128 + n div 64 mod 64), char_of (128 + n mod 64)]
      else [char_of (240 + n div 262144), char_of (128 + n div 4096 mod 64),
            char_of (128 + n div 64 mod 64), char_of (128 + n mod 64)])"

text \<open>A \<open>\u\<close> escape after its \<open>u\<close>: a surrogate pair is one code point, a lone half is replaced.\<close>

definition unicode_escape :: "string \<Rightarrow> (string \<times> string) option" where
  "unicode_escape s =
     (case hex4 s of
        None \<Rightarrow> None
      | Some (n, r) \<Rightarrow>
          if 0xD800 \<le> n \<and> n \<le> 0xDFFF then
            (case (if n < 0xDC00 \<and> has_prefix r [CHR 0x5C, CHR ''u''] then hex4 (drop 2 r) else None) of
               None \<Rightarrow> Some (replacement, r)
             | Some (l, r') \<Rightarrow>
                 if 0xDC00 \<le> l \<and> l \<le> 0xDFFF
                 then Some (encode_rune (0x10000 + (n - 0xD800) * 1024 + (l - 0xDC00)), r')
                 else Some (replacement, r))
          else Some (encode_rune n, r))"

definition simple_escape :: "char \<Rightarrow> char option" where
  "simple_escape c =
     (if c = CHR 0x22 \<or> c = CHR 0x5C \<or> c = CHR ''/'' then Some c
      else if c = CHR ''b'' then Some (CHR 0x08)
      else if c = CHR ''f'' then Some (CHR 0x0C)
      else if c = CHR ''n'' then Some (CHR 0x0A)
      else if c = CHR ''r'' then Some (CHR 0x0D)
      else if c = CHR ''t'' then Some (CHR 0x09)
      else None)"

text \<open>The rest of a string literal after its opening quote: the contents and what follows.\<close>

function parse_string :: "string \<Rightarrow> (string \<times> string) option" where
  "parse_string s =
     (case s of
        [] \<Rightarrow> None
      | c # r \<Rightarrow>
          if c = CHR 0x22 then Some ([], r)
          else if c = CHR 0x5C then
            (case r of
               [] \<Rightarrow> None
             | e # r' \<Rightarrow>
                 if e = CHR ''u'' then
                   (case unicode_escape r' of
                      None \<Rightarrow> None
                    | Some (bs, r'') \<Rightarrow>
                        if length r'' < length s
                        then map_option (\<lambda>(t, rest). (bs @ t, rest)) (parse_string r'')
                        else None)
                 else
                   (case simple_escape e of
                      None \<Rightarrow> None
                    | Some x \<Rightarrow> map_option (\<lambda>(t, rest). (x # t, rest)) (parse_string r')))
          else if code_of c < 32 then None
          else if rune_len s = 0 then map_option (\<lambda>(t, rest). (replacement @ t, rest)) (parse_string r)
          else map_option (\<lambda>(t, rest). (take (rune_len s) s @ t, rest)) (parse_string (drop (rune_len s) s)))"
  by pat_completeness auto
termination
  by (relation "measure length") auto

declare parse_string.simps [simp del]

text \<open>\<open>json.Marshal\<close> of a string, between its quotes.\<close>

definition quote_char :: "char \<Rightarrow> string" where
  "quote_char c =
     (if c = CHR 0x22 \<or> c = CHR 0x5C then [CHR 0x5C, c]
      else if c = CHR 0x08 then [CHR 0x5C, CHR ''b'']
      else if c = CHR 0x0C then [CHR 0x5C, CHR ''f'']
      else if c = CHR 0x0A then [CHR 0x5C, CHR ''n'']
      else if c = CHR 0x0D then [CHR 0x5C, CHR ''r'']
      else if c = CHR 0x09 then [CHR 0x5C, CHR ''t'']
      else if code_of c < 32 \<or> c = CHR ''<'' \<or> c = CHR ''>'' \<or> c = CHR ''&''
      then [CHR 0x5C, CHR ''u'', CHR ''0'', CHR ''0'', hex_char (code_of c div 16), hex_char (code_of c mod 16)]
      else [c])"

function quote_body :: "string \<Rightarrow> string" where
  "quote_body s =
     (case s of
        [] \<Rightarrow> []
      | c # r \<Rightarrow>
          if code_of c < 128 then quote_char c @ quote_body r
          else if rune_len s = 0 then [CHR 0x5C] @ ''ufffd'' @ quote_body r
          else if take 3 s = [CHR 0xE2, CHR 0x80, CHR 0xA8] then [CHR 0x5C] @ ''u2028'' @ quote_body (drop 3 s)
          else if take 3 s = [CHR 0xE2, CHR 0x80, CHR 0xA9] then [CHR 0x5C] @ ''u2029'' @ quote_body (drop 3 s)
          else take (rune_len s) s @ quote_body (drop (rune_len s) s))"
  by pat_completeness auto
termination
  by (relation "measure length") auto

declare quote_body.simps [simp del]

definition json_quote :: "string \<Rightarrow> string" where
  "json_quote s = [CHR 0x22] @ quote_body s @ [CHR 0x22]"

lemma hex4_shorter: "hex4 s = Some (n, r) \<Longrightarrow> length s = length r + 4"
  by (induction s rule: hex4.induct) (auto split: option.splits)

lemma unicode_escape_shorter: "unicode_escape s = Some (bs, r) \<Longrightarrow> length r < length s"
  by (auto simp: unicode_escape_def dest!: hex4_shorter split: option.splits if_splits prod.splits)

text \<open>The parser on each kind of character.\<close>

lemma parse_string_end: "parse_string (CHR 0x22 # r) = Some ([], r)"
  by (simp add: parse_string.simps)

lemma parse_string_escape:
  "e \<noteq> CHR ''u'' \<Longrightarrow> simple_escape e = Some x \<Longrightarrow>
   parse_string (CHR 0x5C # e # r) = map_option (\<lambda>(t, rest). (x # t, rest)) (parse_string r)"
  by (simp add: parse_string.simps [of "CHR 0x5C # e # r"])

lemma parse_string_unicode:
  "unicode_escape s = Some (bs, r) \<Longrightarrow>
   parse_string (CHR 0x5C # CHR ''u'' # s) = map_option (\<lambda>(t, rest). (bs @ t, rest)) (parse_string r)"
  using unicode_escape_shorter [of s bs r]
  by (simp add: parse_string.simps [of "CHR 0x5C # CHR ''u'' # s"])

lemma parse_string_plain:
  "c \<noteq> CHR 0x22 \<Longrightarrow> c \<noteq> CHR 0x5C \<Longrightarrow> 32 \<le> code_of c \<Longrightarrow> code_of c < 128 \<Longrightarrow>
   parse_string (c # r) = map_option (\<lambda>(t, rest). (c # t, rest)) (parse_string r)"
  by (simp add: parse_string.simps [of "c # r"])

lemma parse_string_rune:
  assumes "128 \<le> code_of c" and "rune_len (c # s) = Suc n"
  shows "parse_string (c # s)
    = map_option (\<lambda>(t, rest). (take (Suc n) (c # s) @ t, rest)) (parse_string (drop (Suc n) (c # s)))"
proof -
  have "c \<noteq> CHR 0x22" "c \<noteq> CHR 0x5C" using assms(1) by (auto simp: code_of_def)
  then show ?thesis using assms by (simp add: parse_string.simps [of "c # s"])
qed

text \<open>Reading back what was quoted.\<close>

lemma hex_value_char: "n < 16 \<Longrightarrow> hex_value (hex_char n) = Some n"
  by (auto simp: hex_value_def hex_char_def)

lemma hex_value_zero: "hex_value CHR ''0'' = Some 0"
  by (simp add: hex_value_def code_of_def)

lemma parse_quote_char:
  assumes "code_of c < 128"
  shows "parse_string (quote_char c @ r) = map_option (\<lambda>(t, rest). (c # t, rest)) (parse_string r)"
proof -
  consider (quote) "c = CHR 0x22 \<or> c = CHR 0x5C"
    | (short) e where "quote_char c = [CHR 0x5C, e]" "e \<noteq> CHR ''u''" "simple_escape e = Some c"
    | (hex) "quote_char c = [CHR 0x5C, CHR ''u'', CHR ''0'', CHR ''0'', hex_char (code_of c div 16), hex_char (code_of c mod 16)]"
    | (plain) "quote_char c = [c]" "c \<noteq> CHR 0x22" "c \<noteq> CHR 0x5C" "32 \<le> code_of c"
    unfolding quote_char_def simple_escape_def by (cases "c = CHR 0x08 \<or> c = CHR 0x0C \<or> c = CHR 0x0A \<or> c = CHR 0x0D \<or> c = CHR 0x09") (force split: if_splits)+
  then show ?thesis
  proof cases
    case quote
    then show ?thesis by (auto simp: quote_char_def parse_string_escape simple_escape_def)
  next
    case (short e)
    then show ?thesis by (simp add: parse_string_escape)
  next
    case hex
    have d: "code_of c div 16 < 16" "code_of c mod 16 < 16" using assms by simp_all
    have "hex4 (CHR ''0'' # CHR ''0'' # hex_char (code_of c div 16) # hex_char (code_of c mod 16) # r)
        = Some (code_of c, r)"
      by (simp add: hex_value_char [OF d(1)] hex_value_char [OF d(2)] hex_value_zero)
    then have "unicode_escape (CHR ''0'' # CHR ''0'' # hex_char (code_of c div 16) # hex_char (code_of c mod 16) # r)
        = Some ([c], r)"
      using assms by (simp add: unicode_escape_def encode_rune_def)
    from parse_string_unicode [OF this] show ?thesis by (simp add: hex)
  next
    case plain
    then show ?thesis using assms by (simp add: parse_string_plain)
  qed
qed

lemma parse_separators:
  "parse_string (CHR 0x5C # CHR ''u'' # ''2028'' @ r)
     = map_option (\<lambda>(t, rest). ([CHR 0xE2, CHR 0x80, CHR 0xA8] @ t, rest)) (parse_string r)"
  "parse_string (CHR 0x5C # CHR ''u'' # ''2029'' @ r)
     = map_option (\<lambda>(t, rest). ([CHR 0xE2, CHR 0x80, CHR 0xA9] @ t, rest)) (parse_string r)"
  "parse_string (CHR 0x5C # CHR ''u'' # ''fffd'' @ r)
     = map_option (\<lambda>(t, rest). (replacement @ t, rest)) (parse_string r)"
proof -
  have h: "hex_value CHR ''0'' = Some 0" "hex_value CHR ''2'' = Some 2" "hex_value CHR ''8'' = Some 8"
    "hex_value CHR ''9'' = Some 9" "hex_value CHR ''f'' = Some 15" "hex_value CHR ''d'' = Some 13"
    by (simp_all add: hex_value_def code_of_def)
  have e: "encode_rune 0x2028 = [CHR 0xE2, CHR 0x80, CHR 0xA8]" "encode_rune 0x2029 = [CHR 0xE2, CHR 0x80, CHR 0xA9]"
    "encode_rune 0xFFFD = replacement"
    by (simp_all add: encode_rune_def replacement_def char_of_def bit_0)
  have u: "unicode_escape (''2028'' @ r) = Some ([CHR 0xE2, CHR 0x80, CHR 0xA8], r)"
    "unicode_escape (''2029'' @ r) = Some ([CHR 0xE2, CHR 0x80, CHR 0xA9], r)"
    "unicode_escape (''fffd'' @ r) = Some (replacement, r)"
    using e by (simp_all add: unicode_escape_def h)
  show "parse_string (CHR 0x5C # CHR ''u'' # ''2028'' @ r)
     = map_option (\<lambda>(t, rest). ([CHR 0xE2, CHR 0x80, CHR 0xA8] @ t, rest)) (parse_string r)"
    by (rule parse_string_unicode [OF u(1)])
  show "parse_string (CHR 0x5C # CHR ''u'' # ''2029'' @ r)
     = map_option (\<lambda>(t, rest). ([CHR 0xE2, CHR 0x80, CHR 0xA9] @ t, rest)) (parse_string r)"
    by (rule parse_string_unicode [OF u(2)])
  show "parse_string (CHR 0x5C # CHR ''u'' # ''fffd'' @ r)
     = map_option (\<lambda>(t, rest). (replacement @ t, rest)) (parse_string r)"
    by (rule parse_string_unicode [OF u(3)])
qed

lemma rune_len_separator: "take 3 s = [CHR 0xE2, CHR 0x80, c] \<Longrightarrow> c \<in> {CHR 0xA8, CHR 0xA9} \<Longrightarrow> rune_len s = 3"
proof -
  assume t: "take 3 s = [CHR 0xE2, CHR 0x80, c]" and c: "c \<in> {CHR 0xA8, CHR 0xA9}"
  have "s = [CHR 0xE2, CHR 0x80, c] @ drop 3 s" using append_take_drop_id [of 3 s] unfolding t by simp
  then obtain r where s: "s = CHR 0xE2 # CHR 0x80 # c # r" by simp
  show ?thesis unfolding s rune_len_def using c by (auto simp: code_of_def cont_def Let_def)
qed

lemma parse_quote: "parse_string (quote_body s @ CHR 0x22 # r) = Some (to_valid s, r)"
proof (induction s rule: quote_body.induct)
  case (1 s)
  show ?case
  proof (cases s)
    case Nil
    then show ?thesis by (simp add: quote_body.simps parse_string_end)
  next
    case (Cons c t)
    note q = quote_body.simps [of "c # t"]
    consider (ascii) "code_of c < 128"
      | (bad) "\<not> code_of c < 128" "rune_len s = 0"
      | (sep) d where "\<not> code_of c < 128" "rune_len s = 3" "take 3 s = [CHR 0xE2, CHR 0x80, d]"
          "d = CHR 0xA8 \<or> d = CHR 0xA9"
      | (rune) "\<not> code_of c < 128" "rune_len s \<noteq> 0" "take 3 s \<noteq> [CHR 0xE2, CHR 0x80, CHR 0xA8]"
          "take 3 s \<noteq> [CHR 0xE2, CHR 0x80, CHR 0xA9]"
      using rune_len_separator by blast
    then show ?thesis
    proof cases
      case ascii
      then show ?thesis using 1(1) [OF Cons] by (simp add: q Cons parse_quote_char)
    next
      case bad
      have "parse_string (quote_body s @ CHR 0x22 # r)
          = parse_string (CHR 0x5C # CHR ''u'' # ''fffd'' @ (quote_body t @ CHR 0x22 # r))"
        using bad by (simp add: q Cons)
      also have "\<dots> = Some (replacement @ to_valid t, r)"
        unfolding parse_separators using 1(2) [OF Cons bad] by simp
      finally show ?thesis using bad by (simp add: Cons)
    next
      case sep
      have v: "to_valid s = [CHR 0xE2, CHR 0x80, d] @ to_valid (drop 3 s)"
        using to_valid_simps(3) [of c t] sep(2,3) by (simp add: Cons)
      show ?thesis using sep(4)
      proof
        assume d: "d = CHR 0xA8"
        have "parse_string (quote_body s @ CHR 0x22 # r)
            = parse_string (CHR 0x5C # CHR ''u'' # ''2028'' @ (quote_body (drop 3 s) @ CHR 0x22 # r))"
          using sep(1-3) d by (subst quote_body.simps) (simp add: Cons)
        also have "\<dots> = Some (to_valid s, r)"
          unfolding parse_separators v using 1(3) [OF Cons sep(1)] sep(2,3) d by simp
        finally show ?thesis .
      next
        assume d: "d = CHR 0xA9"
        have "parse_string (quote_body s @ CHR 0x22 # r)
            = parse_string (CHR 0x5C # CHR ''u'' # ''2029'' @ (quote_body (drop 3 s) @ CHR 0x22 # r))"
          using sep(1-3) d by (subst quote_body.simps) (simp add: Cons)
        also have "\<dots> = Some (to_valid s, r)"
          unfolding parse_separators v using 1(4) [OF Cons sep(1)] sep(2,3) d by simp
        finally show ?thesis .
      qed
    next
      case rune
      obtain n where n: "rune_len s = Suc n" using rune(2) by (cases "rune_len s") auto
      have qb: "quote_body s = take (Suc n) s @ quote_body (drop (Suc n) s)"
        using rune n by (simp add: q Cons)
      define y where "y = take (Suc n) s @ quote_body (drop (Suc n) s) @ CHR 0x22 # r"
      obtain y' where y': "y = c # y'" unfolding y_def by (simp add: Cons)
      have l: "rune_len y = Suc n" unfolding y_def using rune_len_prefix [OF n] .
      have len: "length (take (Suc n) s) = Suc n" using rune_len_le [of s] n by simp
      have td: "take (Suc n) y = take (Suc n) s" "drop (Suc n) y = quote_body (drop (Suc n) s) @ CHR 0x22 # r"
        unfolding y_def using len by (metis append_eq_conv_conj)+
      have "parse_string y = map_option (\<lambda>(u, rest). (take (Suc n) s @ u, rest))
          (parse_string (quote_body (drop (Suc n) s) @ CHR 0x22 # r))"
        using parse_string_rune [of c y' n] rune(1) l unfolding y' [symmetric] td by simp
      also have "\<dots> = Some (take (Suc n) s @ to_valid (drop (Suc n) s), r)"
        using 1(5) [OF Cons] rune n by simp
      also have "take (Suc n) s @ to_valid (drop (Suc n) s) = to_valid s"
        using to_valid_simps(3) [of c t] n by (simp add: Cons)
      finally show ?thesis unfolding qb y_def by simp
    qed
  qed
qed

section \<open>Values\<close>

definition is_json_space :: "char \<Rightarrow> bool" where
  "is_json_space c \<longleftrightarrow> c \<in> {CHR 0x20, CHR 0x09, CHR 0x0A, CHR 0x0D}"

definition skip_ws :: "string \<Rightarrow> string" where
  "skip_ws s = dropWhile is_json_space s"

text \<open>A run of digits, at least one.\<close>

definition some_digits :: "string \<Rightarrow> (string \<times> string) option" where
  "some_digits s =
     (let ds = takeWhile is_dec s in if ds = [] then None else Some (ds, drop (length ds) s))"

definition number_int :: "string \<Rightarrow> (string \<times> string) option" where
  "number_int s =
     (case s of
        [] \<Rightarrow> None
      | c # r \<Rightarrow> if c = CHR ''0'' then Some ([c], r) else some_digits s)"

definition number_frac :: "string \<Rightarrow> (string \<times> string) option" where
  "number_frac s =
     (case s of
        [] \<Rightarrow> Some ([], s)
      | c # r \<Rightarrow> if c = CHR ''.'' then map_option (\<lambda>(ds, t). (c # ds, t)) (some_digits r) else Some ([], s))"

definition number_exp :: "string \<Rightarrow> (string \<times> string) option" where
  "number_exp s =
     (case s of
        [] \<Rightarrow> Some ([], s)
      | c # r \<Rightarrow>
          if c = CHR ''e'' \<or> c = CHR ''E'' then
            (case r of
               [] \<Rightarrow> None
             | d # r' \<Rightarrow>
                 if d = CHR ''+'' \<or> d = CHR ''-'' then map_option (\<lambda>(ds, t). (c # d # ds, t)) (some_digits r')
                 else map_option (\<lambda>(ds, t). (c # ds, t)) (some_digits r))
          else Some ([], s))"

definition parse_number :: "string \<Rightarrow> (string \<times> string) option" where
  "parse_number s =
     (let (sign, s1) = (case s of [] \<Rightarrow> ([], s) | c # r \<Rightarrow> if c = CHR ''-'' then ([c], r) else ([], s))
      in case number_int s1 of
           None \<Rightarrow> None
         | Some (i, s2) \<Rightarrow>
             (case number_frac s2 of
                None \<Rightarrow> None
              | Some (f, s3) \<Rightarrow>
                  (case number_exp s3 of
                     None \<Rightarrow> None
                   | Some (e, s4) \<Rightarrow> Some (sign @ i @ f @ e, s4))))"

text \<open>
  A value, the elements of an array and the members of an object, with the nesting that is
  still allowed. The first argument bounds the steps; twice the length of the input is enough.
\<close>

fun parse_value :: "nat \<Rightarrow> nat \<Rightarrow> string \<Rightarrow> (json \<times> string) option"
  and parse_elements :: "nat \<Rightarrow> nat \<Rightarrow> string \<Rightarrow> (json list \<times> string) option"
  and parse_members :: "nat \<Rightarrow> nat \<Rightarrow> string \<Rightarrow> ((string \<times> json) list \<times> string) option" where
  "parse_value 0 d s = None"
| "parse_value (Suc n) d s =
     (case skip_ws s of
        [] \<Rightarrow> None
      | c # r \<Rightarrow>
          if c = CHR 0x22 then map_option (\<lambda>(t, r'). (JStr t, r')) (parse_string r)
          else if c = CHR 0x7B then
            (if d = 0 then None
             else if take 1 (skip_ws r) = [CHR 0x7D] then Some (JObj [], drop 1 (skip_ws r))
             else map_option (\<lambda>(ms, r'). (JObj ms, r')) (parse_members n (d - 1) r))
          else if c = CHR 0x5B then
            (if d = 0 then None
             else if take 1 (skip_ws r) = [CHR 0x5D] then Some (JArr [], drop 1 (skip_ws r))
             else map_option (\<lambda>(vs, r'). (JArr vs, r')) (parse_elements n (d - 1) r))
          else if has_prefix (c # r) ''null'' then Some (JNull, drop 3 r)
          else if has_prefix (c # r) ''true'' then Some (JBool True, drop 3 r)
          else if has_prefix (c # r) ''false'' then Some (JBool False, drop 4 r)
          else map_option (\<lambda>(t, r'). (JNum t, r')) (parse_number (c # r)))"
| "parse_elements 0 d s = None"
| "parse_elements (Suc n) d s =
     (case parse_value n d s of
        None \<Rightarrow> None
      | Some (v, r) \<Rightarrow>
          (case skip_ws r of
             [] \<Rightarrow> None
           | c # r' \<Rightarrow>
               if c = CHR 0x5D then Some ([v], r')
               else if c = CHR '','' then map_option (\<lambda>(vs, r''). (v # vs, r'')) (parse_elements n d r')
               else None))"
| "parse_members 0 d s = None"
| "parse_members (Suc n) d s =
     (case skip_ws s of
        [] \<Rightarrow> None
      | q # s1 \<Rightarrow>
          if q \<noteq> CHR 0x22 then None
          else (case parse_string s1 of
             None \<Rightarrow> None
           | Some (k, s2) \<Rightarrow>
               (case skip_ws s2 of
                  [] \<Rightarrow> None
                | c # s3 \<Rightarrow>
                    if c \<noteq> CHR '':'' then None
                    else (case parse_value n d s3 of
                       None \<Rightarrow> None
                     | Some (v, s4) \<Rightarrow>
                         (case skip_ws s4 of
                            [] \<Rightarrow> None
                          | e # s5 \<Rightarrow>
                              if e = CHR 0x7D then Some ([(k, v)], s5)
                              else if e = CHR '','' then
                                map_option (\<lambda>(ms, r). ((k, v) # ms, r)) (parse_members n d s5)
                              else None)))))"

declare parse_value.simps [simp del] parse_elements.simps [simp del] parse_members.simps [simp del]

definition maxNestingDepth :: nat where "maxNestingDepth = 10000"

definition json_parse :: "string \<Rightarrow> json option" where
  "json_parse s =
     (case parse_value (Suc (2 * length s)) maxNestingDepth s of
        None \<Rightarrow> None
      | Some (v, r) \<Rightarrow> if skip_ws r = [] then Some v else None)"

section \<open>The step bound is enough\<close>

lemma skip_ws_le: "length (skip_ws s) \<le> length s"
  by (simp add: skip_ws_def length_dropWhile_le)

lemma skip_ws_cons: "skip_ws s = c # r \<Longrightarrow> length r < length s"
  using skip_ws_le [of s] by simp

lemma map_prod_Some: "map_option (\<lambda>(t, r). (f t, r)) x = Some (u, r) \<longleftrightarrow> (\<exists>t. x = Some (t, r) \<and> u = f t)"
  by (cases x) auto

lemma parse_string_shorter: "parse_string s = Some (t, r) \<Longrightarrow> length r < length s"
proof (induction "length s" arbitrary: s t r rule: less_induct)
  case less
  have IH: "parse_string y = Some (x, r) \<Longrightarrow> length y < length s \<Longrightarrow> length r < length s" for x y
    using less.hyps [of y x r] by simp
  obtain c u where s: "s = c # u" using less.prems by (cases s) (simp_all add: parse_string.simps)
  note p = less.prems [unfolded s parse_string.simps [of "c # u"] list.case]
  show ?case
  proof (cases "c = CHR 0x22 \<or> c = CHR 0x5C")
    case True
    show ?thesis
    proof (cases "c = CHR 0x22")
      case True
      then show ?thesis using p s by simp
    next
      case False
      then have c: "c = CHR 0x5C" using True by blast
      obtain e u' where u: "u = e # u'" using p c by (cases u) simp_all
      have "\<exists>x y. parse_string y = Some (x, r) \<and> length y < length s"
        using p c unfolding u s by (auto simp: map_prod_Some split: if_splits option.splits) force+
      then show ?thesis using IH by blast
    qed
  next
    case False
    then have "\<exists>x y. parse_string y = Some (x, r) \<and> length y < length s"
      using p unfolding s
      by (auto simp: map_prod_Some split: if_splits) (rule exI, rule exI, rule conjI, assumption, simp)
    then show ?thesis using IH by blast
  qed
qed

lemma some_digits_shorter: "some_digits s = Some (t, r) \<Longrightarrow> length r < length s"
  by (cases s) (auto simp: some_digits_def Let_def split: if_splits)

lemma parse_number_shorter: "parse_number s = Some (t, r) \<Longrightarrow> length r < length s"
proof -
  assume p: "parse_number s = Some (t, r)"
  have i: "number_int s = Some (x, y) \<Longrightarrow> length y < length s" for s x y
    by (auto simp: number_int_def dest: some_digits_shorter split: list.splits if_splits)
  have f: "number_frac s = Some (x, y) \<Longrightarrow> length y \<le> length s" for s x y
    by (auto simp: number_frac_def dest: some_digits_shorter split: list.splits if_splits)
  have e: "number_exp s = Some (x, y) \<Longrightarrow> length y \<le> length s" for s x y
    by (auto simp: number_exp_def dest: some_digits_shorter split: list.splits if_splits)
  show ?thesis using p
    by (auto simp: parse_number_def dest!: i f e split: prod.splits list.splits if_splits option.splits)
qed

text \<open>What is parsed is consumed, and more steps than characters change nothing.\<close>

lemma parse_shorter:
  "(parse_value n d s = Some (v, r) \<longrightarrow> length r < length s)
   \<and> (parse_elements n d s = Some (vs, r) \<longrightarrow> length r < length s)
   \<and> (parse_members n d s = Some (ms, r) \<longrightarrow> length r < length s)"
proof (induction n arbitrary: d s v vs ms r)
  case 0
  then show ?case by (simp add: parse_value.simps parse_elements.simps parse_members.simps)
next
  case (Suc n)
  have V: "parse_value n d s = Some (v, r) \<Longrightarrow> length r < length s" for d s v r using Suc.IH by blast
  have E: "parse_elements n d s = Some (v, r) \<Longrightarrow> length r < length s" for d s v r using Suc.IH by blast
  have M: "parse_members n d s = Some (v, r) \<Longrightarrow> length r < length s" for d s v r using Suc.IH by blast
  have "length r < length s" if p: "parse_value (Suc n) d s = Some (v, r)"
  proof (cases "skip_ws s")
    case Nil
    then show ?thesis using p by (simp add: parse_value.simps)
  next
    case (Cons c u)
    have l: "length u < length s" by (rule skip_ws_cons [OF Cons])
    have "length r \<le> length u"
      using p skip_ws_le [of u] unfolding parse_value.simps Cons list.case
      by (auto simp: map_prod_Some dest!: V E M parse_string_shorter parse_number_shorter split: if_splits)
    then show ?thesis using l by linarith
  qed
  moreover have "length r < length s" if p: "parse_elements (Suc n) d s = Some (vs, r)"
    using p unfolding parse_elements.simps
    by (auto simp: map_prod_Some dest!: V E skip_ws_cons split: option.splits list.splits if_splits)
  moreover have "length r < length s" if p: "parse_members (Suc n) d s = Some (ms, r)"
    using p unfolding parse_members.simps
    by (auto simp: map_prod_Some dest!: V M skip_ws_cons parse_string_shorter split: option.splits list.splits if_splits)
  ultimately show ?case by blast
qed

lemma parse_steps:
  "(2 * length s < n \<and> n \<le> m \<longrightarrow> parse_value m d s = parse_value n d s)
   \<and> (2 * length s + 1 < n \<and> n \<le> m \<longrightarrow> parse_elements m d s = parse_elements n d s)
   \<and> (2 * length s + 1 < n \<and> n \<le> m \<longrightarrow> parse_members m d s = parse_members n d s)"
proof (induction n arbitrary: m d s)
  case 0
  then show ?case by simp
next
  case (Suc n)
  have V: "parse_value m d s = parse_value n d s" if "2 * length s < n" "n \<le> m" for m d s
    using Suc.IH that by blast
  have E: "parse_elements m d s = parse_elements n d s" if "2 * length s + 1 < n" "n \<le> m" for m d s
    using Suc.IH that by blast
  have M: "parse_members m d s = parse_members n d s" if "2 * length s + 1 < n" "n \<le> m" for m d s
    using Suc.IH that by blast
  show ?case
  proof (cases m)
    case 0
    then show ?thesis by simp
  next
    case m: (Suc k)
    have "parse_value m d s = parse_value (Suc n) d s" if b: "2 * length s < Suc n" "n \<le> k"
    proof (cases "skip_ws s")
      case Nil
      then show ?thesis by (simp add: m parse_value.simps)
    next
      case (Cons c u)
      have "2 * length u + 1 < n" using skip_ws_cons [OF Cons] b by linarith
      then show ?thesis using E [of u k] M [of u k] b by (simp add: m parse_value.simps Cons)
    qed
    moreover have "parse_elements m d s = parse_elements (Suc n) d s" if b: "2 * length s + 1 < Suc n" "n \<le> k"
    proof -
      have v: "parse_value k d s = parse_value n d s" by (rule V) (use b in linarith)+
      show ?thesis
      proof (cases "parse_value n d s")
        case None
        then show ?thesis by (simp add: m parse_elements.simps v)
      next
        case (Some x)
        obtain w r where x: "x = (w, r)" by (cases x)
        have lr: "length r < length s" using parse_shorter Some x by blast
        have "parse_elements k d u = parse_elements n d u" if "skip_ws r = c # u" for c u
          by (rule E) (use skip_ws_cons [OF that] lr b in linarith)+
        then show ?thesis using Some x by (auto simp: m parse_elements.simps v split: list.split)
      qed
    qed
    moreover have "parse_members m d s = parse_members (Suc n) d s" if b: "2 * length s + 1 < Suc n" "n \<le> k"
    proof -
      have v: "parse_value k d y = parse_value n d y" if "length y < length s" for y
        by (rule V) (use b that in linarith)+
      have e: "parse_members k d y = parse_members n d y" if "length y < length s" for y
        by (rule M) (use b that in linarith)+
      note unf = m parse_members.simps
      show ?thesis
      proof (cases "skip_ws s")
        case Nil
        then show ?thesis by (simp add: unf)
      next
        case s1: (Cons q s1)
        show ?thesis
        proof (cases "parse_string s1")
          case None
          then show ?thesis using s1 by (simp add: unf)
        next
          case (Some x)
          then obtain key s2 where s2: "parse_string s1 = Some (key, s2)" by (cases x) simp
          show ?thesis
          proof (cases "skip_ws s2")
            case Nil
            then show ?thesis using s1 s2 by (simp add: unf)
          next
            case s3: (Cons c s3)
            have l3: "length s3 < length s"
              using skip_ws_cons [OF s1] parse_string_shorter [OF s2] skip_ws_cons [OF s3] by linarith
            show ?thesis
            proof (cases "parse_value n d s3")
              case None
              then show ?thesis using s1 s2 s3 v [OF l3] by (simp add: unf)
            next
              case (Some x)
              then obtain w s4 where s4: "parse_value n d s3 = Some (w, s4)" by (cases x) simp
              have "length s4 < length s" using parse_shorter s4 l3 by (meson order_less_trans)
              then have "parse_members k d u = parse_members n d u" if "skip_ws s4 = g # u" for g u
                using e [of u] skip_ws_cons [OF that] by simp
              then show ?thesis using s1 s2 s3 s4 v [OF l3] by (auto simp: unf split: list.split)
            qed
          qed
        qed
      qed
    qed
    ultimately show ?thesis using m by (meson Suc_le_mono)
  qed
qed

theorem json_parse_steps: "2 * length s < n \<Longrightarrow> json_parse s =
   (case parse_value n maxNestingDepth s of
      None \<Rightarrow> None | Some (v, r) \<Rightarrow> if skip_ws r = [] then Some v else None)"
  using parse_steps [of s "Suc (2 * length s)" n maxNestingDepth] by (simp add: json_parse_def)

section \<open>Integers as numbers\<close>

definition number_end :: "string \<Rightarrow> bool" where
  "number_end r = (case r of [] \<Rightarrow> True
     | c # u \<Rightarrow> \<not> is_dec c \<and> c \<noteq> CHR ''.'' \<and> c \<noteq> CHR ''e'' \<and> c \<noteq> CHR ''E'')"

lemma some_digits_append:
  "list_all is_dec ds \<Longrightarrow> ds \<noteq> [] \<Longrightarrow> number_end r \<Longrightarrow> some_digits (ds @ r) = Some (ds, r)"
proof -
  assume d: "list_all is_dec ds" "ds \<noteq> []" "number_end r"
  have "takeWhile is_dec r = []" using d(3) by (cases r) (simp_all add: number_end_def)
  then have "takeWhile is_dec (ds @ r) = ds" using d(1) by (simp add: takeWhile_append2 list_all_iff)
  then show ?thesis using d(2) by (simp add: some_digits_def)
qed

lemma dec_digits_head: "n \<noteq> 0 \<Longrightarrow> hd (dec_digits n) \<noteq> CHR ''0''"
proof (induction n rule: dec_digits.induct)
  case (1 n)
  show ?case
  proof (cases "n < 10")
    case True
    then have "code_of (dec_char n) \<noteq> code_of CHR ''0''" using 1(2) by (simp add: dec_char_code) (simp add: code_of_def)
    then show ?thesis using True by (subst dec_digits.simps) auto
  next
    case False
    then show ?thesis using 1(1) [OF False] dec_digits_nonempty [of "n div 10"]
      by (subst dec_digits.simps) simp
  qed
qed

lemma number_int_digits:
  assumes "number_end r"
  shows "number_int (dec_digits n @ r) = Some (dec_digits n, r)"
proof (cases "n = 0")
  case True
  have "dec_digits 0 = ''0''" by (subst dec_digits.simps) (simp add: dec_char_def char_of_def bit_0)
  then show ?thesis using True by (simp add: number_int_def)
next
  case False
  obtain c cs where d: "dec_digits n = c # cs" using dec_digits_nonempty [of n] by (cases "dec_digits n") auto
  then have "c \<noteq> CHR ''0''" using dec_digits_head [OF False] by simp
  then show ?thesis using some_digits_append [OF dec_digits_all dec_digits_nonempty assms, of n]
    by (simp add: number_int_def d)
qed

lemma parse_format_int:
  assumes "number_end r"
  shows "parse_number (format_int k @ r) = Some (format_int k, r)"
proof -
  have tail: "number_frac r = Some ([], r)" "number_exp r = Some ([], r)"
    using assms by (cases r; simp add: number_frac_def number_exp_def number_end_def)+
  show ?thesis
  proof (cases "k < 0")
    case True
    then show ?thesis using number_int_digits [OF assms] tail by (simp add: parse_number_def format_int_def)
  next
    case False
    obtain c cs where d: "dec_digits (nat k) = c # cs"
      using dec_digits_nonempty [of "nat k"] by (cases "dec_digits (nat k)") auto
    then have "c \<noteq> CHR ''-''" using dec_digits_all [of "nat k"] is_dec_no_sign [of c] by simp
    then show ?thesis using False number_int_digits [OF assms, of "nat k"] tail
      by (simp add: parse_number_def format_int_def d)
  qed
qed

text \<open>A value that starts with a digit or a sign is read as a number.\<close>

lemma parse_value_int:
  assumes "number_end r"
  shows "parse_value (Suc n) d (format_int k @ r) = Some (JNum (format_int k), r)"
proof -
  obtain c cs where d: "format_int k = c # cs"
    using dec_digits_nonempty by (cases "format_int k") (auto simp: format_int_def split: if_splits)
  have c: "is_dec c \<or> c = CHR ''-''"
  proof (cases "k < 0")
    case True
    then show ?thesis using d by (simp add: format_int_def)
  next
    case False
    then show ?thesis using d dec_digits_all [of "nat k"] by (simp add: format_int_def)
  qed
  then have n: "c \<notin> {CHR 0x22, CHR 0x7B, CHR 0x5B, CHR ''n'', CHR ''t'', CHR ''f'', CHR 0x20, CHR 0x09, CHR 0x0A, CHR 0x0D}"
    by (auto simp: is_dec_def code_of_def)
  then have "skip_ws (c # cs @ r) = c # cs @ r" by (simp add: skip_ws_def is_json_space_def)
  then show ?thesis using n parse_format_int [OF assms, of k] by (simp add: parse_value.simps d)
qed

lemma parse_value_string:
  "parse_value (Suc n) d (json_quote s @ r) = Some (JStr (to_valid s), r)"
proof -
  have "skip_ws (json_quote s @ r) = CHR 0x22 # quote_body s @ CHR 0x22 # r"
    by (simp add: skip_ws_def is_json_space_def json_quote_def)
  then show ?thesis by (simp add: parse_value.simps parse_quote)
qed

end
