(* ===== verification/RequestState.thy ===== *)
theory RequestState
  imports Json SessionStore
begin

text \<open>
  \<open>session/request_state.go\<close>: the signed request state a client echoes back in an elicitation
  round. The keyed hash is an argument: a function of the key and the message. The envelope is
  JSON in raw URL base64. Instants count nanoseconds from the Unix epoch here, so \<open>Unix()\<close> is
  the division by the second.
\<close>

definition requestStatePrefix :: string where "requestStatePrefix = ''v1.''"

definition requestStateTTL :: duration where "requestStateTTL = 35 * minute"

datatype request_state_error = errRequestState

definition unix_seconds :: "time \<Rightarrow> int" where
  "unix_seconds t = t div second"

text \<open>The loop of \<open>lastIndexByte\<close>, from the index after the next one to look at.\<close>

fun last_from :: "nat \<Rightarrow> string \<Rightarrow> char \<Rightarrow> int" where
  "last_from 0 s b = -1"
| "last_from (Suc i) s b = (if s ! i = b then int i else last_from i s b)"

definition lastIndexByte :: "string \<Rightarrow> char \<Rightarrow> int" where
  "lastIndexByte s b = last_from (length s) s b"

definition mustB64 :: "string \<Rightarrow> string" where
  "mustB64 s = (case raw_url_decode s of None \<Rightarrow> [] | Some bs \<Rightarrow> bs)"

text \<open>The envelope: \<open>json.Marshal\<close> of the struct, and \<open>json.Unmarshal\<close> into it.\<close>

definition encode_envelope :: "string \<Rightarrow> int \<Rightarrow> string" where
  "encode_envelope p e =
     [CHR 0x7B] @ json_quote ''p'' @ '':'' @ json_quote p @ '','' @ json_quote ''exp'' @ '':'' @ format_int e
       @ [CHR 0x7D]"

text \<open>
  A member sets the field whose name it has up to case; \<open>null\<close> leaves the field alone; a value
  of another type makes the decoding fail.
\<close>

fun envelope_member :: "(string \<times> json) \<Rightarrow> (string \<times> int) option \<Rightarrow> (string \<times> int) option" where
  "envelope_member m None = None"
| "envelope_member (k, v) (Some (p, e)) =
     (if to_lower k = ''p'' then
        (case v of JStr t \<Rightarrow> Some (t, e) | JNull \<Rightarrow> Some (p, e) | _ \<Rightarrow> None)
      else if to_lower k = ''exp'' then
        (case v of JNum l \<Rightarrow> map_option (Pair p) (parse_int64 l) | JNull \<Rightarrow> Some (p, e) | _ \<Rightarrow> None)
      else Some (p, e))"

definition decode_envelope :: "string \<Rightarrow> (string \<times> int) option" where
  "decode_envelope s =
     (case json_parse s of
        Some (JObj ms) \<Rightarrow> fold envelope_member ms (Some ([], 0))
      | Some JNull \<Rightarrow> Some ([], 0)
      | _ \<Rightarrow> None)"

definition signRequestState :: "(string \<Rightarrow> string \<Rightarrow> string) \<Rightarrow> string \<Rightarrow> string \<Rightarrow> string" where
  "signRequestState hmac key body = hmac key (requestStatePrefix @ body)"

definition mintRequestState :: "(string \<Rightarrow> string \<Rightarrow> string) \<Rightarrow> string \<Rightarrow> string \<Rightarrow> time \<Rightarrow> string" where
  "mintRequestState hmac key payload now =
     (let env = encode_envelope payload (unix_seconds (now + requestStateTTL));
          body = b64_encode URLAlphabet env;
          mac = signRequestState hmac key body
      in requestStatePrefix @ body @ ''.'' @ b64_encode URLAlphabet mac)"

definition verifyRequestState ::
  "(string \<Rightarrow> string \<Rightarrow> string) \<Rightarrow> string \<Rightarrow> string \<Rightarrow> time \<Rightarrow> (request_state_error, string) result" where
  "verifyRequestState hmac key state now =
     (if \<not> has_prefix state requestStatePrefix then Inl errRequestState
      else let dot = lastIndexByte state CHR ''.''
           in if dot < int (length requestStatePrefix) then Inl errRequestState
              else let body = drop (length requestStatePrefix) (take (nat dot) state);
                       macB64 = drop (nat dot + 1) state
                   in case raw_url_decode macB64 of
                        None \<Rightarrow> Inl errRequestState
                      | Some mac \<Rightarrow>
                          if mac \<noteq> signRequestState hmac key body then Inl errRequestState
                          else (case decode_envelope (mustB64 body) of
                                  None \<Rightarrow> Inl errRequestState
                                | Some (p, e) \<Rightarrow>
                                    if p = [] \<or> e < unix_seconds now then Inl errRequestState else Inr p))"

text \<open>The wizard's entry points, with the process's random key as an argument.\<close>

definition MintWizardRequestState :: "(string \<Rightarrow> string \<Rightarrow> string) \<Rightarrow> string \<Rightarrow> string \<Rightarrow> time \<Rightarrow> string" where
  "MintWizardRequestState hmac requestStateKey sessionID now = mintRequestState hmac requestStateKey sessionID now"

definition VerifyWizardRequestState ::
  "(string \<Rightarrow> string \<Rightarrow> string) \<Rightarrow> string \<Rightarrow> string \<Rightarrow> time \<Rightarrow> (request_state_error, string) result" where
  "VerifyWizardRequestState hmac requestStateKey state now = verifyRequestState hmac requestStateKey state now"

section \<open>The last dot\<close>

lemma last_from_bound: "last_from i s b < int i"
  by (induction i) simp_all

lemma last_from_found: "last_from i s b = int j \<Longrightarrow> j < i \<and> s ! j = b \<and> (\<forall>k. j < k \<and> k < i \<longrightarrow> s ! k \<noteq> b)"
  by (induction i) (auto split: if_splits simp: less_Suc_eq)

lemma last_from_is: "j < i \<Longrightarrow> s ! j = b \<Longrightarrow> \<forall>k. j < k \<and> k < i \<longrightarrow> s ! k \<noteq> b \<Longrightarrow> last_from i s b = int j"
proof (induction i)
  case (Suc i)
  show ?case
  proof (cases "j = i")
    case True
    then show ?thesis using Suc.prems by simp
  next
    case False
    then show ?thesis using Suc by simp
  qed
qed simp

lemma lastIndexByte_append: "b \<notin> set ys \<Longrightarrow> lastIndexByte (xs @ b # ys) b = int (length xs)"
  unfolding lastIndexByte_def
proof (rule last_from_is)
  assume b: "b \<notin> set ys"
  show "\<forall>k. length xs < k \<and> k < length (xs @ b # ys) \<longrightarrow> (xs @ b # ys) ! k \<noteq> b"
  proof (intro allI impI)
    fix k
    assume k: "length xs < k \<and> k < length (xs @ b # ys)"
    then obtain j where j: "k = length xs + Suc j" using less_imp_Suc_add [of "length xs" k] by auto
    then have "(xs @ b # ys) ! k = ys ! j" "j < length ys" using k by (simp_all add: nth_append)
    then show "(xs @ b # ys) ! k \<noteq> b" using b by (metis nth_mem)
  qed
qed simp_all

lemma lastIndexByte_split:
  assumes "lastIndexByte s b = int j"
  shows "s = take j s @ b # drop (Suc j) s \<and> b \<notin> set (drop (Suc j) s)"
proof -
  have j: "j < length s" "s ! j = b" "\<forall>k. j < k \<and> k < length s \<longrightarrow> s ! k \<noteq> b"
    using last_from_found [OF assms [unfolded lastIndexByte_def]] by blast+
  have "b \<notin> set (drop (Suc j) s)"
    using j(3) by (auto simp: in_set_conv_nth)
  then show ?thesis using j(1,2) id_take_nth_drop [of j s] by simp
qed

section \<open>The envelope\<close>

lemma envelope_parsed:
  "json_parse (encode_envelope p e) = Some (JObj [(''p'', JStr (to_valid p)), (''exp'', JNum (format_int e))])"
proof -
  define s where "s = encode_envelope p e"
  have key: "parse_string (quote_body k @ CHR 0x22 # r) = Some (k, r)" if "\<forall>c \<in> set k. code_of c < 128" for k r
    using parse_quote [of k r] to_valid_ascii [OF that] by simp
  have e: "parse_members (Suc (Suc n)) d (json_quote ''exp'' @ '':'' @ format_int e @ [CHR 0x7D])
      = Some ([(''exp'', JNum (format_int e))], [])" for n d
    using parse_value_int [of "[CHR 0x7D]" n d e]
    by (simp add: parse_members.simps json_quote_def skip_ws_def is_json_space_def key code_of_def
        number_end_def is_dec_def)
  have p: "parse_members (Suc (Suc (Suc n))) d
      (json_quote ''p'' @ '':'' @ json_quote p @ '','' @ json_quote ''exp'' @ '':'' @ format_int e @ [CHR 0x7D])
      = Some ([(''p'', JStr (to_valid p)), (''exp'', JNum (format_int e))], [])" for n d
    using e [of n d] parse_value_string [of "Suc n" d p "'','' @ json_quote ''exp'' @ '':'' @ format_int e @ [CHR 0x7D]"]
    by (simp add: parse_members.simps [of "Suc (Suc n)"] json_quote_def [of "''p''"] skip_ws_def is_json_space_def key code_of_def)
  have "parse_value (Suc (Suc (Suc (Suc n)))) maxNestingDepth s
      = Some (JObj [(''p'', JStr (to_valid p)), (''exp'', JNum (format_int e))], [])" for n
    using p [of n "maxNestingDepth - 1"]
    by (simp add: parse_value.simps s_def encode_envelope_def skip_ws_def is_json_space_def json_quote_def
        maxNestingDepth_def)
  from this [of "2 * length s"] show ?thesis
    unfolding s_def [symmetric] using json_parse_steps [of s "Suc (Suc (Suc (Suc (2 * length s))))"]
    by (simp add: skip_ws_def)
qed

lemma envelope_roundtrip:
  "- (2 ^ 63) \<le> e \<Longrightarrow> e < 2 ^ 63 \<Longrightarrow> decode_envelope (encode_envelope p e) = Some (to_valid p, e)"
proof -
  assume "- (2 ^ 63) \<le> e" "e < 2 ^ 63"
  from format_parse_int [OF this] show ?thesis
    by (simp add: decode_envelope_def envelope_parsed to_lower_def lower_char_def code_of_def)
qed

section \<open>Minting and verifying\<close>

lemma prefix_dot: "requestStatePrefix @ body @ ''.'' @ mac = (requestStatePrefix @ body) @ CHR ''.'' # mac"
  by simp

lemma verify_parts:
  assumes "CHR ''.'' \<notin> set mac"
  shows "verifyRequestState hmac key (requestStatePrefix @ body @ ''.'' @ mac) now =
    (case raw_url_decode mac of
       None \<Rightarrow> Inl errRequestState
     | Some m \<Rightarrow>
         if m \<noteq> signRequestState hmac key body then Inl errRequestState
         else (case decode_envelope (mustB64 body) of
                 None \<Rightarrow> Inl errRequestState
               | Some (p, e) \<Rightarrow> if p = [] \<or> e < unix_seconds now then Inl errRequestState else Inr p))"
proof -
  have d: "lastIndexByte (requestStatePrefix @ body @ ''.'' @ mac) CHR ''.'' = int (length (requestStatePrefix @ body))"
    unfolding prefix_dot by (rule lastIndexByte_append [OF assms])
  show ?thesis unfolding verifyRequestState_def d by (simp add: Let_def nat_int_add Suc_diff_le)
qed

text \<open>The seal of a minted state is intact: only its envelope decides.\<close>

lemma minted_opens:
  "verifyRequestState hmac key (mintRequestState hmac key payload now) later =
     (case decode_envelope (encode_envelope payload (unix_seconds (now + requestStateTTL))) of
        None \<Rightarrow> Inl errRequestState
      | Some (p, e) \<Rightarrow> if p = [] \<or> e < unix_seconds later then Inl errRequestState else Inr p)"
  unfolding mintRequestState_def Let_def verify_parts [OF raw_no_dot] by (simp add: mustB64_def raw_roundtrip)

text \<open>
  C14. Sealing and opening a session id. A minted request state opens again, under the same key,
  to the payload it was minted for (with bytes that are not UTF-8 replaced), from its minting
  until 35 minutes later in whole seconds, and is refused afterwards; an empty payload is never
  accepted. This holds for every keyed hash and every payload, through base64, JSON quoting and
  the decimal expiry.
\<close>

theorem request_state_roundtrip:
  assumes "- (2 ^ 63) \<le> unix_seconds (now + requestStateTTL)" and "unix_seconds (now + requestStateTTL) < 2 ^ 63"
  shows "verifyRequestState hmac key (mintRequestState hmac key payload now) later =
    (if payload = [] \<or> unix_seconds (now + requestStateTTL) < unix_seconds later
     then Inl errRequestState else Inr (to_valid payload))"
  using envelope_roundtrip [OF assms] by (simp add: minted_opens to_valid_nil_iff)

text \<open>
  C15. What is accepted is authentic and fresh. A string is accepted exactly when it is the
  version prefix, a body, a dot and a code that decodes to the keyed hash of prefix and body,
  where the body carries the returned, non-empty payload and an expiry that has not passed.
  Anything else, whatever its shape, gives the one opaque error.
\<close>

theorem request_state_accepted_iff:
  "verifyRequestState hmac key state now = Inr p \<longleftrightarrow>
     (\<exists>body mac e. state = requestStatePrefix @ body @ ''.'' @ mac \<and> CHR ''.'' \<notin> set mac
        \<and> raw_url_decode mac = Some (hmac key (requestStatePrefix @ body))
        \<and> decode_envelope (mustB64 body) = Some (p, e) \<and> p \<noteq> [] \<and> unix_seconds now \<le> e)"
proof
  assume v: "verifyRequestState hmac key state now = Inr p"
  define j where "j = nat (lastIndexByte state CHR ''.'')"
  have pre: "has_prefix state requestStatePrefix" and dot: "int (length requestStatePrefix) \<le> lastIndexByte state CHR ''.''"
    using v by (auto simp: verifyRequestState_def Let_def split: if_splits)
  then have ij: "lastIndexByte state CHR ''.'' = int j" and jl: "length requestStatePrefix \<le> j" by (simp_all add: j_def)
  note sp = lastIndexByte_split [OF ij]
  obtain r where r: "state = requestStatePrefix @ r" using pre unfolding has_prefix_iff by blast
  define body where "body = drop (length requestStatePrefix) (take j state)"
  define mac where "mac = drop (Suc j) state"
  have "take j state = requestStatePrefix @ body"
    unfolding body_def using jl by (simp add: r)
  then have state: "state = requestStatePrefix @ body @ ''.'' @ mac" and nd: "CHR ''.'' \<notin> set mac"
    using sp unfolding mac_def by simp_all
  show "\<exists>body mac e. state = requestStatePrefix @ body @ ''.'' @ mac \<and> CHR ''.'' \<notin> set mac
        \<and> raw_url_decode mac = Some (hmac key (requestStatePrefix @ body))
        \<and> decode_envelope (mustB64 body) = Some (p, e) \<and> p \<noteq> [] \<and> unix_seconds now \<le> e"
  proof -
    have "\<exists>e. raw_url_decode mac = Some (hmac key (requestStatePrefix @ body))
        \<and> decode_envelope (mustB64 body) = Some (p, e) \<and> p \<noteq> [] \<and> unix_seconds now \<le> e"
      using v [unfolded state verify_parts [OF nd]]
      by (auto simp: signRequestState_def split: option.splits if_splits prod.splits)
    then show ?thesis using state nd by blast
  qed
next
  assume "\<exists>body mac e. state = requestStatePrefix @ body @ ''.'' @ mac \<and> CHR ''.'' \<notin> set mac
        \<and> raw_url_decode mac = Some (hmac key (requestStatePrefix @ body))
        \<and> decode_envelope (mustB64 body) = Some (p, e) \<and> p \<noteq> [] \<and> unix_seconds now \<le> e"
  then obtain body mac e where s: "state = requestStatePrefix @ body @ ''.'' @ mac" "CHR ''.'' \<notin> set mac"
    and m: "raw_url_decode mac = Some (hmac key (requestStatePrefix @ body))"
      "decode_envelope (mustB64 body) = Some (p, e)" "p \<noteq> []" "unix_seconds now \<le> e" by blast
  show "verifyRequestState hmac key state now = Inr p"
    unfolding s(1) verify_parts [OF s(2)] using m by (simp add: signRequestState_def)
qed

text \<open>The code is not canonical: a state with a line break appended is accepted as well.\<close>

theorem request_state_line_break:
  assumes "verifyRequestState hmac key state now = Inr p"
  shows "verifyRequestState hmac key (state @ [CHR 0x0A]) now = Inr p"
proof -
  have decode: "raw_url_decode (mac @ [CHR 0x0A]) = raw_url_decode mac" for mac
    by (simp add: raw_url_decode_def no_breaks_def)
  define dot where "dot = lastIndexByte state CHR ''.''"
  have pre: "has_prefix state requestStatePrefix" and d: "int (length requestStatePrefix) \<le> dot"
    using assms by (auto simp: verifyRequestState_def Let_def dot_def split: if_splits)
  have dl: "dot < int (length state)" unfolding dot_def lastIndexByte_def by (rule last_from_bound)
  have sp: "state = take (nat dot) state @ CHR ''.'' # drop (Suc (nat dot)) state"
    "CHR ''.'' \<notin> set (drop (Suc (nat dot)) state)"
    using lastIndexByte_split [of state "CHR ''.''" "nat dot"] d by (simp_all add: dot_def)
  have "lastIndexByte (state @ [CHR 0x0A]) CHR ''.'' = dot"
  proof -
    have "state @ [CHR 0x0A] = take (nat dot) state @ CHR ''.'' # (drop (Suc (nat dot)) state @ [CHR 0x0A])"
      using sp(1) by (metis append.assoc append_Cons)
    moreover have "CHR ''.'' \<notin> set (drop (Suc (nat dot)) state @ [CHR 0x0A])" using sp(2) by simp
    ultimately have "lastIndexByte (state @ [CHR 0x0A]) CHR ''.'' = int (length (take (nat dot) state))"
      using lastIndexByte_append by metis
    then show ?thesis using d dl by simp
  qed
  moreover have "has_prefix (state @ [CHR 0x0A]) requestStatePrefix"
    using pre unfolding has_prefix_iff by auto
  ultimately show ?thesis using assms pre d dl
    by (simp add: verifyRequestState_def Let_def dot_def [symmetric] decode)
qed

section \<open>The state outlives the session\<close>


section \<open>Witnesses\<close>

text \<open>A toy keyed hash: the key followed by the message.\<close>

definition demo_hmac :: "string \<Rightarrow> string \<Rightarrow> string" where
  "demo_hmac key m = key @ m"

theorem request_state_roundtrip_witness:
  "verifyRequestState demo_hmac ''k'' (mintRequestState demo_hmac ''k'' ''abc'' 0) (20 * minute)
     = Inr (to_valid ''abc'')"
  using request_state_roundtrip [of 0 demo_hmac "''k''" "''abc''" "20 * minute"]
  by (simp add: unix_seconds_def requestStateTTL_def minute_def second_def)

definition demo_session :: "(unit, unit, unit, unit) session" where
  "demo_session = new_session ''abc'' 0 DefaultSessionTTL () () []"

definition demo_store :: "(unit, unit, unit, unit) session_store" where
  "demo_store = snd (sess_create ''abc'' 0 0 () () [] NewSessionStore)"


end
