(* ===== verification/Profile.thy ===== *)
theory Profile
  imports Model
begin

text \<open>
  \<open>model/profile.go\<close>: the feature vocabulary, hosts, transports and the platform profile of a
  request.
\<close>

definition FeatFileHostInput :: string where "FeatFileHostInput = ''file-host-input''"
definition FeatSourcePath :: string where "FeatSourcePath = ''source-path''"
definition FeatSourceMint :: string where "FeatSourceMint = ''source-mint''"
definition FeatSourceURL :: string where "FeatSourceURL = ''source-url''"
definition FeatSourceData :: string where "FeatSourceData = ''source-data''"
definition FeatMCPApps :: string where "FeatMCPApps = ''mcp-apps-ui''"

definition FeatXMcpFile :: string where "FeatXMcpFile = ''x-mcp-file''"
definition FeatSinkLocal :: string where "FeatSinkLocal = ''sink-local''"
definition FeatSinkDrop :: string where "FeatSinkDrop = ''sink-drop''"
definition FeatElicitation :: string where "FeatElicitation = ''elicitation''"
definition FeatRemoteAccess :: string where "FeatRemoteAccess = ''remote-access''"
definition FeatCoLocated :: string where "FeatCoLocated = ''co-located''"

text \<open>The host vocabulary; a profile may carry any string.\<close>

definition host_types :: "string list" where
  "host_types = [''unknown'', ''openai'', ''chatgpt'', ''grok'', ''opencode'', ''kilo'', ''kiro'', ''claude'',
     ''claude-desktop'', ''claude-code'', ''stdio-apps'', ''aider-desk'', ''devin'', ''cline'', ''codex'', ''copilot-cli'',
     ''goose'', ''antigravity'', ''kimi'', ''zed'', ''fx'', ''generic'']"

definition auth_methods :: "string list" where "auth_methods = [''none'', ''bearer'', ''oauth'']"

lemmas feature_defs = FeatSourcePath_def FeatSourceMint_def FeatSourceURL_def FeatSourceData_def
  FeatMCPApps_def FeatFileHostInput_def FeatXMcpFile_def FeatSinkLocal_def FeatSinkDrop_def
  FeatElicitation_def FeatRemoteAccess_def FeatCoLocated_def

definition TransportStdio :: string where "TransportStdio = ''stdio''"
definition TransportHTTP :: string where "TransportHTTP = ''http''"
definition TransportOpenAI :: string where "TransportOpenAI = ''openai''"

lemmas transport_defs = TransportStdio_def TransportHTTP_def TransportOpenAI_def

record client_info =
  ci_Name :: string
  ci_Version :: string
  ci_Title :: string
  ci_Description :: string

record token_info =
  ti_Scopes :: "string list"
  ti_Expiration :: time
  ti_UserID :: string
  ti_Extra :: "gdata option"

text \<open>A header map; \<open>None\<close> is the nil map.\<close>

type_synonym header_map = "(string, string list) gomap option"

record profile =
  pf_HostType :: string
  pf_Transport :: string
  pf_AuthMethod :: string
  pf_Remote :: bool
  pf_Features :: feature_set
  pf_Hosted :: bool
  pf_ClientInfo :: "client_info option"
  pf_ProtocolVer :: string
  pf_UserAgent :: string
  pf_Headers :: header_map
  pf_TokenInfo :: "token_info option"

definition pf_has :: "profile \<Rightarrow> string \<Rightarrow> bool" where
  "pf_has p f = fs_has (pf_Features p) f"

definition IsTransport :: "profile \<Rightarrow> string \<Rightarrow> bool" where
  "IsTransport p t \<longleftrightarrow> pf_Transport p = t"

definition IsHost :: "profile \<Rightarrow> string \<Rightarrow> bool" where
  "IsHost p h \<longleftrightarrow> pf_HostType p = h"

definition CloneFeatures :: "profile \<Rightarrow> profile" where
  "CloneFeatures p = p\<lparr>pf_Features := fs_clone (pf_Features p)\<rparr>"

lemma fs_clone_get: "gok fs \<Longrightarrow> gget (fs_clone fs) f = gget fs f"
proof -
  assume ok: "gok fs"
  have "fs_clone fs = gmerge fs []" by (simp add: fs_clone_def gmerge_def)
  then show ?thesis using gget_gmerge [OF ok, of "[]" f] by (simp split: option.split)
qed

lemma fs_has_set: "fs_has (gset f b fs) g = (if g = f then b else fs_has fs g)"
  by (simp add: fs_has_def)

end
