(* ===== verification/Catalog.thy ===== *)
theory Catalog
  imports Profile Json
begin

text \<open>
  The catalog types of \<open>model/\<close> (\<open>catalog_types.go\<close>, \<open>protocol_model.go\<close>, \<open>tool_target.go\<close>,
  \<open>app_meta.go\<close>, \<open>elicitation.go\<close>), the conversions between descriptors and entries, the
  official tool a descriptor becomes (\<open>sdk/tool.go\<close>), and the JSON text of a tool result
  (\<open>toolargs/file_tools_args.go\<close>).
\<close>

section \<open>Tools\<close>

record security_scheme =
  sch_Type :: string
  sch_Scopes :: "string list"

record tool_target =
  tt_Require :: "feature_set option"
  tt_Visible :: bool
  tt_Description :: string
  tt_InputSchema :: string
  tt_OutputSchema :: string
  tt_Meta :: "gdata option"
  tt_SecuritySchemes :: "security_scheme list option"
  tt_SensitiveFlags :: "string list"
  tt_DescFunc :: "(profile \<Rightarrow> string) option"

text \<open>The categories of the discovery filter.\<close>

definition tool_categories :: "string list" where
  "tool_categories = [''core'', ''account'', ''storage'', ''names'', ''operations'', ''admin'', ''wizard'']"

definition InteractionAgentSafe :: string where "InteractionAgentSafe = ''agent_safe''"
definition InteractionInteractive :: string where "InteractionInteractive = ''interactive''"

text \<open>Descriptors and entries, with the handler left open; \<open>None\<close> is nil.\<close>

record 'h tool_descriptor =
  td_Name :: string
  td_Title :: string
  td_Description :: string
  td_Category :: string
  td_ReadOnly :: bool
  td_Destructive :: bool
  td_OpenWorldHint :: bool
  td_DirectVisible :: bool
  td_InputSchema :: string
  td_OutputSchema :: string
  td_Meta :: "gdata option"
  td_SecuritySchemes :: "security_scheme list option"
  td_SensitiveFlags :: "string list"
  td_MCPTargets :: "tool_target list option"
  td_Handler :: "'h option"

record 'h tool_entry =
  te_Name :: string
  te_Title :: string
  te_Description :: string
  te_Category :: string
  te_ReadOnly :: bool
  te_Destructive :: bool
  te_OpenWorldHint :: bool
  te_DirectVisible :: bool
  te_Interaction :: string
  te_InputSchema :: string
  te_OutputSchema :: string
  te_Meta :: "gdata option"
  te_SecuritySchemes :: "security_scheme list option"
  te_SensitiveFlags :: "string list"
  te_MCPTargets :: "tool_target list option"
  te_Handler :: "'h option"

definition DescriptorFromTool :: "'h tool_entry \<Rightarrow> 'h tool_descriptor" where
  "DescriptorFromTool e =
     \<lparr>td_Name = te_Name e, td_Title = te_Title e, td_Description = te_Description e,
      td_Category = te_Category e, td_ReadOnly = te_ReadOnly e, td_Destructive = te_Destructive e,
      td_OpenWorldHint = te_OpenWorldHint e, td_DirectVisible = te_DirectVisible e,
      td_InputSchema = te_InputSchema e, td_OutputSchema = te_OutputSchema e, td_Meta = te_Meta e,
      td_SecuritySchemes = te_SecuritySchemes e, td_SensitiveFlags = te_SensitiveFlags e,
      td_MCPTargets = te_MCPTargets e, td_Handler = None\<rparr>"

definition ToolEntryFromDescriptor :: "'h tool_descriptor \<Rightarrow> 'h tool_entry" where
  "ToolEntryFromDescriptor d =
     \<lparr>te_Name = td_Name d, te_Title = td_Title d, te_Description = td_Description d,
      te_Category = td_Category d, te_ReadOnly = td_ReadOnly d, te_Destructive = td_Destructive d,
      te_OpenWorldHint = td_OpenWorldHint d, te_DirectVisible = td_DirectVisible d,
      te_Interaction = InteractionAgentSafe,
      te_InputSchema = td_InputSchema d, te_OutputSchema = td_OutputSchema d, te_Meta = td_Meta d,
      te_SecuritySchemes = td_SecuritySchemes d, te_SensitiveFlags = td_SensitiveFlags d,
      te_MCPTargets = td_MCPTargets d, te_Handler = td_Handler d\<rparr>"

definition ToolDescriptorFromEntry :: "'h tool_entry \<Rightarrow> 'h tool_descriptor" where
  "ToolDescriptorFromEntry e = DescriptorFromTool e"

definition ToolDescriptorForHandler :: "'h tool_entry \<Rightarrow> 'h \<Rightarrow> 'h tool_descriptor" where
  "ToolDescriptorForHandler e h = (DescriptorFromTool e)\<lparr>td_Handler := Some h\<rparr>"

lemma descriptor_roundtrip:
  "ToolDescriptorForHandler (ToolEntryFromDescriptor d) h = d\<lparr>td_Handler := Some h\<rparr>"
  by (cases d) (simp add: ToolDescriptorForHandler_def DescriptorFromTool_def ToolEntryFromDescriptor_def)

section \<open>The official tool\<close>

text \<open>\<open>_meta\<close> of the wire tool: security schemes are kept apart from the dynamic values.\<close>

record official_tool =
  ot_Name :: string
  ot_Title :: string
  ot_Description :: string
  ot_InputSchema :: string
  ot_OutputSchema :: "string option"
  ot_Meta :: gdata \<comment> \<open>without the key \<open>securitySchemes\<close>\<close>
  ot_SecuritySchemes :: "security_scheme list" \<comment> \<open>its \<open>securitySchemes\<close>\<close>
  ot_ReadOnlyHint :: bool
  ot_DestructiveHint :: "bool option"
  ot_OpenWorldHint :: "bool option"

definition default_schemes :: "security_scheme list" where
  "default_schemes = [\<lparr>sch_Type = ''oauth2'', sch_Scopes = []\<rparr>]"

definition Tool :: "'h tool_descriptor \<Rightarrow> official_tool" where
  "Tool d =
     (let schemes = (case td_SecuritySchemes d of None \<Rightarrow> default_schemes
                     | Some ss \<Rightarrow> if ss = [] then default_schemes else ss);
          meta = (case td_Meta d of None \<Rightarrow> [] | Some m \<Rightarrow> fold (\<lambda>(k, v) m. gset k v m) m [])
      in \<lparr>ot_Name = td_Name d, ot_Title = td_Title d, ot_Description = td_Description d,
          ot_InputSchema = td_InputSchema d,
          ot_OutputSchema = (if td_OutputSchema d \<noteq> [] \<and> json_parse (td_OutputSchema d) \<noteq> None
            then Some (td_OutputSchema d) else None),
          ot_Meta = gdel ''securitySchemes'' meta, ot_SecuritySchemes = schemes,
          ot_ReadOnlyHint = td_ReadOnly d, ot_DestructiveHint = Some (td_Destructive d),
          ot_OpenWorldHint = Some (td_OpenWorldHint d)\<rparr>)"

section \<open>The text of a result\<close>

definition ok_envelope :: string where
  "ok_envelope = CHR 0x7B # json_quote ''status'' @ '':'' @ json_quote ''ok'' @ [CHR 0x7D]"

definition ok_head :: string where
  "ok_head = CHR 0x7B # json_quote ''status'' @ '':'' @ json_quote ''ok'' @ '',''"

definition value_envelope :: "string \<Rightarrow> string" where
  "value_envelope b = ok_head @ json_quote ''value'' @ '':'' @ b @ [CHR 0x7D]"

text \<open>
  \<open>ResultJSONText\<close>: the argument is what \<open>json.Marshal\<close> made of the result, \<open>None\<close> for the nil
  result or a failure.
\<close>

definition ResultJSONText :: "string option \<Rightarrow> string" where
  "ResultJSONText marshalled =
     (case marshalled of
        None \<Rightarrow> ok_envelope
      | Some b \<Rightarrow>
          if b = ''null'' then ok_envelope
          else if hd b \<noteq> CHR 0x7B then value_envelope b
          else (case json_parse b of
             Some (JObj ms) \<Rightarrow>
               if ''status'' \<in> set (map fst ms) then b
               else if ms = [] then ok_envelope
               else ok_head @ tl b
           | _ \<Rightarrow> value_envelope b))"

text \<open>
  The prologue and epilogue the typed tool handlers share. The argument struct and its decoding
  from an argument map are parameters (\<open>decode\<close> is the encoding and decoding in one, with the
  error's text), as is \<open>json.Marshal\<close> on the result's type; \<open>zero\<close> is the struct's zero value.
\<close>

definition DecodeToolArgs :: "(gdata \<Rightarrow> (string, 'a) result) \<Rightarrow> 'a \<Rightarrow> gdata \<Rightarrow> (string, 'a) result" where
  "DecodeToolArgs decode zero arguments = (if arguments = [] then Inr zero else decode arguments)"

definition DecodeArgsFor ::
  "(gdata \<Rightarrow> (string, 'a) result) \<Rightarrow> 'a \<Rightarrow> string \<Rightarrow> bool \<Rightarrow> gdata \<Rightarrow> (string, 'a) result" where
  "DecodeArgsFor decode zero name configured arguments =
     (if \<not> configured then Inl (name @ '' handler is not configured'') else DecodeToolArgs decode zero arguments)"

definition WrapResult :: "(gval \<Rightarrow> string option) \<Rightarrow> gval \<Rightarrow> string option \<Rightarrow> string \<Rightarrow> (string, 'el tool_result) result" where
  "WrapResult marshal res err text =
     (case err of
        Some e \<Rightarrow> Inl e
      | None \<Rightarrow> Inr \<lparr>tr_error = False, tr_text = ResultJSONText (if res = GNil then None else marshal res),
          tr_content = res, tr_elicitation = None\<rparr>)"

lemma ascii_key: "\<forall>c \<in> set k. code_of c < 128 \<Longrightarrow> parse_string (quote_body k @ CHR 0x22 # r) = Some (k, r)"
  using parse_quote [of k r] to_valid_ascii [of k] by simp

text \<open>An object that opens with the status: the members after it are read as they stand.\<close>

lemma status_head:
  assumes "parse_members n d u = Some (ms, r)"
  shows "parse_members (Suc n) d (json_quote ''status'' @ '':'' @ json_quote ''ok'' @ '','' @ u)
    = (case n of 0 \<Rightarrow> None | Suc k \<Rightarrow> Some ((''status'', JStr ''ok'') # ms, r))"
proof (cases n)
  case 0
  then show ?thesis using assms by (simp add: parse_members.simps)
next
  case (Suc k)
  have v: "parse_value n d (json_quote ''ok'' @ '','' @ u) = Some (JStr ''ok'', '','' @ u)"
    using parse_value_string [of k d "''ok''" "'','' @ u"] to_valid_ascii [of "''ok''"] by (simp add: Suc code_of_def)
  show ?thesis using assms v
    by (simp add: parse_members.simps(2) [of "Suc k"] json_quote_def [of "''status''"] skip_ws_def is_json_space_def
        ascii_key code_of_def Suc)
qed

lemma status_only:
  "parse_members (Suc (Suc n)) d (json_quote ''status'' @ '':'' @ json_quote ''ok'' @ [CHR 0x7D])
    = Some ([(''status'', JStr ''ok'')], [])"
proof -
  have v: "parse_value (Suc n) d (json_quote ''ok'' @ [CHR 0x7D]) = Some (JStr ''ok'', [CHR 0x7D])"
    using parse_value_string [of n d "''ok''" "[CHR 0x7D]"] to_valid_ascii [of "''ok''"] by (simp add: code_of_def)
  then show ?thesis
    by (simp add: parse_members.simps json_quote_def [of "''status''"] skip_ws_def is_json_space_def ascii_key code_of_def)
qed

lemma value_member:
  assumes "parse_value (Suc n) d (b @ [CHR 0x7D]) = Some (v, [CHR 0x7D])"
  shows "parse_members (Suc (Suc n)) d (json_quote ''value'' @ '':'' @ b @ [CHR 0x7D]) = Some ([(''value'', v)], [])"
  using assms
  by (simp add: parse_members.simps json_quote_def skip_ws_def is_json_space_def ascii_key code_of_def)

text \<open>Reading a whole text that starts with a brace.\<close>

lemma json_parse_object:
  assumes "parse_members n (maxNestingDepth - 1) u = Some (ms, [])" and "2 * length u + 1 < n"
    and "take 1 (skip_ws u) \<noteq> [CHR 0x7D]"
  shows "json_parse (CHR 0x7B # u) = Some (JObj ms)"
proof -
  have "parse_value (Suc (n + 2)) maxNestingDepth (CHR 0x7B # u)
      = map_option (\<lambda>(ms, r'). (JObj ms, r')) (parse_members (n + 2) (maxNestingDepth - 1) u)"
    using assms(3) by (simp add: parse_value.simps skip_ws_def is_json_space_def maxNestingDepth_def)
  also have "parse_members (n + 2) (maxNestingDepth - 1) u = Some (ms, [])"
    using parse_steps [of u n "n + 2" "maxNestingDepth - 1"] assms(1,2) by simp
  finally show ?thesis
    using json_parse_steps [of "CHR 0x7B # u" "Suc (n + 2)"] assms(2) by (simp add: skip_ws_def)
qed

lemma quoted_start: "take 1 (skip_ws (json_quote k @ u)) = [CHR 0x22]"
  by (simp add: json_quote_def skip_ws_def is_json_space_def)

lemma envelope_ok: "json_parse ok_envelope = Some (JObj [(''status'', JStr ''ok'')])"
proof -
  have ne: "take 1 (skip_ws (json_quote ''status'' @ '':'' @ json_quote ''ok'' @ [CHR 0x7D])) \<noteq> [CHR 0x7D]"
    unfolding quoted_start by simp
  show ?thesis unfolding ok_envelope_def
    by (rule json_parse_object [OF status_only [of "2 * length (json_quote ''status'' @ '':'' @ json_quote ''ok'' @ [CHR 0x7D])"] _ ne]) simp
qed

lemma envelope_value:
  assumes "\<And>n d. parse_value (Suc n) d (b @ [CHR 0x7D]) = Some (v, [CHR 0x7D])"
  shows "json_parse (value_envelope b) = Some (JObj [(''status'', JStr ''ok''), (''value'', v)])"
proof -
  let ?u = "json_quote ''status'' @ '':'' @ json_quote ''ok'' @ '','' @ json_quote ''value'' @ '':'' @ b @ [CHR 0x7D]"
  have ne: "take 1 (skip_ws ?u) \<noteq> [CHR 0x7D]" unfolding quoted_start by simp
  have m: "parse_members (Suc (Suc (Suc n))) (maxNestingDepth - 1) ?u = Some ([(''status'', JStr ''ok''), (''value'', v)], [])" for n
    using status_head [OF value_member [OF assms], of n "maxNestingDepth - 1"] by simp
  have "json_parse (CHR 0x7B # ?u) = Some (JObj [(''status'', JStr ''ok''), (''value'', v)])"
    by (rule json_parse_object [OF m [of "2 * length ?u"] _ ne]) linarith
  then show ?thesis by (simp add: value_envelope_def ok_head_def)
qed



end
