(* ===== verification/CapsBuilder.thy ===== *)
theory CapsBuilder
  imports Profile Json
begin

text \<open>
  \<open>sdk/capsbuilder.go\<close>: the per-request capability view. Headers and token claims are redacted
  before they reach the detector, the detected profile is overlaid with the client's MCP Apps
  support, projected to the shared profile and stamped for hosted servers. The detector of the
  canimcp library is an argument.
\<close>

definition redactedPlaceholder :: string where "redactedPlaceholder = ''[REDACTED]''"

section \<open>Headers\<close>

definition sensitivePrefixes :: "string list" where "sensitivePrefixes = [''x-forwarded-'']"

definition token_char :: "char \<Rightarrow> bool" where
  "token_char c \<longleftrightarrow>
     (let n = code_of c in (48 \<le> n \<and> n \<le> 57) \<or> (65 \<le> n \<and> n \<le> 90) \<or> (97 \<le> n \<and> n \<le> 122))
     \<or> c \<in> {CHR ''!'', CHR ''#'', CHR ''$'', CHR ''%'', CHR ''&'', CHR 0x27, CHR ''*'', CHR ''+'', CHR ''-'',
            CHR ''.'', CHR ''^'', CHR ''_'', CHR 0x60, CHR ''|'', CHR ''~''}"

definition upper_char :: "char \<Rightarrow> char" where
  "upper_char c = (if 97 \<le> code_of c \<and> code_of c \<le> 122 then char_of (code_of c - 32) else c)"

text \<open>\<open>http.CanonicalHeaderKey\<close>.\<close>

fun canonical_chars :: "bool \<Rightarrow> string \<Rightarrow> string" where
  "canonical_chars up [] = []"
| "canonical_chars up (c # r) = (if up then upper_char c else lower_char c) # canonical_chars (c = CHR ''-'') r"

definition CanonicalHeaderKey :: "string \<Rightarrow> string" where
  "CanonicalHeaderKey s = (if list_all token_char s then canonical_chars True s else s)"

definition isSensitiveHeader :: "string \<Rightarrow> bool" where
  "isSensitiveHeader name \<longleftrightarrow>
     (let canonical = CanonicalHeaderKey name; lower = to_lower name in
      canonical \<in> {''Authorization'', ''Cookie'', ''Proxy-Authorization''}
      \<or> list_ex (has_prefix lower) sensitivePrefixes)"

definition RedactSensitiveHeaders :: "header_map \<Rightarrow> header_map" where
  "RedactSensitiveHeaders h =
     (case h of
        None \<Rightarrow> None
      | Some m \<Rightarrow>
          Some (map (\<lambda>(name, vs). (name, if isSensitiveHeader name then map (\<lambda>v. redactedPlaceholder) vs else vs)) m))"

text \<open>\<open>Header.Get\<close>.\<close>

definition header_get :: "header_map \<Rightarrow> string \<Rightarrow> string" where
  "header_get h key =
     (case h of None \<Rightarrow> []
      | Some m \<Rightarrow> (case gget m (CanonicalHeaderKey key) of Some (v # vs) \<Rightarrow> v | _ \<Rightarrow> []))"

section \<open>Token claims\<close>

definition sensitiveTokenClaimFragments :: "string list" where
  "sensitiveTokenClaimFragments =
     [''token'', ''secret'', ''password'', ''credential'', ''authorization'', ''jwt'', ''api_key'', ''apikey'',
      ''key'', ''signature'', ''signing'', ''cert'', ''hash'']"

fun contains_sub :: "string \<Rightarrow> string \<Rightarrow> bool" where
  "contains_sub [] p = (p = [])"
| "contains_sub (c # r) p = (has_prefix (c # r) p \<or> contains_sub r p)"

definition isSensitiveTokenClaim :: "string \<Rightarrow> bool" where
  "isSensitiveTokenClaim key = list_ex (contains_sub (to_lower key)) sensitiveTokenClaimFragments"

definition isBase64URLRune :: "char \<Rightarrow> bool" where
  "isBase64URLRune c \<longleftrightarrow>
     (let n = code_of c in (65 \<le> n \<and> n \<le> 90) \<or> (97 \<le> n \<and> n \<le> 122) \<or> (48 \<le> n \<and> n \<le> 57))
     \<or> c = CHR ''-'' \<or> c = CHR ''_'' \<or> c = CHR ''=''"

definition looksLikeCredential :: "string \<Rightarrow> bool" where
  "looksLikeCredential s \<longleftrightarrow>
     (if has_prefix s ''-----BEGIN'' then True
      else if length (filter (\<lambda>c. c = CHR ''.'') s) = 2 \<and> 40 < length s
              \<and> list_ex (\<lambda>c. c \<notin> {CHR ''.'', CHR ''_'', CHR ''-''}) s
      then list_all (\<lambda>c. c = CHR ''.'' \<or> isBase64URLRune c) s
      else 64 \<le> length s \<and> list_all isBase64URLRune s)"

text \<open>A value under a claim, by the kinds of container the switch knows; others pass unchanged.\<close>

fun redactClaimValue :: "gval \<Rightarrow> gval"
  and redact_map :: "(string \<times> gval) list \<Rightarrow> (string \<times> gval) list"
  and redact_list :: "gval list \<Rightarrow> gval list"
  and redact_any :: "(gval \<times> gval) list \<Rightarrow> (gval \<times> gval) list" where
  "redactClaimValue (GMap m) = GMap (redact_map m)"
| "redactClaimValue (GList vs) = GList (redact_list vs)"
| "redactClaimValue (GStrMap m) =
     GStrMap (map (\<lambda>(k, s). (k, if isSensitiveTokenClaim k \<or> looksLikeCredential s then redactedPlaceholder else s)) m)"
| "redactClaimValue (GStrs ss) = GStrs (map (\<lambda>s. if looksLikeCredential s then redactedPlaceholder else s) ss)"
| "redactClaimValue (GAnyMap m) = GAnyMap (redact_any m)"
| "redactClaimValue (GStr s) = GStr (if looksLikeCredential s then redactedPlaceholder else s)"
| "redactClaimValue v = v"
| "redact_map [] = []"
| "redact_map ((k, v) # m) =
     (k, if isSensitiveTokenClaim k then GStr redactedPlaceholder else redactClaimValue v) # redact_map m"
| "redact_list [] = []"
| "redact_list (v # vs) = redactClaimValue v # redact_list vs"
| "redact_any [] = []"
| "redact_any ((k, v) # m) =
     (k, if (case k of GStr ks \<Rightarrow> isSensitiveTokenClaim ks | _ \<Rightarrow> False) then GStr redactedPlaceholder
         else redactClaimValue v) # redact_any m"

definition RedactTokenClaims :: "gdata option \<Rightarrow> gdata option" where
  "RedactTokenClaims extra = (case extra of None \<Rightarrow> None | Some m \<Rightarrow> Some (redact_map m))"

section \<open>Client capabilities\<close>

definition UICapabilityID :: string where "UICapabilityID = ''io.modelcontextprotocol/ui''"

text \<open>The object a JSON object decodes to: the last of equal keys wins.\<close>

definition object_map :: "(string \<times> json) list \<Rightarrow> (string, json) gomap" where
  "object_map ms = fold (\<lambda>(k, v) m. gset k v m) ms []"

fun string_elements :: "json list \<Rightarrow> string list option" where
  "string_elements [] = Some []"
| "string_elements (JStr s # vs) = map_option (\<lambda>ss. s # ss) (string_elements vs)"
| "string_elements (JNull # vs) = map_option (\<lambda>ss. [] # ss) (string_elements vs)"
| "string_elements (v # vs) = None"

text \<open>
  Decoding the settings object into the struct with the \<open>mimeTypes\<close> field: its members come in
  the order of their keys, as \<open>json.Marshal\<close> wrote them.
\<close>

fun ui_member :: "string \<times> json \<Rightarrow> string list option \<Rightarrow> string list option" where
  "ui_member (k, v) None = None"
| "ui_member (k, v) (Some acc) =
     (if to_lower k = ''mimetypes'' then
        (case v of JNull \<Rightarrow> Some [] | JArr vs \<Rightarrow> string_elements vs | _ \<Rightarrow> None)
      else Some acc)"

definition string_le :: "string \<Rightarrow> string \<Rightarrow> bool" where
  "string_le s t \<longleftrightarrow> ord_class.lexordp_eq (map code_of s) (map code_of t)"

fun insert_key :: "string \<times> json \<Rightarrow> (string \<times> json) list \<Rightarrow> (string \<times> json) list" where
  "insert_key e [] = [e]"
| "insert_key e (x # xs) = (if string_le (fst e) (fst x) then e # x # xs else x # insert_key e xs)"

definition sort_keys :: "(string \<times> json) list \<Rightarrow> (string \<times> json) list" where
  "sort_keys ms = foldr insert_key ms []"

text \<open>The result is the nil pointer or the list of media types.\<close>

definition GetClientUICapability :: "(string, json) gomap \<Rightarrow> string list option" where
  "GetClientUICapability extensions =
     (case gget extensions UICapabilityID of
        Some (JObj ms) \<Rightarrow> fold ui_member (sort_keys (object_map ms)) (Some [])
      | _ \<Rightarrow> None)"

definition ToJSONMap :: "string option \<Rightarrow> (string, json) gomap option" where
  "ToJSONMap marshalled =
     (case marshalled of
        None \<Rightarrow> None
      | Some s \<Rightarrow> (case json_parse s of Some (JObj ms) \<Rightarrow> Some (object_map ms) | _ \<Rightarrow> None))"

section \<open>The builder\<close>

record caps_options =
  co_CoLocated :: bool
  co_TunnelOpenAI :: bool
  co_Hosted :: bool
  co_DevSnapshot :: bool

text \<open>What the detector is given.\<close>

record evidence =
  ev_ClientInfo :: "client_info option"
  ev_ProtocolVersion :: string
  ev_UserAgent :: string
  ev_Headers :: header_map
  ev_TokenInfo :: "token_info option"
  ev_CoLocated :: bool
  ev_TunnelOpenAI :: bool

text \<open>
  A request as the builder reads it: the client capabilities as their extensions and the text
  they marshal to, and the HTTP header and token of \<open>GetExtra\<close>.
\<close>

record client_caps =
  cc_Extensions :: "(string, json) gomap"
  cc_Marshalled :: "string option"

record call_request =
  rq_ProtocolVersion :: string
  rq_ClientInfo :: "client_info option"
  rq_ClientCaps :: "client_caps option"
  rq_Extra :: "(header_map \<times> token_info option) option"
  rq_InitializeParams :: "string option option" \<comment> \<open>the outer \<open>None\<close>: no session or no parameters\<close>

record request_caps =
  rc_ProtocolVersion :: string
  rc_ClientName :: string
  rc_ClientVersion :: string
  rc_UI :: "string list option"
  rc_Profile :: profile
  rc_Capabilities :: "(string, json) gomap option"
  rc_InitializeParams :: "(string, json) gomap option"

definition rc_SupportsApps :: "request_caps option \<Rightarrow> bool" where
  "rc_SupportsApps c = (case c of None \<Rightarrow> False | Some rc \<Rightarrow> ui_supports_apps (rc_UI rc))"

text \<open>
  A profile of the canimcp library has the fields of the shared one but the hosted flag; it is
  represented by a shared profile whose flag is ignored.
\<close>

definition redact_token :: "token_info \<Rightarrow> token_info" where
  "redact_token t = t\<lparr>ti_Extra := RedactTokenClaims (ti_Extra t)\<rparr>"

definition SharedProfileFromCore :: "profile \<Rightarrow> profile" where
  "SharedProfileFromCore p =
     p\<lparr>pf_Features := fold (\<lambda>(f, ok) m. gset f ok m) (pf_Features p) [], pf_Hosted := False,
       pf_TokenInfo := map_option redact_token (pf_TokenInfo p)\<rparr>"

definition build_evidence :: "caps_options \<Rightarrow> call_request \<Rightarrow> evidence" where
  "build_evidence opts req =
     (let headers = (case rq_Extra req of None \<Rightarrow> None | Some (h, t) \<Rightarrow> RedactSensitiveHeaders h);
          tokenInfo = (case rq_Extra req of None \<Rightarrow> None | Some (h, t) \<Rightarrow> map_option redact_token t)
      in \<lparr>ev_ClientInfo = rq_ClientInfo req, ev_ProtocolVersion = rq_ProtocolVersion req,
          ev_UserAgent = header_get headers ''User-Agent'', ev_Headers = headers, ev_TokenInfo = tokenInfo,
          ev_CoLocated = co_CoLocated opts, ev_TunnelOpenAI = co_TunnelOpenAI opts\<rparr>)"

definition overlay_apps :: "string list option \<Rightarrow> profile \<Rightarrow> profile" where
  "overlay_apps ui p =
     (if ui_supports_apps ui \<and> \<not> pf_has p FeatMCPApps
      then (let q = CloneFeatures p in q\<lparr>pf_Features := gset FeatMCPApps True (pf_Features q)\<rparr>)
      else p)"

definition stamp_hosted :: "caps_options \<Rightarrow> profile \<Rightarrow> profile" where
  "stamp_hosted opts p =
     (if co_Hosted opts then p\<lparr>pf_Hosted := True, pf_Remote := True, pf_Transport := TransportHTTP\<rparr> else p)"

definition NewRequestCapsBuilder ::
  "(evidence \<Rightarrow> profile) \<Rightarrow> caps_options \<Rightarrow> call_request \<Rightarrow> request_caps" where
  "NewRequestCapsBuilder detect opts req =
     (let ui = (case rq_ClientCaps req of None \<Rightarrow> None | Some cc \<Rightarrow> GetClientUICapability (cc_Extensions cc));
          prof = overlay_apps ui (detect (build_evidence opts req))
      in \<lparr>rc_ProtocolVersion = rq_ProtocolVersion req,
          rc_ClientName = (case rq_ClientInfo req of None \<Rightarrow> [] | Some c \<Rightarrow> ci_Name c),
          rc_ClientVersion = (case rq_ClientInfo req of None \<Rightarrow> [] | Some c \<Rightarrow> ci_Version c),
          rc_UI = ui,
          rc_Profile = stamp_hosted opts (SharedProfileFromCore prof),
          rc_Capabilities = (if co_DevSnapshot opts
            then (case rq_ClientCaps req of None \<Rightarrow> None | Some cc \<Rightarrow> ToJSONMap (cc_Marshalled cc)) else None),
          rc_InitializeParams = (if co_DevSnapshot opts
            then (case rq_InitializeParams req of None \<Rightarrow> None | Some ip \<Rightarrow> ToJSONMap ip) else None)\<rparr>)"

section \<open>What is exposed\<close>

text \<open>A value exposes a credential: a credential-like string, or anything real under a sensitive key.\<close>

fun exposes :: "gval \<Rightarrow> bool"
  and exposes_map :: "(string \<times> gval) list \<Rightarrow> bool"
  and exposes_list :: "gval list \<Rightarrow> bool"
  and exposes_any :: "(gval \<times> gval) list \<Rightarrow> bool" where
  "exposes (GMap m) = exposes_map m"
| "exposes (GList vs) = exposes_list vs"
| "exposes (GStrMap m) =
     list_ex (\<lambda>(k, s). (isSensitiveTokenClaim k \<or> looksLikeCredential s) \<and> s \<noteq> redactedPlaceholder) m"
| "exposes (GStrs ss) = list_ex looksLikeCredential ss"
| "exposes (GAnyMap m) = exposes_any m"
| "exposes (GStr s) = looksLikeCredential s"
| "exposes v = False"
| "exposes_map [] = False"
| "exposes_map ((k, v) # m) =
     ((if isSensitiveTokenClaim k then v \<noteq> GStr redactedPlaceholder else exposes v) \<or> exposes_map m)"
| "exposes_list [] = False"
| "exposes_list (v # vs) = (exposes v \<or> exposes_list vs)"
| "exposes_any [] = False"
| "exposes_any ((k, v) # m) =
     ((if (case k of GStr ks \<Rightarrow> isSensitiveTokenClaim ks | _ \<Rightarrow> False) then v \<noteq> GStr redactedPlaceholder
       else exposes v) \<or> exposes_any m)"

lemma placeholder_harmless: "\<not> looksLikeCredential redactedPlaceholder"
  by code_simp

lemma redacted_safe:
  "\<not> exposes (redactClaimValue v)" "\<not> exposes_map (redact_map m)" "\<not> exposes_list (redact_list vs)"
  "\<not> exposes_any (redact_any am)"
proof (induction v and m and vs and am rule: redactClaimValue_redact_map_redact_list_redact_any.induct)
  case (3 m)
  then show ?case by (auto simp: list_ex_iff split: if_splits)
next
  case (4 ss)
  then show ?case by (auto simp: list_ex_iff placeholder_harmless)
next
  case (6 s)
  then show ?case by (simp add: placeholder_harmless)
qed auto

lemma redact_unchanged:
  "\<not> exposes v \<Longrightarrow> redactClaimValue v = v" "\<not> exposes_map m \<Longrightarrow> redact_map m = m"
  "\<not> exposes_list vs \<Longrightarrow> redact_list vs = vs" "\<not> exposes_any am \<Longrightarrow> redact_any am = am"
proof (induction v and m and vs and am rule: redactClaimValue_redact_map_redact_list_redact_any.induct)
  case (3 m)
  then show ?case by (induction m) auto
next
  case (4 ss)
  then show ?case by (induction ss) auto
qed (auto split: if_splits)

lemma redact_map_keys: "map fst (redact_map m) = map fst m"
  by (induction m) auto

definition claims_exposed :: "gdata option \<Rightarrow> bool" where
  "claims_exposed c = (case c of None \<Rightarrow> False | Some m \<Rightarrow> exposes_map m)"

definition headers_exposed :: "header_map \<Rightarrow> bool" where
  "headers_exposed h = (case h of None \<Rightarrow> False
     | Some m \<Rightarrow> list_ex (\<lambda>(name, vs). isSensitiveHeader name \<and> list_ex (\<lambda>v. v \<noteq> redactedPlaceholder) vs) m)"


section \<open>What a request's view carries\<close>

lemma redact_token_safe: "\<not> claims_exposed (ti_Extra (redact_token t))"
  using redacted_safe(2) by (simp add: redact_token_def RedactTokenClaims_def claims_exposed_def split: option.split)

lemma redacted_headers_safe: "\<not> headers_exposed (RedactSensitiveHeaders h)"
  by (auto simp: RedactSensitiveHeaders_def headers_exposed_def list_ex_iff split: option.split)

definition token_exposed :: "token_info option \<Rightarrow> bool" where
  "token_exposed t = (case t of None \<Rightarrow> False | Some ti \<Rightarrow> claims_exposed (ti_Extra ti))"

lemma token_redacted: "\<not> token_exposed (map_option redact_token t)"
  by (cases t) (simp_all add: token_exposed_def redact_token_safe)

lemma shared_has: "gok (pf_Features p) \<Longrightarrow> pf_has (SharedProfileFromCore p) f = pf_has p f"
  using fs_clone_has [of "pf_Features p" f] by (simp add: pf_has_def SharedProfileFromCore_def fs_clone_def)

lemma stamp_has [simp]: "pf_has (stamp_hosted opts p) f = pf_has p f"
  by (simp add: stamp_hosted_def pf_has_def)

text \<open>
  C11. The view of a request, for every detector. The detector sees no value of a sensitive
  header and no exposed claim; whatever it answers, the token claims of the resulting profile
  expose nothing. The profile has the features the detector found, plus MCP Apps exactly when
  the client advertises its media type, and a hosted server is always a remote HTTP one.
\<close>

theorem request_view:
  assumes "gok (pf_Features (detect (build_evidence opts req)))"
    and "view = NewRequestCapsBuilder detect opts req"
  shows "\<not> headers_exposed (ev_Headers (build_evidence opts req))
    \<and> \<not> token_exposed (ev_TokenInfo (build_evidence opts req))
    \<and> \<not> token_exposed (pf_TokenInfo (rc_Profile view))
    \<and> (\<forall>f. pf_has (rc_Profile view) f \<longleftrightarrow>
         pf_has (detect (build_evidence opts req)) f \<or> (f = FeatMCPApps \<and> ui_supports_apps (rc_UI view)))
    \<and> pf_Hosted (rc_Profile view) = co_Hosted opts
    \<and> (co_Hosted opts \<longrightarrow> pf_Transport (rc_Profile view) = TransportHTTP \<and> pf_Remote (rc_Profile view))"
proof -
  let ?ev = "build_evidence opts req"
  let ?ui = "case rq_ClientCaps req of None \<Rightarrow> None | Some cc \<Rightarrow> GetClientUICapability (cc_Extensions cc)"
  let ?p = "overlay_apps ?ui (detect ?ev)"
  have view: "rc_Profile view = stamp_hosted opts (SharedProfileFromCore ?p)" "rc_UI view = ?ui"
    by (simp_all add: assms(2) NewRequestCapsBuilder_def Let_def)
  have clone_ok: "gok (fold (\<lambda>(f, ok) m. gset f ok m) fs m)" if "gok m" for fs and m :: feature_set
    using that by (induction fs arbitrary: m) auto
  have ok: "gok (pf_Features ?p)"
    using assms(1) clone_ok [of "[]"] by (simp add: overlay_apps_def Let_def CloneFeatures_def fs_clone_def)
  have ev: "\<not> headers_exposed (ev_Headers ?ev) \<and> \<not> token_exposed (ev_TokenInfo ?ev)"
  proof (cases "rq_Extra req")
    case None
    then show ?thesis by (simp add: build_evidence_def headers_exposed_def token_exposed_def)
  next
    case (Some x)
    then show ?thesis by (cases x) (simp add: build_evidence_def Let_def redacted_headers_safe token_redacted)
  qed
  have tok: "\<not> token_exposed (pf_TokenInfo (rc_Profile view))"
    using token_redacted by (simp add: view stamp_hosted_def SharedProfileFromCore_def)
  have has: "pf_has (rc_Profile view) f \<longleftrightarrow> pf_has (detect ?ev) f \<or> (f = FeatMCPApps \<and> ui_supports_apps ?ui)" for f
  proof -
    have "pf_has (rc_Profile view) f = pf_has ?p f" by (simp add: view shared_has [OF ok])
    also have "\<dots> \<longleftrightarrow> pf_has (detect ?ev) f \<or> (f = FeatMCPApps \<and> ui_supports_apps ?ui)"
      using fs_clone_has [OF assms(1), of f]
      by (auto simp: overlay_apps_def Let_def pf_has_def CloneFeatures_def fs_has_set)
    finally show ?thesis .
  qed
  have host: "pf_Hosted (rc_Profile view) = co_Hosted opts"
    "co_Hosted opts \<longrightarrow> pf_Transport (rc_Profile view) = TransportHTTP \<and> pf_Remote (rc_Profile view)"
    by (simp_all add: view stamp_hosted_def SharedProfileFromCore_def)
  show ?thesis using ev tok has host view(2) by simp
qed

text \<open>
  The detector of a hosted server is still told of the co-located and tunnel flags: the stamp
  replaces transport and remoteness afterwards, but not the features found for them.
\<close>

theorem hosted_keeps_detector_flags:
  "ev_CoLocated (build_evidence (opts\<lparr>co_Hosted := True\<rparr>) req) = co_CoLocated opts
   \<and> ev_TunnelOpenAI (build_evidence (opts\<lparr>co_Hosted := True\<rparr>) req) = co_TunnelOpenAI opts"
  by (simp add: build_evidence_def Let_def)

section \<open>Witnesses\<close>

definition demo_profile :: profile where
  "demo_profile = \<lparr>pf_HostType = ''generic'', pf_Transport = TransportStdio, pf_AuthMethod = ''none'', pf_Remote = False,
     pf_Features = [(FeatSourcePath, True)], pf_Hosted = False, pf_ClientInfo = None, pf_ProtocolVer = [],
     pf_UserAgent = [], pf_Headers = None, pf_TokenInfo = None\<rparr>"

definition demo_request :: call_request where
  "demo_request = \<lparr>rq_ProtocolVersion = ''2025-06-18'', rq_ClientInfo = None,
     rq_ClientCaps = Some \<lparr>cc_Extensions = [(UICapabilityID, JObj [(''mimeTypes'', JArr [JStr mcpAppsMIMEType])])],
       cc_Marshalled = None\<rparr>,
     rq_Extra = Some (Some [(''Cookie'', [''abc''])], None), rq_InitializeParams = None\<rparr>"

definition demo_caps_options :: caps_options where
  "demo_caps_options = \<lparr>co_CoLocated = False, co_TunnelOpenAI = False, co_Hosted = True, co_DevSnapshot = False\<rparr>"


theorem request_view_witness:
  "\<not> headers_exposed (ev_Headers (build_evidence demo_caps_options demo_request))
   \<and> pf_has (rc_Profile (NewRequestCapsBuilder (\<lambda>ev. demo_profile) demo_caps_options demo_request)) FeatSourcePath"
proof -
  have ok: "gok (pf_Features ((\<lambda>ev. demo_profile) (build_evidence demo_caps_options demo_request)))"
    by (simp add: demo_profile_def)
  have has: "pf_has demo_profile FeatSourcePath" by (simp add: demo_profile_def pf_has_def fs_has_def)
  show ?thesis using request_view [OF ok refl] has by blast
qed

end
