(* ===== verification/Adapter.thy ===== *)
theory Adapter
  imports Catalog CapsBuilder RequestState
begin

text \<open>
  \<open>sdk/handler.go\<close> and \<open>sdk/elicitation.go\<close>: the chain that turns a wire call into a call of a
  host-owned handler and its result back, with the elicitation round trip of
  \<open>model/elicitation.go\<close>. The handler, the capability builder and the annotation hook of the
  hub are arguments; the log hooks are the trace of a call.
\<close>

section \<open>Elicitations\<close>

record elicitation_spec =
  es_ID :: string
  es_Message :: string
  es_FormSchema :: gval
  es_URL :: string
  es_ElicitationID :: string
  es_RequestState :: string

definition FormElicitation :: "string \<Rightarrow> string \<Rightarrow> gval \<Rightarrow> elicitation_spec" where
  "FormElicitation eid message schema =
     \<lparr>es_ID = eid, es_Message = message, es_FormSchema = schema, es_URL = [], es_ElicitationID = [], es_RequestState = []\<rparr>"

record elicit_params =
  ep_Mode :: string
  ep_Message :: string
  ep_URL :: string
  ep_RequestedSchema :: gval

record call_tool_result =
  cr_IsError :: bool
  cr_Content :: "string list"
  cr_Structured :: gval
  cr_InputRequests :: "(string \<times> elicit_params) list"
  cr_RequestState :: string

definition CallToolResultFromElicitation :: "elicitation_spec \<Rightarrow> call_tool_result" where
  "CallToolResultFromElicitation spec =
     (let elicit = \<lparr>ep_Mode = ''form'', ep_Message = es_Message spec, ep_URL = [], ep_RequestedSchema = GNil\<rparr>;
          elicit' = (if es_URL spec \<noteq> [] \<or> es_ElicitationID spec \<noteq> []
            then elicit\<lparr>ep_Mode := ''url'', ep_URL := es_URL spec\<rparr>
            else elicit\<lparr>ep_RequestedSchema := es_FormSchema spec\<rparr>)
      in \<lparr>cr_IsError = False, cr_Content = [], cr_Structured = GNil,
          cr_InputRequests = [(es_ID spec, elicit')], cr_RequestState = es_RequestState spec\<rparr>)"

text \<open>
  A response of the client: its decoding into action and content, \<open>None\<close> when a value of
  another shape does not decode; content \<open>None\<close> is nil.
\<close>

record elicit_result =
  er_Action :: string
  er_Content :: "gdata option"

type_synonym input_responses = "(string, elicit_result option) gomap option"

definition acceptedElicitationValue :: "input_responses \<Rightarrow> string \<Rightarrow> gdata option" where
  "acceptedElicitationValue responses eid =
     (case responses of
        None \<Rightarrow> None
      | Some m \<Rightarrow>
          (case gget m eid of
             Some (Some res) \<Rightarrow> if er_Action res \<noteq> ''accept'' then None else er_Content res
           | _ \<Rightarrow> None))"

definition AcceptedElicitation :: "input_responses \<Rightarrow> string \<Rightarrow> gdata option" where
  "AcceptedElicitation responses eid = acceptedElicitationValue responses eid"

definition AcceptedElicitations :: "input_responses \<Rightarrow> (string, gdata) gomap" where
  "AcceptedElicitations responses =
     (case responses of
        None \<Rightarrow> []
      | Some m \<Rightarrow>
          fold (\<lambda>eid out. case acceptedElicitationValue responses eid of None \<Rightarrow> out | Some c \<Rightarrow> gset eid c out)
            (map fst m) [])"

section \<open>The adapter\<close>

text \<open>Arguments decode with exact numbers; of equal keys the last wins.\<close>

fun gval_of :: "json \<Rightarrow> gval"
  and gvals_of :: "json list \<Rightarrow> gval list"
  and gmembers_of :: "(string \<times> json) list \<Rightarrow> gdata \<Rightarrow> gdata" where
  "gval_of JNull = GNil"
| "gval_of (JBool b) = GBool b"
| "gval_of (JNum l) = GTyped ''json.Number'' l"
| "gval_of (JStr s) = GStr s"
| "gval_of (JArr vs) = GList (gvals_of vs)"
| "gval_of (JObj ms) = GMap (gmembers_of ms [])"
| "gvals_of [] = []"
| "gvals_of (v # vs) = gval_of v # gvals_of vs"
| "gmembers_of [] m = m"
| "gmembers_of ((k, v) # ms) m = gmembers_of ms (gset k (gval_of v) m)"

text \<open>
  \<open>Decoder.Decode\<close> into the argument map: the first value of the input counts; an object fills
  the map, \<open>null\<close> makes it the nil map, anything else is an error.
\<close>

datatype decoded = BadArguments | NilMap | Args gdata

definition decode_arguments :: "string option \<Rightarrow> decoded" where
  "decode_arguments raw =
     (case raw of
        None \<Rightarrow> Args []
      | Some s \<Rightarrow>
          (case parse_value (Suc (2 * length s)) maxNestingDepth s of
             Some (JObj ms, r) \<Rightarrow> Args (gmembers_of ms [])
           | Some (JNull, r) \<Rightarrow> NilMap
           | _ \<Rightarrow> BadArguments))"

text \<open>An assignment to an entry of the nil map panics.\<close>

fun assign :: "string \<Rightarrow> gval \<Rightarrow> decoded option \<Rightarrow> decoded option" where
  "assign k v (Some (Args m)) = Some (Args (gset k v m))"
| "assign k v d = None"

record tool_request =
  tq_Name :: string
  tq_Arguments :: gdata
  tq_InputResponses :: bool
  tq_Caps :: "request_caps option"

record call_params =
  cp_Name :: string
  cp_Arguments :: "string option"
  cp_InputResponses :: input_responses
  cp_RequestState :: string
  cp_Request :: call_request

record handler_deps =
  hd_RequestCaps :: "(call_request \<Rightarrow> request_caps) option"
  hd_ReservedKey :: string
  hd_AnnotateApp :: "(string \<Rightarrow> request_caps option \<Rightarrow> elicitation_spec tool_result \<Rightarrow> elicitation_spec tool_result) option"

type_synonym tool_handler = "tool_request \<Rightarrow> (string, elicitation_spec tool_result) result"

datatype log_event = LogStart string gdata | LogEnd string "(string, elicitation_spec tool_result) result"

datatype adapted = Panics | Responds call_tool_result

definition error_result :: "string \<Rightarrow> call_tool_result" where
  "error_result text =
     \<lparr>cr_IsError = True, cr_Content = [text], cr_Structured = GNil, cr_InputRequests = [], cr_RequestState = []\<rparr>"

definition ToolResult :: "elicitation_spec tool_result \<Rightarrow> call_tool_result" where
  "ToolResult r =
     (case tr_elicitation r of
        Some spec \<Rightarrow> CallToolResultFromElicitation spec
      | None \<Rightarrow> \<lparr>cr_IsError = tr_error r, cr_Content = [tr_text r], cr_Structured = tr_content r,
                  cr_InputRequests = [], cr_RequestState = []\<rparr>)"

text \<open>The argument map the handler gets; \<open>None\<close> when filling it panics.\<close>

definition call_arguments :: "string \<Rightarrow> call_params \<Rightarrow> decoded \<Rightarrow> decoded option" where
  "call_arguments key p d =
     (let d1 = fold (\<lambda>(eid, c) d. assign eid (GMap c) d) (AcceptedElicitations (cp_InputResponses p)) (Some d)
      in if key = [] \<or> cp_RequestState p = [] then d1
         else (case d1 of
            None \<Rightarrow> None
          | Some (Args m) \<Rightarrow> if gget m key = None then assign key (GStr (cp_RequestState p)) d1 else d1
          | Some d2 \<Rightarrow> assign key (GStr (cp_RequestState p)) d1))"

definition args_of :: "decoded \<Rightarrow> gdata" where
  "args_of d = (case d of Args m \<Rightarrow> m | _ \<Rightarrow> [])"

text \<open>
  The text of a decoding error is the decoder's own and is left out. A descriptor without a
  handler is registered all the same: its calls panic after the start was logged.
\<close>

definition AdaptToolHandler :: "handler_deps \<Rightarrow> tool_handler option \<Rightarrow> call_params \<Rightarrow> log_event list \<times> adapted" where
  "AdaptToolHandler deps handler p =
     (case decode_arguments (cp_Arguments p) of
        BadArguments \<Rightarrow> ([], Responds (error_result ''invalid arguments''))
      | d \<Rightarrow>
          (case call_arguments (hd_ReservedKey deps) p d of
             None \<Rightarrow> ([], Panics)
           | Some d' \<Rightarrow>
               let args = args_of d';
                   caps = map_option (\<lambda>f. f (cp_Request p)) (hd_RequestCaps deps)
               in (case handler of
                     None \<Rightarrow> ([LogStart (cp_Name p) args], Panics)
                   | Some h \<Rightarrow>
                       let res = h \<lparr>tq_Name = cp_Name p, tq_Arguments = args,
                             tq_InputResponses = (case cp_InputResponses p of None \<Rightarrow> False | Some m \<Rightarrow> m \<noteq> []),
                             tq_Caps = caps\<rparr>;
                           log = [LogStart (cp_Name p) args, LogEnd (cp_Name p) res]
                       in (case res of
                             Inl e \<Rightarrow> (log, Responds (error_result e))
                           | Inr r \<Rightarrow>
                               let r' = (case hd_AnnotateApp deps of None \<Rightarrow> r | Some f \<Rightarrow> f (cp_Name p) caps r)
                               in (log, Responds (ToolResult r'))))))"

text \<open>\<open>Server.AddTool\<close> replaces the tool of the same name.\<close>

type_synonym tool_server = "(string, official_tool \<times> (call_params \<Rightarrow> log_event list \<times> adapted)) gomap"

definition RegisterTool ::
  "tool_server option \<Rightarrow> handler_deps \<Rightarrow> tool_handler tool_descriptor \<Rightarrow> (string, tool_server) result" where
  "RegisterTool srv deps desc =
     (case srv of
        None \<Rightarrow> Inl ''nil server''
      | Some tools \<Rightarrow> Inr (gset (td_Name desc) (Tool desc, AdaptToolHandler deps (td_Handler desc)) tools))"

section \<open>The arguments of a call\<close>

lemma accepted_get: "gget (AcceptedElicitations r) k = acceptedElicitationValue r k"
proof (cases r)
  case None
  then show ?thesis by (simp add: AcceptedElicitations_def acceptedElicitationValue_def)
next
  case (Some m)
  define step where "step = (\<lambda>eid out. case acceptedElicitationValue r eid of None \<Rightarrow> out | Some c \<Rightarrow> gset eid c out)"
  have fold: "gget (fold step ks out) k = (if k \<in> set ks \<and> acceptedElicitationValue r k \<noteq> None
      then acceptedElicitationValue r k else gget out k)" for ks and out :: "(string, gdata) gomap"
    by (induction ks arbitrary: out) (auto simp: step_def split: option.splits)
  have none: "acceptedElicitationValue r k = None" if "k \<notin> set (map fst m)"
  proof -
    have "gget m k = None" using that by (simp add: gget_None)
    then show ?thesis by (simp add: acceptedElicitationValue_def Some)
  qed
  have "AcceptedElicitations r = fold step (map fst m) []"
    by (simp add: AcceptedElicitations_def Some step_def)
  then show ?thesis using fold [of "map fst m" "[]"] none by (auto simp del: set_map)
qed

lemma accepted_ok: "gok (AcceptedElicitations r)"
proof -
  have fold: "gok out \<Longrightarrow> gok (fold (\<lambda>eid out. case acceptedElicitationValue r eid of None \<Rightarrow> out
      | Some c \<Rightarrow> gset eid c out) ks out)" for ks and out :: "(string, gdata) gomap"
    by (induction ks arbitrary: out) (auto split: option.splits)
  show ?thesis using fold [of "[]"] by (cases r) (simp_all add: AcceptedElicitations_def)
qed

lemma assign_all:
  "gok xs \<Longrightarrow> \<exists>m'. fold (\<lambda>(eid, c) d. assign eid (GMap c) d) xs (Some (Args m)) = Some (Args m')
     \<and> (\<forall>k. gget m' k = (case gget xs k of Some c \<Rightarrow> Some (GMap c) | None \<Rightarrow> gget m k))"
proof (induction xs arbitrary: m)
  case Nil
  then show ?case by simp
next
  case (Cons x xs)
  obtain eid c where x: "x = (eid, c)" by (cases x)
  have ok: "gok xs" and new: "eid \<notin> gkeys xs" using Cons.prems by (simp_all add: x)
  then have "gget xs eid = None" by (simp add: gget_None)
  moreover obtain m' where "fold (\<lambda>(eid, c) d. assign eid (GMap c) d) xs (Some (Args (gset eid (GMap c) m))) = Some (Args m')"
    and "\<And>k. gget m' k = (case gget xs k of Some c \<Rightarrow> Some (GMap c) | None \<Rightarrow> gget (gset eid (GMap c) m) k)"
    using Cons.IH [OF ok, of "gset eid (GMap c) m"] by blast
  ultimately show ?case by (intro exI [of _ m']) (auto simp: x split: option.split)
qed

lemma assign_nil: "fold (\<lambda>(eid, c) d. assign eid (GMap c) d) xs (Some NilMap) = (if xs = [] then Some NilMap else None)"
proof -
  have none: "fold (\<lambda>(eid, c) d. assign eid (GMap c) d) ys None = None" for ys by (induction ys) auto
  show ?thesis using none by (cases xs) auto
qed

text \<open>What the handler finds under each name.\<close>

lemma call_arguments_get:
  "\<exists>m'. call_arguments key p (Args m) = Some (Args m')
     \<and> (\<forall>k. gget m' k = (case acceptedElicitationValue (cp_InputResponses p) k of
          Some c \<Rightarrow> Some (GMap c)
        | None \<Rightarrow> if gget m k = None \<and> k = key \<and> key \<noteq> [] \<and> cp_RequestState p \<noteq> []
            then Some (GStr (cp_RequestState p)) else gget m k))"
proof -
  let ?xs = "AcceptedElicitations (cp_InputResponses p)"
  obtain m1 where m1: "fold (\<lambda>(eid, c) d. assign eid (GMap c) d) ?xs (Some (Args m)) = Some (Args m1)"
    and get: "\<And>k. gget m1 k = (case acceptedElicitationValue (cp_InputResponses p) k of Some c \<Rightarrow> Some (GMap c)
      | None \<Rightarrow> gget m k)"
    using assign_all [OF accepted_ok [of "cp_InputResponses p"], of m] by (auto simp: accepted_get)
  show ?thesis
  proof (cases "key = [] \<or> cp_RequestState p = [] \<or> gget m1 key \<noteq> None")
    case True
    then have "call_arguments key p (Args m) = Some (Args m1)" by (auto simp: call_arguments_def m1 Let_def)
    then show ?thesis using True get by (auto split: option.splits)
  next
    case False
    then have "call_arguments key p (Args m) = Some (Args (gset key (GStr (cp_RequestState p)) m1))"
      by (simp add: call_arguments_def m1 Let_def)
    then show ?thesis using False get by (auto split: option.splits)
  qed
qed

lemma call_arguments_nil:
  "call_arguments key p NilMap =
     (if AcceptedElicitations (cp_InputResponses p) = [] \<and> (key = [] \<or> cp_RequestState p = [])
      then Some NilMap else None)"
  by (simp add: call_arguments_def assign_nil Let_def)

definition request_for :: "handler_deps \<Rightarrow> call_params \<Rightarrow> gdata \<Rightarrow> tool_request" where
  "request_for deps p args =
     \<lparr>tq_Name = cp_Name p, tq_Arguments = args,
      tq_InputResponses = (case cp_InputResponses p of None \<Rightarrow> False | Some m \<Rightarrow> m \<noteq> []),
      tq_Caps = map_option (\<lambda>f. f (cp_Request p)) (hd_RequestCaps deps)\<rparr>"

definition annotated :: "handler_deps \<Rightarrow> call_params \<Rightarrow> elicitation_spec tool_result \<Rightarrow> elicitation_spec tool_result" where
  "annotated deps p r =
     (case hd_AnnotateApp deps of
        None \<Rightarrow> r
      | Some f \<Rightarrow> f (cp_Name p) (map_option (\<lambda>f. f (cp_Request p)) (hd_RequestCaps deps)) r)"

lemma adapt_runs:
  assumes "decode_arguments (cp_Arguments p) = d" and "d \<noteq> BadArguments"
    and "call_arguments (hd_ReservedKey deps) p d = Some d'"
  shows "AdaptToolHandler deps (Some h) p =
     ([LogStart (cp_Name p) (args_of d'), LogEnd (cp_Name p) (h (request_for deps p (args_of d')))],
      Responds (case h (request_for deps p (args_of d')) of
          Inl e \<Rightarrow> error_result e
        | Inr r \<Rightarrow> ToolResult (annotated deps p r)))"
  using assms by (cases d) (simp_all add: AdaptToolHandler_def request_for_def annotated_def Let_def split: sum.split)

lemma adapt_unhandled:
  assumes "decode_arguments (cp_Arguments p) = d" and "d \<noteq> BadArguments"
    and "call_arguments (hd_ReservedKey deps) p d = Some d'"
  shows "AdaptToolHandler deps None p = ([LogStart (cp_Name p) (args_of d')], Panics)"
  using assms by (cases d) (simp_all add: AdaptToolHandler_def Let_def)

lemma adapt_panics:
  assumes "decode_arguments (cp_Arguments p) = d" and "d \<noteq> BadArguments"
    and "call_arguments (hd_ReservedKey deps) p d = None"
  shows "AdaptToolHandler deps handler p = ([], Panics)"
  using assms by (cases d) (simp_all add: AdaptToolHandler_def)

section \<open>The outcome of a call\<close>

text \<open>
  C37. The outcome of every call. Undecodable arguments are an error result and nothing runs.
  A decoded argument map reaches the handler exactly once, between the two log hooks: each name
  maps to the accepted form under it, else to the argument of the call, and the reserved key
  falls back to the echoed request state. An error of the handler becomes an error result,
  never a protocol error. Arguments that are \<open>null\<close> panic when an accepted form or an
  echoed state has to be filled in, and the handler then does not run.
\<close>

theorem adapter_outcome:
  "case decode_arguments (cp_Arguments p) of
     BadArguments \<Rightarrow> AdaptToolHandler deps handler p = ([], Responds (error_result ''invalid arguments''))
   | NilMap \<Rightarrow>
       (if AcceptedElicitations (cp_InputResponses p) = [] \<and> (hd_ReservedKey deps = [] \<or> cp_RequestState p = [])
        then fst (AdaptToolHandler deps handler p) \<noteq> [] \<and> (snd (AdaptToolHandler deps handler p) = Panics \<longleftrightarrow> handler = None)
        else AdaptToolHandler deps handler p = ([], Panics))
   | Args m \<Rightarrow>
       (\<exists>args. (\<forall>k. gget args k =
            (case acceptedElicitationValue (cp_InputResponses p) k of
               Some c \<Rightarrow> Some (GMap c)
             | None \<Rightarrow> if gget m k = None \<and> k = hd_ReservedKey deps \<and> k \<noteq> [] \<and> cp_RequestState p \<noteq> []
                 then Some (GStr (cp_RequestState p)) else gget m k))
        \<and> AdaptToolHandler deps handler p =
            (case handler of
               None \<Rightarrow> ([LogStart (cp_Name p) args], Panics)
             | Some h \<Rightarrow>
                 ([LogStart (cp_Name p) args, LogEnd (cp_Name p) (h (request_for deps p args))],
                  Responds (case h (request_for deps p args) of
                      Inl e \<Rightarrow> error_result e
                    | Inr r \<Rightarrow> ToolResult (annotated deps p r)))))"
proof (cases "decode_arguments (cp_Arguments p)")
  case BadArguments
  then show ?thesis by (simp add: AdaptToolHandler_def)
next
  case NilMap
  note d = NilMap decoded.distinct(2) [symmetric]
  show ?thesis
  proof (cases "AcceptedElicitations (cp_InputResponses p) = [] \<and> (hd_ReservedKey deps = [] \<or> cp_RequestState p = [])")
    case True
    then have "call_arguments (hd_ReservedKey deps) p NilMap = Some NilMap" by (simp add: call_arguments_nil)
    then show ?thesis using True NilMap adapt_runs [of p NilMap] adapt_unhandled [of p NilMap]
      by (cases handler) auto
  next
    case False
    then have "call_arguments (hd_ReservedKey deps) p NilMap = None" by (simp add: call_arguments_nil)
    then have "AdaptToolHandler deps handler p = ([], Panics)" using adapt_panics [of p NilMap] NilMap by auto
    then show ?thesis using False NilMap by simp
  qed
next
  case (Args m)
  obtain m' where m': "call_arguments (hd_ReservedKey deps) p (Args m) = Some (Args m')"
    and get: "\<forall>k. gget m' k = (case acceptedElicitationValue (cp_InputResponses p) k of
          Some c \<Rightarrow> Some (GMap c)
        | None \<Rightarrow> if gget m k = None \<and> k = hd_ReservedKey deps \<and> hd_ReservedKey deps \<noteq> [] \<and> cp_RequestState p \<noteq> []
            then Some (GStr (cp_RequestState p)) else gget m k)"
    using call_arguments_get [of "hd_ReservedKey deps" p m] by blast
  have "AdaptToolHandler deps handler p =
      (case handler of
         None \<Rightarrow> ([LogStart (cp_Name p) m'], Panics)
       | Some h \<Rightarrow>
           ([LogStart (cp_Name p) m', LogEnd (cp_Name p) (h (request_for deps p m'))],
            Responds (case h (request_for deps p m') of Inl e \<Rightarrow> error_result e | Inr r \<Rightarrow> ToolResult (annotated deps p r))))"
    using adapt_runs [OF Args _ m'] adapt_unhandled [OF Args _ m'] by (cases handler) (simp_all add: args_of_def)
  moreover have "\<forall>k. gget m' k = (case acceptedElicitationValue (cp_InputResponses p) k of
          Some c \<Rightarrow> Some (GMap c)
        | None \<Rightarrow> if gget m k = None \<and> k = hd_ReservedKey deps \<and> k \<noteq> [] \<and> cp_RequestState p \<noteq> []
            then Some (GStr (cp_RequestState p)) else gget m k)"
    using get by (auto split: option.splits)
  ultimately show ?thesis unfolding Args decoded.case by blast
qed


section \<open>Witnesses\<close>

definition demo_deps :: handler_deps where
  "demo_deps = \<lparr>hd_RequestCaps = None, hd_ReservedKey = ''state'', hd_AnnotateApp = None\<rparr>"

definition demo_spec :: elicitation_spec where
  "demo_spec = (FormElicitation ''pin'' ''Enter the pin'' GNil)\<lparr>es_RequestState := mintRequestState demo_hmac ''k'' ''abc'' 0\<rparr>"

definition demo_asks :: "elicitation_spec tool_result" where
  "demo_asks = \<lparr>tr_error = False, tr_text = [], tr_content = GNil, tr_elicitation = Some demo_spec\<rparr>"

definition demo_retry :: call_params where
  "demo_retry = \<lparr>cp_Name = ''ask'', cp_Arguments = None,
     cp_InputResponses = Some [(''pin'', Some \<lparr>er_Action = ''accept'', er_Content = Some [(''code'', GStr ''7'')]\<rparr>)],
     cp_RequestState = mintRequestState demo_hmac ''k'' ''abc'' 0, cp_Request = demo_request\<rparr>"


end
