(* ===== verification/AppsRegistry.thy ===== *)
theory AppsRegistry
  imports Adapter
begin

text \<open>
  \<open>sdk/apps_registry.go\<close> with the metadata types of \<open>model/app_meta.go\<close>: app tools, app
  resources and the registry of app resources per server. The resources a server of the SDK
  holds are a map from URIs; adding replaces by URI. What an origin resolver answers depends on
  the moment of the read, an argument of the read handler. URIs the SDK itself rejects (it
  panics) are outside the model.
\<close>

section \<open>Metadata\<close>

definition MCPAppsMIMEType :: string where "MCPAppsMIMEType = ''text/html;profile=mcp-app''"
definition MCPAppsResourceURIMetaKey :: string where "MCPAppsResourceURIMetaKey = ''ui/resourceUri''"
definition OpenAIMetaOutputTemplateKey :: string where "OpenAIMetaOutputTemplateKey = ''openai.outputTemplate''"

lemmas meta_key_defs = MCPAppsResourceURIMetaKey_def OpenAIMetaOutputTemplateKey_def

definition ToolVisibilityModel :: string where "ToolVisibilityModel = ''model''"
definition ToolVisibilityApp :: string where "ToolVisibilityApp = ''app''"

record app_tool_meta =
  atm_ResourceURI :: string
  atm_Visibility :: "string list"

record app_csp =
  csp_ConnectDomains :: "string list"
  csp_ResourceDomains :: "string list"
  csp_FrameDomains :: "string list"

record app_resource_meta =
  am_CSP :: "app_csp option"
  am_Domain :: string
  am_WidgetDescription :: string
  am_PrefersBorder :: "bool option"

definition zero_meta :: app_resource_meta where
  "zero_meta = \<lparr>am_CSP = None, am_Domain = [], am_WidgetDescription = [], am_PrefersBorder = None\<rparr>"

text \<open>Strings that went through \<open>json.Marshal\<close> and back; an empty field with \<open>omitempty\<close> is absent.\<close>

definition json_strings :: "string list \<Rightarrow> gval" where
  "json_strings ss = GList (map (\<lambda>s. GStr (to_valid s)) ss)"

definition omit :: "bool \<Rightarrow> string \<Rightarrow> gval \<Rightarrow> gdata" where
  "omit absent k v = (if absent then [] else [(k, v)])"

definition csp_json :: "app_csp \<Rightarrow> gdata" where
  "csp_json c =
     omit (csp_ConnectDomains c = []) ''connectDomains'' (json_strings (csp_ConnectDomains c))
     @ omit (csp_ResourceDomains c = []) ''resourceDomains'' (json_strings (csp_ResourceDomains c))
     @ omit (csp_FrameDomains c = []) ''frameDomains'' (json_strings (csp_FrameDomains c))"

definition meta_json :: "app_resource_meta \<Rightarrow> gdata" where
  "meta_json m =
     (case am_CSP m of None \<Rightarrow> [] | Some c \<Rightarrow> [(''csp'', GMap (csp_json c))])
     @ omit (am_Domain m = []) ''domain'' (GStr (to_valid (am_Domain m)))
     @ omit (am_WidgetDescription m = []) ''widgetDescription'' (GStr (to_valid (am_WidgetDescription m)))
     @ (case am_PrefersBorder m of None \<Rightarrow> [] | Some b \<Rightarrow> [(''prefersBorder'', GBool b)])"

definition appResourceWidgetAliases :: "app_resource_meta \<Rightarrow> gdata" where
  "appResourceWidgetAliases m =
     omit (am_Domain m = []) ''openai/widgetDomain'' (GStr (am_Domain m))
     @ omit (am_WidgetDescription m = []) ''openai/widgetDescription'' (GStr (am_WidgetDescription m))"

definition appResourceUIMeta :: "app_resource_meta \<Rightarrow> gdata" where
  "appResourceUIMeta m =
     (if m = zero_meta then []
      else fold (\<lambda>(k, v) out. gset k v out) (appResourceWidgetAliases m) [(''ui'', GMap (meta_json m))])"

definition cloneAppResourceCSP :: "app_csp option \<Rightarrow> app_csp" where
  "cloneAppResourceCSP csp =
     (case csp of
        None \<Rightarrow> \<lparr>csp_ConnectDomains = [], csp_ResourceDomains = [], csp_FrameDomains = []\<rparr>
      | Some c \<Rightarrow> c)"

text \<open>A copy through JSON; the keys of these maps are plain ASCII and stay as they are.\<close>

fun json_copy :: "gval \<Rightarrow> gval"
  and json_copies :: "gval list \<Rightarrow> gval list"
  and json_copy_map :: "gdata \<Rightarrow> gdata" where
  "json_copy (GStr s) = GStr (to_valid s)"
| "json_copy (GList vs) = GList (json_copies vs)"
| "json_copy (GMap m) = GMap (json_copy_map m)"
| "json_copy v = v"
| "json_copies [] = []"
| "json_copies (v # vs) = json_copy v # json_copies vs"
| "json_copy_map [] = []"
| "json_copy_map ((k, v) # m) = (k, json_copy v) # json_copy_map m"

definition cloneMeta :: "gdata \<Rightarrow> gdata option" where
  "cloneMeta m = (if m = [] then None else Some (json_copy_map m))"

definition MarshalToolMeta :: "app_tool_meta \<Rightarrow> (string, gdata) result" where
  "MarshalToolMeta meta =
     (if atm_ResourceURI meta = [] then Inl ''app tool requires a ui:// resourceUri''
      else Inr [(''ui'', GMap ((''resourceUri'', GStr (to_valid (atm_ResourceURI meta)))
            # omit (atm_Visibility meta = []) ''visibility'' (json_strings (atm_Visibility meta)))),
          (MCPAppsResourceURIMetaKey, GStr (atm_ResourceURI meta)),
          (OpenAIMetaOutputTemplateKey, GStr (atm_ResourceURI meta))])"

text \<open>\<open>for k, v := range attached { meta[k] = v }\<close>, with a fresh map for a nil one.\<close>

definition extend_meta :: "gdata \<Rightarrow> gdata option \<Rightarrow> gdata option" where
  "extend_meta attached meta = Some (fold (\<lambda>(k, v) m. gset k v m) attached (case meta of None \<Rightarrow> [] | Some m \<Rightarrow> m))"

section \<open>App tools\<close>

text \<open>
  The installed registrar is an argument, \<open>None\<close> when none is installed; \<open>'r\<close> is the state it
  registers in. The descriptor's metadata map is extended in place: the map handed to the
  registrar is the caller's own when the caller has one.
\<close>

type_synonym ('srv, 'r) registrar = "'srv \<Rightarrow> tool_handler tool_descriptor \<Rightarrow> 'r \<Rightarrow> (string, unit) result \<times> 'r"

text \<open>The variable that holds the registrar: set for good, read as it is.\<close>

definition SetToolRegistrar ::
  "('srv, 'r) registrar option \<Rightarrow> ('srv, 'r) registrar option \<Rightarrow> ('srv, 'r) registrar option" where
  "SetToolRegistrar f old = f"

definition GetToolRegistrar :: "('srv, 'r) registrar option \<Rightarrow> ('srv, 'r) registrar option" where
  "GetToolRegistrar installed = installed"

definition getToolRegistrar :: "('srv, 'r) registrar option \<Rightarrow> ('srv, 'r) registrar" where
  "getToolRegistrar f =
     (case f of
        None \<Rightarrow> (\<lambda>srv desc st.
          (Inl ''sdk: tool registrar not installed; call sdk.SetToolRegistrar before RegisterAppTool'', st))
      | Some g \<Rightarrow> g)"

definition RegisterAppTool ::
  "('srv, 'r) registrar option \<Rightarrow> 'srv option \<Rightarrow> tool_handler tool_descriptor \<Rightarrow> app_tool_meta \<Rightarrow> 'r \<Rightarrow>
   (string, unit) result \<times> 'r" where
  "RegisterAppTool f srv desc meta st =
     (case srv of
        None \<Rightarrow> (Inl ''nil official server'', st)
      | Some s \<Rightarrow>
          (case MarshalToolMeta meta of
             Inl e \<Rightarrow> (Inl e, st)
           | Inr attached \<Rightarrow> getToolRegistrar f s (desc\<lparr>td_Meta := extend_meta attached (td_Meta desc)\<rparr>) st))"

section \<open>App resources\<close>

record 'w app_resource =
  ar_URI :: string
  ar_Name :: string
  ar_Title :: string
  ar_Description :: string
  ar_Meta :: app_resource_meta
  ar_ConnectDomainsFunc :: "('w \<Rightarrow> string list) option"
  ar_HTML :: string

text \<open>A resource as the SDK lists it, and the content item a read answers with.\<close>

record listed_resource =
  lr_URI :: string
  lr_Name :: string
  lr_Title :: string
  lr_Description :: string
  lr_MIMEType :: string
  lr_Meta :: "gdata option"

record content_item =
  it_URI :: string
  it_MIMEType :: string
  it_Text :: string
  it_Meta :: "gdata option"

type_synonym 'w read_handler = "'w \<Rightarrow> (string, content_item) result"

type_synonym 'w sdk_resources = "(string, listed_resource \<times> 'w read_handler) gomap"

definition AddResource :: "listed_resource \<Rightarrow> 'w read_handler \<Rightarrow> 'w sdk_resources \<Rightarrow> 'w sdk_resources" where
  "AddResource r h m = gset (lr_URI r) (r, h) m"

record 'w app_reg =
  rg_meta :: app_resource_meta
  rg_handler :: "'w read_handler"
  rg_resource :: listed_resource

record ('srv, 'w) apps_state =
  as_regs :: "('srv, (string, 'w app_reg) gomap) gomap"
  as_servers :: "'srv \<Rightarrow> 'w sdk_resources"

definition app_read_handler :: "'w app_resource \<Rightarrow> 'w read_handler" where
  "app_read_handler res w =
     (let meta = (case ar_ConnectDomainsFunc res of
            None \<Rightarrow> ar_Meta res
          | Some f \<Rightarrow> (ar_Meta res)\<lparr>am_CSP := Some ((cloneAppResourceCSP (am_CSP (ar_Meta res)))\<lparr>csp_ConnectDomains := f w\<rparr>)\<rparr>)
      in Inr \<lparr>it_URI = ar_URI res, it_MIMEType = MCPAppsMIMEType, it_Text = ar_HTML res,
              it_Meta = cloneMeta (appResourceUIMeta meta)\<rparr>)"

definition app_listed :: "'w app_resource \<Rightarrow> listed_resource" where
  "app_listed res =
     \<lparr>lr_URI = ar_URI res, lr_Name = ar_Name res, lr_Title = ar_Title res, lr_Description = ar_Description res,
      lr_MIMEType = MCPAppsMIMEType, lr_Meta = Some (appResourceUIMeta (ar_Meta res))\<rparr>"

text \<open>The map of a server, made when it is absent.\<close>

definition serverAppResources :: "'srv \<Rightarrow> ('srv, (string, 'w app_reg) gomap) gomap \<Rightarrow>
    (string, 'w app_reg) gomap \<times> ('srv, (string, 'w app_reg) gomap) gomap" where
  "serverAppResources s regs =
     (case gget regs s of
        None \<Rightarrow> ([], gset s [] regs)
      | Some m \<Rightarrow> (m, regs))"

definition put_reg :: "'srv \<Rightarrow> string \<Rightarrow> 'w app_reg \<Rightarrow> ('srv, 'w) apps_state \<Rightarrow> ('srv, 'w) apps_state" where
  "put_reg s uri reg st =
     (case serverAppResources s (as_regs st) of (m, regs) \<Rightarrow> st\<lparr>as_regs := gset s (gset uri reg m) regs\<rparr>)"

definition publish :: "'srv \<Rightarrow> listed_resource \<Rightarrow> 'w read_handler \<Rightarrow> ('srv, 'w) apps_state \<Rightarrow> ('srv, 'w) apps_state" where
  "publish s r h st = st\<lparr>as_servers := (as_servers st)(s := AddResource r h (as_servers st s))\<rparr>"

definition RegisterAppResource :: "'srv option \<Rightarrow> 'w app_resource \<Rightarrow> ('srv, 'w) apps_state \<Rightarrow>
    (string, unit) result \<times> ('srv, 'w) apps_state" where
  "RegisterAppResource srv res st =
     (case srv of
        None \<Rightarrow> (Inl ''nil official server'', st)
      | Some s \<Rightarrow>
          if ar_URI res = [] then (Inl ''app resource requires a uri'', st)
          else (Inr (), publish s (app_listed res) (app_read_handler res)
            (put_reg s (ar_URI res)
               \<lparr>rg_meta = ar_Meta res, rg_handler = app_read_handler res, rg_resource = app_listed res\<rparr> st)))"

text \<open>
  \<open>SetAppResourceConnectDomains\<close> in its two halves: the change of the registry under the lock,
  which yields what is published afterwards, and the publication.
\<close>

definition with_origins :: "string list \<Rightarrow> app_resource_meta \<Rightarrow> app_resource_meta" where
  "with_origins origins m = m\<lparr>am_CSP := Some ((cloneAppResourceCSP (am_CSP m))\<lparr>csp_ConnectDomains := origins\<rparr>)\<rparr>"

definition set_domains_locked :: "'srv \<Rightarrow> string \<Rightarrow> string list \<Rightarrow> ('srv, 'w) apps_state \<Rightarrow>
    (string, 'w app_reg) result \<times> ('srv, 'w) apps_state" where
  "set_domains_locked s uri origins st =
     (case serverAppResources s (as_regs st) of (m, regs) \<Rightarrow>
        (case gget m uri of
           None \<Rightarrow> (Inl (''sdk: no registered app resource '' @ uri), st\<lparr>as_regs := regs\<rparr>)
         | Some reg \<Rightarrow>
             let meta = with_origins origins (rg_meta reg);
                 reg' = \<lparr>rg_meta = meta, rg_handler = rg_handler reg,
                   rg_resource = (rg_resource reg)\<lparr>lr_Meta := Some (appResourceUIMeta meta)\<rparr>\<rparr>
             in (Inr reg', put_reg s uri reg' st)))"

definition SetAppResourceConnectDomains :: "'srv option \<Rightarrow> string \<Rightarrow> string list \<Rightarrow> ('srv, 'w) apps_state \<Rightarrow>
    (string, unit) result \<times> ('srv, 'w) apps_state" where
  "SetAppResourceConnectDomains srv uri origins st =
     (case srv of
        None \<Rightarrow> (Inl ''nil official server'', st)
      | Some s \<Rightarrow>
          (case set_domains_locked s uri origins st of
             (Inl e, st') \<Rightarrow> (Inl e, st')
           | (Inr reg, st') \<Rightarrow> (Inr (), publish s (rg_resource reg) (rg_handler reg) st')))"

definition UnregisterAppResource :: "'srv option \<Rightarrow> string \<Rightarrow> ('srv, 'w) apps_state \<Rightarrow>
    (string, unit) result \<times> ('srv, 'w) apps_state" where
  "UnregisterAppResource srv uri st =
     (case srv of
        None \<Rightarrow> (Inl ''nil official server'', st)
      | Some s \<Rightarrow>
          (case gget (as_regs st) s of
             None \<Rightarrow> (Inr (), st)
           | Some m \<Rightarrow>
               let m' = gdel uri m;
                   regs = (if gget m uri = None then as_regs st
                     else if m' = [] then gdel s (as_regs st) else gset s m' (as_regs st))
               in (Inr (), st\<lparr>as_regs := regs,
                     as_servers := (as_servers st)(s := gdel uri (as_servers st s))\<rparr>)))"

section \<open>What the registry promises\<close>

text \<open>
  The abstract registry: per server and URI the registered resource and the origins that were
  last baked into its listing, if any. It determines what a server lists under the URI and how
  it answers a read.
\<close>

type_synonym ('srv, 'w) app_listing = "'srv \<Rightarrow> string \<Rightarrow> ('w app_resource \<times> string list option) option"

fun spec_meta :: "'w app_resource \<times> string list option \<Rightarrow> app_resource_meta" where
  "spec_meta (res, None) = ar_Meta res"
| "spec_meta (res, Some origins) = with_origins origins (ar_Meta res)"

definition spec_listed :: "'w app_resource \<times> string list option \<Rightarrow> listed_resource" where
  "spec_listed e = (app_listed (fst e))\<lparr>lr_Meta := Some (appResourceUIMeta (spec_meta e))\<rparr>"

definition spec_set :: "'srv \<Rightarrow> string \<Rightarrow> ('w app_resource \<times> string list option) option \<Rightarrow>
    ('srv, 'w) app_listing \<Rightarrow> ('srv, 'w) app_listing" where
  "spec_set s u e A = A(s := (A s)(u := e))"

datatype ('srv, 'w) apps_op =
    OpRegister "'srv option" "'w app_resource"
  | OpOrigins "'srv option" string "string list"
  | OpUnregister "'srv option" string

fun apps_do :: "('srv, 'w) apps_op \<Rightarrow> ('srv, 'w) apps_state \<Rightarrow> (string, unit) result \<times> ('srv, 'w) apps_state" where
  "apps_do (OpRegister srv res) st = RegisterAppResource srv res st"
| "apps_do (OpOrigins srv uri origins) st = SetAppResourceConnectDomains srv uri origins st"
| "apps_do (OpUnregister srv uri) st = UnregisterAppResource srv uri st"

fun spec_do :: "('srv, 'w) apps_op \<Rightarrow> ('srv, 'w) app_listing \<Rightarrow> (string, unit) result \<times> ('srv, 'w) app_listing" where
  "spec_do (OpRegister None res) A = (Inl ''nil official server'', A)"
| "spec_do (OpOrigins None uri origins) A = (Inl ''nil official server'', A)"
| "spec_do (OpUnregister None uri) A = (Inl ''nil official server'', A)"
| "spec_do (OpRegister (Some s) res) A =
     (if ar_URI res = [] then (Inl ''app resource requires a uri'', A)
      else (Inr (), spec_set s (ar_URI res) (Some (res, None)) A))"
| "spec_do (OpOrigins (Some s) uri origins) A =
     (case A s uri of
        None \<Rightarrow> (Inl (''sdk: no registered app resource '' @ uri), A)
      | Some (res, old) \<Rightarrow> (Inr (), spec_set s uri (Some (res, Some origins)) A))"
| "spec_do (OpUnregister (Some s) uri) A = (Inr (), spec_set s uri None A)"

fun apps_run :: "('srv, 'w) apps_op list \<Rightarrow> ('srv, 'w) apps_state \<Rightarrow> (string, unit) result list \<times> ('srv, 'w) apps_state" where
  "apps_run [] st = ([], st)"
| "apps_run (op # ops) st =
     (let (r, st1) = apps_do op st; (rs, st2) = apps_run ops st1 in (r # rs, st2))"

fun spec_run :: "('srv, 'w) apps_op list \<Rightarrow> ('srv, 'w) app_listing \<Rightarrow> (string, unit) result list \<times> ('srv, 'w) app_listing" where
  "spec_run [] A = ([], A)"
| "spec_run (op # ops) A =
     (let (r, A1) = spec_do op A; (rs, A2) = spec_run ops A1 in (r # rs, A2))"

text \<open>
  The state implements an abstract registry beside the plain resources \<open>P\<close> of the servers: it
  retains exactly the registered app resources, and every server lists and serves exactly them
  and the plain ones.
\<close>

definition retained :: "('srv, 'w) apps_state \<Rightarrow> 'srv \<Rightarrow> string \<Rightarrow> 'w app_reg option" where
  "retained st s u = (case gget (as_regs st) s of None \<Rightarrow> None | Some m \<Rightarrow> gget m u)"

definition spec_reg :: "'w app_resource \<times> string list option \<Rightarrow> 'w app_reg" where
  "spec_reg e = \<lparr>rg_meta = spec_meta e, rg_handler = app_read_handler (fst e), rg_resource = spec_listed e\<rparr>"

definition implements ::
  "('srv \<Rightarrow> 'w sdk_resources) \<Rightarrow> ('srv, 'w) apps_state \<Rightarrow> ('srv, 'w) app_listing \<Rightarrow> bool" where
  "implements P st A \<longleftrightarrow>
     (\<forall>s u. retained st s u = map_option spec_reg (A s u))
     \<and> (\<forall>s u. gget (as_servers st s) u =
          (case A s u of Some e \<Rightarrow> Some (spec_listed e, app_read_handler (fst e)) | None \<Rightarrow> gget (P s) u))
     \<and> (\<forall>s u e. A s u = Some e \<longrightarrow> ar_URI (fst e) = u)"

text \<open>An operation stays clear of the plain resources.\<close>

fun clear_of :: "('srv \<Rightarrow> 'w sdk_resources) \<Rightarrow> ('srv, 'w) apps_op \<Rightarrow> bool" where
  "clear_of P (OpRegister (Some s) res) = (gget (P s) (ar_URI res) = None)"
| "clear_of P (OpUnregister (Some s) uri) = (gget (P s) uri = None)"
| "clear_of P op = True"

lemma with_origins_again: "with_origins os' (with_origins os m) = with_origins os' m"
  by (simp add: with_origins_def cloneAppResourceCSP_def)

lemma with_origins_spec: "with_origins os (spec_meta (res, old)) = spec_meta (res, Some os)"
  by (cases old) (simp_all add: with_origins_again)

lemma spec_listed_new: "spec_listed (res, None) = app_listed res"
  by (simp add: spec_listed_def app_listed_def)

lemma spec_listed_uri: "lr_URI (spec_listed e) = ar_URI (fst e)"
  by (simp add: spec_listed_def app_listed_def)

lemma retained_put: "retained (put_reg s u reg st) s' u' = (if s' = s \<and> u' = u then Some reg else retained st s' u')"
  by (auto simp: retained_def put_reg_def serverAppResources_def split: option.split)

lemma servers_put [simp]: "as_servers (put_reg s u reg st) = as_servers st"
  by (simp add: put_reg_def split: prod.split)

lemma retained_publish [simp]: "retained (publish s r h st) = retained st"
  by (simp add: retained_def publish_def fun_eq_iff)

lemma servers_publish:
  "gget (as_servers (publish s r h st) s') u = (if s' = s \<and> u = lr_URI r then Some (r, h) else gget (as_servers st s') u)"
  by (simp add: publish_def AddResource_def)

lemma implements_put:
  assumes "implements P st A" and "ar_URI (fst e) = u"
  shows "implements P (publish s (spec_listed e) (app_read_handler (fst e)) (put_reg s u (spec_reg e) st))
    (spec_set s u (Some e) A)"
  using assms by (auto simp: implements_def retained_put servers_publish spec_set_def spec_listed_uri)

lemma sim_register:
  assumes "implements P st A"
  shows "fst (RegisterAppResource (Some s) res st) = fst (spec_do (OpRegister (Some s) res) A)
    \<and> implements P (snd (RegisterAppResource (Some s) res st)) (snd (spec_do (OpRegister (Some s) res) A))"
  using assms implements_put [OF assms, of "(res, None)" "ar_URI res" s]
  by (simp add: RegisterAppResource_def spec_reg_def spec_listed_new)

lemma sim_origins:
  assumes "implements P st A"
  shows "fst (SetAppResourceConnectDomains (Some s) uri os st) = fst (spec_do (OpOrigins (Some s) uri os) A)
    \<and> implements P (snd (SetAppResourceConnectDomains (Some s) uri os st)) (snd (spec_do (OpOrigins (Some s) uri os) A))"
proof (cases "A s uri")
  case None
  let ?st = "st\<lparr>as_regs := snd (serverAppResources s (as_regs st))\<rparr>"
  have none: "gget (fst (serverAppResources s (as_regs st))) uri = None"
    using assms None by (auto simp: implements_def retained_def serverAppResources_def split: option.splits)
  have "retained ?st = retained st"
    by (auto simp: retained_def serverAppResources_def fun_eq_iff split: option.split)
  moreover have "as_servers ?st = as_servers st" by simp
  ultimately have "implements P ?st A" using assms by (simp add: implements_def)
  moreover have "set_domains_locked s uri os st = (Inl (''sdk: no registered app resource '' @ uri), ?st)"
    using none by (simp add: set_domains_locked_def case_prod_beta)
  ultimately show ?thesis using None by (simp add: SetAppResourceConnectDomains_def)
next
  case (Some e)
  obtain res old where e: "e = (res, old)" by (cases e)
  have uri: "ar_URI res = uri" using assms Some unfolding implements_def e by (metis fst_conv)
  have "retained st s uri = Some (spec_reg e)" using assms Some by (simp add: implements_def)
  then have get: "gget (fst (serverAppResources s (as_regs st))) uri = Some (spec_reg e)"
    by (auto simp: retained_def serverAppResources_def split: option.splits)
  have listed: "(spec_listed e)\<lparr>lr_Meta := Some (appResourceUIMeta (spec_meta (res, Some os)))\<rparr> = spec_listed (res, Some os)"
    by (simp add: spec_listed_def e)
  have "set_domains_locked s uri os st = (Inr (spec_reg (res, Some os)), put_reg s uri (spec_reg (res, Some os)) st)"
    using get listed
    by (simp add: set_domains_locked_def spec_reg_def e with_origins_spec Let_def case_prod_beta)
  then show ?thesis using Some implements_put [OF assms, of "(res, Some os)" uri s] uri
    by (simp add: SetAppResourceConnectDomains_def e spec_reg_def)
qed

lemma sim_unregister:
  assumes "implements P st A" and "gget (P s) uri = None"
  shows "fst (UnregisterAppResource (Some s) uri st) = fst (spec_do (OpUnregister (Some s) uri) A)
    \<and> implements P (snd (UnregisterAppResource (Some s) uri st)) (snd (spec_do (OpUnregister (Some s) uri) A))"
proof (cases "gget (as_regs st) s")
  case None
  then have "retained st s uri = None" by (simp add: retained_def)
  then have "A s uri = None" using assms(1) by (simp add: implements_def)
  then have "spec_set s uri None A = A" by (auto simp: spec_set_def fun_eq_iff)
  then show ?thesis using None assms(1) by (simp add: UnregisterAppResource_def)
next
  case (Some m)
  let ?st = "snd (UnregisterAppResource (Some s) uri st)"
  have "retained ?st s' u = (if s' = s \<and> u = uri then None else retained st s' u)" for s' u
  proof (cases "gdel uri m = []")
    case True
    have "gget m u = None" if "u \<noteq> uri"
      using gget_gdel [of uri m u] True that by simp
    then show ?thesis using Some True by (cases "u = uri") (auto simp: UnregisterAppResource_def retained_def Let_def)
  next
    case False
    then show ?thesis using Some by (auto simp: UnregisterAppResource_def retained_def Let_def)
  qed
  moreover have "gget (as_servers ?st s') u = (if s' = s \<and> u = uri then None else gget (as_servers st s') u)" for s' u
    using Some by (simp add: UnregisterAppResource_def Let_def)
  ultimately have "implements P ?st (spec_set s uri None A)"
    using assms by (auto simp: implements_def spec_set_def)
  then show ?thesis using Some by (simp add: UnregisterAppResource_def Let_def)
qed

lemma sim_nil:
  "RegisterAppResource None res st = (Inl ''nil official server'', st)"
  "SetAppResourceConnectDomains None uri os st = (Inl ''nil official server'', st)"
  "UnregisterAppResource None uri st = (Inl ''nil official server'', st)"
  by (simp_all add: RegisterAppResource_def SetAppResourceConnectDomains_def UnregisterAppResource_def)

lemma sim_step:
  assumes "implements P st A" and "clear_of P op"
  shows "fst (apps_do op st) = fst (spec_do op A) \<and> implements P (snd (apps_do op st)) (snd (spec_do op A))"
proof (cases op)
  case (OpRegister srv res)
  then show ?thesis using assms sim_register [OF assms(1)] by (cases srv) (simp_all add: sim_nil)
next
  case (OpOrigins srv uri os)
  then show ?thesis using assms sim_origins [OF assms(1)] by (cases srv) (simp_all add: sim_nil)
next
  case (OpUnregister srv uri)
  then show ?thesis using assms sim_unregister [OF assms(1)] by (cases srv) (simp_all add: sim_nil)
qed

text \<open>
  C3. The registry of app resources refines the abstract one. For every sequence of
  registrations, origin updates and removals, on any servers (nil ones included) that holds
  no plain resource under the URIs concerned, every call answers as the abstract operation
  does, and afterwards each server lists exactly the registered app resources beside its plain
  ones, each with its static metadata and the origins set last, and serves the document with
  the origins current at the read.
\<close>

theorem apps_registry_refines:
  assumes "implements P st A" and "\<forall>op \<in> set ops. clear_of P op"
  shows "fst (apps_run ops st) = fst (spec_run ops A)
    \<and> implements P (snd (apps_run ops st)) (snd (spec_run ops A))"
  using assms
proof (induction ops arbitrary: st A)
  case Nil
  then show ?case by simp
next
  case (Cons op ops)
  have step: "fst (apps_do op st) = fst (spec_do op A)"
    "implements P (snd (apps_do op st)) (snd (spec_do op A))"
    using sim_step [OF Cons.prems(1)] Cons.prems(2) by simp_all
  show ?case using Cons.IH [OF step(2)] Cons.prems(2) step(1)
    by (simp add: Let_def case_prod_beta)
qed

section \<open>Where the registry departs from its documentation\<close>

definition no_apps :: "('srv, 'w) apps_state" where
  "no_apps = \<lparr>as_regs = [], as_servers = (\<lambda>s. [])\<rparr>"

text \<open>
  An update for a server that never registered anything fails and still leaves an entry for the
  server, which no removal takes away.
\<close>

theorem failed_update_retains_server:
  "snd (UnregisterAppResource (Some s) uri' (snd (SetAppResourceConnectDomains (Some s) uri origins no_apps)))
     = no_apps\<lparr>as_regs := [(s, [])]\<rparr>"
  by (simp add: SetAppResourceConnectDomains_def set_domains_locked_def serverAppResources_def no_apps_def
      UnregisterAppResource_def Let_def fun_upd_idem_iff)

text \<open>
  Removing the URI of a plain resource, which was never registered as an app resource, takes
  the plain resource away once the server has an app resource of any other URI.
\<close>

theorem unregister_drops_plain_resource:
  assumes "as_regs st = [(s, [(uri', reg)])]" and "uri \<noteq> uri'"
  shows "gget (as_servers (snd (UnregisterAppResource (Some s) uri st)) s) uri = None
    \<and> as_regs (snd (UnregisterAppResource (Some s) uri st)) = as_regs st"
  using assms by (simp add: UnregisterAppResource_def Let_def)

text \<open>
  Two updates at once: the publications may come in the other order than the changes of the
  registry, and then the listing keeps the origins of the earlier change.
\<close>

theorem concurrent_updates_disagree:
  assumes "set_domains_locked s uri os1 st = (Inr r1, st1)" and "set_domains_locked s uri os2 st1 = (Inr r2, st2)"
    and "lr_URI (rg_resource r1) = uri" and "lr_URI (rg_resource r2) = uri"
    and "st3 = publish s (rg_resource r1) (rg_handler r1) (publish s (rg_resource r2) (rg_handler r2) st2)"
  shows "retained st3 s uri = Some r2 \<and> gget (as_servers st3 s) uri = Some (rg_resource r1, rg_handler r1)"
proof -
  have "retained st2 s uri = Some r2"
    using assms(2) by (auto simp: set_domains_locked_def Let_def retained_put split: prod.splits option.splits)
  then show ?thesis by (simp add: assms(3-5) servers_publish)
qed

section \<open>Witnesses\<close>

definition demo_app :: "unit app_resource" where
  "demo_app = \<lparr>ar_URI = ''ui://a'', ar_Name = ''a'', ar_Title = [], ar_Description = [],
     ar_Meta = zero_meta\<lparr>am_Domain := ''https://a''\<rparr>, ar_ConnectDomainsFunc = None, ar_HTML = ''x''\<rparr>"

definition demo_apps_ops :: "(nat, unit) apps_op list" where
  "demo_apps_ops = [OpRegister (Some 1) demo_app, OpOrigins (Some 1) ''ui://a'' [''https://b''], OpOrigins (Some 2) ''ui://a'' []]"

theorem apps_registry_refines_witness:
  "fst (apps_run demo_apps_ops no_apps) = [Inr (), Inr (), Inl ''sdk: no registered app resource ui://a'']
   \<and> gget (as_servers (snd (apps_run demo_apps_ops no_apps)) 1) ''ui://a''
       = Some (spec_listed (demo_app, Some [''https://b'']), app_read_handler demo_app)"
proof -
  have start: "implements (\<lambda>s. []) no_apps (\<lambda>s u. None)"
    by (simp add: implements_def no_apps_def retained_def)
  have "clear_of (\<lambda>s. []) op" for op :: "(nat, unit) apps_op"
    by (cases "(\<lambda>s :: nat. [] :: unit sdk_resources, op)" rule: clear_of.cases) simp_all
  then have "\<forall>op \<in> set demo_apps_ops. clear_of (\<lambda>s. []) op" by simp
  note run = apps_registry_refines [OF start this]
  have spec: "fst (spec_run demo_apps_ops (\<lambda>s u. None)) = [Inr (), Inr (), Inl ''sdk: no registered app resource ui://a'']"
    "snd (spec_run demo_apps_ops (\<lambda>s u. None)) 1 ''ui://a'' = Some (demo_app, Some [''https://b''])"
    by (simp_all add: demo_apps_ops_def demo_app_def spec_set_def)
  show ?thesis using run spec by (simp add: implements_def)
qed

end
