(* ===== verification/AppViews.thy ===== *)
theory AppViews
  imports AppsRegistry
begin

text \<open>
  \<open>apps/apps_lib.go\<close>: declaring an MCP App, which wires the helper tools, the resource, the
  metadata of the attached catalog tools and the association of tools with views;
  \<open>apps/open_launcher.go\<close>: the launcher tool of a view; \<open>forgeutil/forgeutil.go\<close>: the conversion
  of presentation targets; \<open>sdk/caps.go\<close>: the advertised capability. A catalog is a map from
  names to entries, \<open>None\<close> when nil; \<open>w\<close> is the moment at which a resolver is asked.
\<close>

section \<open>Views and the registry\<close>

record 'w app_view =
  av_URI :: string
  av_Name :: string
  av_Title :: string
  av_Description :: string
  av_HTML :: string
  av_Domain :: string
  av_PrefersBorder :: bool
  av_ConnectDomainsFunc :: "('w \<Rightarrow> string list) option"
  av_AttachTo :: "string list"
  av_Helpers :: "tool_handler tool_descriptor list"

record app_view_info =
  vi_URI :: string
  vi_Name :: string
  vi_Title :: string

record 'w app_registry =
  ag_appViewsByTool :: "(string, app_view_info) gomap"
  ag_viewDomainResolver :: "('w \<Rightarrow> string) option"

definition NewAppRegistry :: "'w app_registry" where
  "NewAppRegistry = \<lparr>ag_appViewsByTool = [], ag_viewDomainResolver = None\<rparr>"

definition SetViewDomainResolver :: "('w \<Rightarrow> string) option \<Rightarrow> 'w app_registry \<Rightarrow> 'w app_registry" where
  "SetViewDomainResolver f r = r\<lparr>ag_viewDomainResolver := f\<rparr>"

definition ViewDomainResolver :: "'w app_registry \<Rightarrow> ('w \<Rightarrow> string) option" where
  "ViewDomainResolver r = ag_viewDomainResolver r"

definition viewDomain :: "'w \<Rightarrow> string \<Rightarrow> 'w app_registry \<Rightarrow> string" where
  "viewDomain w override r =
     (if override \<noteq> [] then override
      else (case ag_viewDomainResolver r of None \<Rightarrow> [] | Some f \<Rightarrow> f w))"

definition AppInfoForTool :: "'w app_registry \<Rightarrow> string \<Rightarrow> app_view_info option" where
  "AppInfoForTool r toolName = gget (ag_appViewsByTool r) toolName"

definition SetAppViewInfo :: "string \<Rightarrow> app_view_info \<Rightarrow> 'w app_registry \<Rightarrow> 'w app_registry" where
  "SetAppViewInfo toolName info r = r\<lparr>ag_appViewsByTool := gset toolName info (ag_appViewsByTool r)\<rparr>"

definition DeleteAppViewInfo :: "string \<Rightarrow> 'w app_registry \<Rightarrow> 'w app_registry" where
  "DeleteAppViewInfo toolName r = r\<lparr>ag_appViewsByTool := gdel toolName (ag_appViewsByTool r)\<rparr>"

type_synonym app_catalog = "(string, tool_handler tool_entry) gomap"

text \<open>The pointer is never nil: \<open>new(v)\<close> makes one for false, too.\<close>

definition borderFlag :: "bool \<Rightarrow> bool option" where
  "borderFlag v = Some v"

definition AttachAppMeta :: "app_catalog \<Rightarrow> string \<Rightarrow> string \<Rightarrow> (string, unit) result \<times> app_catalog" where
  "AttachAppMeta catalog toolName resourceURI =
     (case gget catalog toolName of
        None \<Rightarrow> (Inl (''mcp: app view tool '' @ toolName @ '' not in catalog''), catalog)
      | Some entry \<Rightarrow>
          (case MarshalToolMeta \<lparr>atm_ResourceURI = resourceURI, atm_Visibility = []\<rparr> of
             Inl e \<Rightarrow> (Inl e, catalog)
           | Inr meta \<Rightarrow> (Inr (), gset toolName (entry\<lparr>te_Meta := extend_meta meta (te_Meta entry)\<rparr>) catalog)))"

section \<open>Registering a view\<close>

record ('srv, 'w, 'r) app_world =
  aw_registry :: "'w app_registry"
  aw_catalog :: "app_catalog option"
  aw_apps :: "('srv, 'w) apps_state"
  aw_tools :: 'r

text \<open>Helpers are registered in order, up to the first failure.\<close>

fun register_helpers ::
  "('srv, 'r) registrar option \<Rightarrow> 'srv option \<Rightarrow> string \<Rightarrow> tool_handler tool_descriptor list \<Rightarrow> 'r \<Rightarrow>
   (string, unit) result \<times> 'r" where
  "register_helpers f srv uri [] st = (Inr (), st)"
| "register_helpers f srv uri (h # hs) st =
     (case RegisterAppTool f srv h \<lparr>atm_ResourceURI = uri, atm_Visibility = [ToolVisibilityApp]\<rparr> st of
        (Inl e, st') \<Rightarrow> (Inl e, st')
      | (Inr u, st') \<Rightarrow> register_helpers f srv uri hs st')"

definition view_resource :: "'w \<Rightarrow> 'w app_registry \<Rightarrow> 'w app_view \<Rightarrow> 'w app_resource" where
  "view_resource w r v =
     \<lparr>ar_URI = av_URI v, ar_Name = av_Name v, ar_Title = av_Title v, ar_Description = av_Description v,
      ar_Meta = \<lparr>am_CSP = None, am_Domain = viewDomain w (av_Domain v) r, am_WidgetDescription = av_Description v,
        am_PrefersBorder = borderFlag (av_PrefersBorder v)\<rparr>,
      ar_ConnectDomainsFunc = av_ConnectDomainsFunc v, ar_HTML = av_HTML v\<rparr>"

definition view_info :: "'w app_view \<Rightarrow> app_view_info" where
  "view_info v = \<lparr>vi_URI = av_URI v, vi_Name = av_Name v, vi_Title = av_Title v\<rparr>"

fun attach_tools :: "string \<Rightarrow> app_view_info \<Rightarrow> string list \<Rightarrow> app_catalog \<Rightarrow> 'w app_registry \<Rightarrow>
    (string, unit) result \<times> app_catalog \<times> 'w app_registry" where
  "attach_tools uri info [] catalog r = (Inr (), catalog, r)"
| "attach_tools uri info (t # ts) catalog r =
     (case AttachAppMeta catalog t uri of
        (Inl e, catalog') \<Rightarrow> (Inl e, catalog', r)
      | (Inr u, catalog') \<Rightarrow> attach_tools uri info ts catalog' (SetAppViewInfo t info r))"

definition view_error :: "'srv option \<Rightarrow> app_catalog option \<Rightarrow> 'w app_view \<Rightarrow> string option" where
  "view_error srv catalog v =
     (if srv = None then Some ''mcp: nil official server''
      else (case catalog of
         None \<Rightarrow> Some ''mcp: nil tool catalog''
       | Some cat \<Rightarrow>
           if av_URI v = [] then Some ''mcp: app view requires a uri''
           else if av_Name v = [] then Some (''mcp: app view '' @ av_URI v @ '' requires a name'')
           else if av_HTML v = [] then Some (''mcp: app view '' @ av_URI v @ '' requires html'')
           else map_option (\<lambda>t. ''mcp: app view tool '' @ t @ '' not in catalog'')
             (List.find (\<lambda>t. gget cat t = None) (av_AttachTo v))))"

definition RegisterAppView ::
  "('srv, 'r) registrar option \<Rightarrow> 'w \<Rightarrow> 'srv option \<Rightarrow> 'w app_view \<Rightarrow> ('srv, 'w, 'r) app_world \<Rightarrow>
   (string, unit) result \<times> ('srv, 'w, 'r) app_world" where
  "RegisterAppView f w srv v st =
     (case view_error srv (aw_catalog st) v of
        Some e \<Rightarrow> (Inl e, st)
      | None \<Rightarrow>
          (case register_helpers f srv (av_URI v) (av_Helpers v) (aw_tools st) of
             (Inl e, tools) \<Rightarrow> (Inl e, st\<lparr>aw_tools := tools\<rparr>)
           | (Inr u, tools) \<Rightarrow>
               (case RegisterAppResource srv (view_resource w (aw_registry st) v) (aw_apps st) of
                  (Inl e, apps) \<Rightarrow> (Inl e, st\<lparr>aw_tools := tools, aw_apps := apps\<rparr>)
                | (Inr u, apps) \<Rightarrow>
                    (case attach_tools (av_URI v) (view_info v) (av_AttachTo v) (the (aw_catalog st)) (aw_registry st) of
                       (res, catalog, r) \<Rightarrow>
                         (res, st\<lparr>aw_registry := r, aw_catalog := Some catalog, aw_apps := apps, aw_tools := tools\<rparr>)))))"

section \<open>The launcher of a view\<close>

text \<open>
  Targets of the mcpforge library carry the fields of the shared ones; a carrier wraps a
  profile. \<open>fallback_target\<close> is the library's \<open>FallbackTarget\<close>.
\<close>

record profile_carrier =
  pc_Profile :: profile

record forge_target =
  ft_Require :: "feature_set option"
  ft_Visible :: bool
  ft_Description :: string
  ft_InputSchema :: string
  ft_OutputSchema :: string
  ft_Meta :: "gdata option"
  ft_SecuritySchemes :: "security_scheme list option"
  ft_SensitiveFlags :: "string list"
  ft_DescFunc :: "(profile_carrier \<Rightarrow> string) option"

definition copy_features :: "feature_set \<Rightarrow> feature_set" where
  "copy_features fs = fold (\<lambda>(f, on) m. gset f on m) fs []"

definition FeaturesFromModel :: "feature_set \<Rightarrow> feature_set" where
  "FeaturesFromModel fs = copy_features fs"

definition carrier_FeatureSet :: "profile_carrier \<Rightarrow> feature_set" where
  "carrier_FeatureSet c = FeaturesFromModel (pf_Features (pc_Profile c))"

definition requireFromForge :: "feature_set option \<Rightarrow> feature_set option" where
  "requireFromForge fs = map_option copy_features fs"

definition schemesFromForge :: "security_scheme list option \<Rightarrow> security_scheme list option" where
  "schemesFromForge ss = map_option (map (\<lambda>s. \<lparr>sch_Type = sch_Type s, sch_Scopes = sch_Scopes s\<rparr>)) ss"

definition targetFromForge :: "forge_target \<Rightarrow> tool_target" where
  "targetFromForge t =
     \<lparr>tt_Require = requireFromForge (ft_Require t), tt_Visible = ft_Visible t, tt_Description = ft_Description t,
      tt_InputSchema = ft_InputSchema t, tt_OutputSchema = ft_OutputSchema t, tt_Meta = ft_Meta t,
      tt_SecuritySchemes = schemesFromForge (ft_SecuritySchemes t), tt_SensitiveFlags = ft_SensitiveFlags t,
      tt_DescFunc = map_option (\<lambda>desc p. desc \<lparr>pc_Profile = p\<rparr>) (ft_DescFunc t)\<rparr>"

definition Targets :: "forge_target list option \<Rightarrow> tool_target list option" where
  "Targets ts = map_option (map targetFromForge) ts"

definition Fallback :: "(string \<Rightarrow> forge_target) \<Rightarrow> string \<Rightarrow> tool_target list option" where
  "Fallback fallback_target desc = Targets (Some [fallback_target desc])"

record open_launcher_spec =
  ol_Name :: string
  ol_Title :: string
  ol_Description :: string
  ol_Category :: string
  ol_ResourceURI :: string
  ol_InputSchema :: "string option"

definition launcher_suffix :: string where
  "launcher_suffix = '' open_app (the consolidated launcher) is the unified entry point on hosts where it is visible; this per-app launcher is also discoverable via search_tools.''"

definition launcher_handler :: "(gval \<Rightarrow> string option) \<Rightarrow> string \<Rightarrow> tool_handler" where
  "launcher_handler marshal uri rq =
     (let sc = fold (\<lambda>(k, v) m. gset k v m) (tq_Arguments rq) [(''view'', GStr uri)]
      in Inr \<lparr>tr_error = False, tr_text = ResultJSONText (marshal (GMap sc)) @ '' The app view is open.'',
              tr_content = GMap sc, tr_elicitation = None\<rparr>)"

definition NewOpenLauncherDescriptor ::
  "(gval \<Rightarrow> string option) \<Rightarrow> (string \<Rightarrow> forge_target) \<Rightarrow> open_launcher_spec \<Rightarrow>
   (string, tool_handler tool_descriptor) result" where
  "NewOpenLauncherDescriptor marshal fallback_target spec =
     (case MarshalToolMeta \<lparr>atm_ResourceURI = ol_ResourceURI spec, atm_Visibility = [ToolVisibilityModel, ToolVisibilityApp]\<rparr> of
        Inl e \<Rightarrow> Inl e
      | Inr meta \<Rightarrow>
          let desc = (if ol_Description spec = [] then ''Open the '' @ ol_Title spec @ '' app view.'' else ol_Description spec)
                @ launcher_suffix
          in Inr \<lparr>td_Name = ol_Name spec, td_Title = ol_Title spec, td_Description = desc, td_Category = ol_Category spec,
               td_ReadOnly = False, td_Destructive = False, td_OpenWorldHint = False, td_DirectVisible = False,
               td_InputSchema = (case ol_InputSchema spec of
                   None \<Rightarrow> CHR 0x7B # json_quote ''type'' @ '':'' @ json_quote ''object'' @ '','' @ json_quote ''properties''
                     @ [CHR '':'', CHR 0x7B, CHR 0x7D, CHR 0x7D]
                 | Some s \<Rightarrow> s),
               td_OutputSchema = [], td_Meta = Some meta, td_SecuritySchemes = None, td_SensitiveFlags = [],
               td_MCPTargets = Fallback fallback_target desc,
               td_Handler = Some (launcher_handler marshal (ol_ResourceURI spec))\<rparr>)"

section \<open>The advertised capability\<close>

text \<open>The extensions of the server's capabilities; \<open>None\<close> is the nil pointer.\<close>

definition AdvertiseUICapability :: "(string, json) gomap option \<Rightarrow> (string, json) gomap option" where
  "AdvertiseUICapability caps =
     map_option (gset UICapabilityID (JObj [(''mimeTypes'', JArr [JStr MCPAppsMIMEType])])) caps"

record official_options =
  oo_Instructions :: string
  oo_Extensions :: "(string, json) gomap option"

definition ImplementationVersion :: string where "ImplementationVersion = ''0.0.0-dev''"

definition Implementation :: "string \<times> string" where
  "Implementation = (''pinner'', ImplementationVersion)"

text \<open>The options are the instructions, \<open>None\<close> for the nil pointer.\<close>

definition serverOptions :: "string option \<Rightarrow> official_options" where
  "serverOptions opts =
     \<lparr>oo_Instructions = (case opts of None \<Rightarrow> [] | Some i \<Rightarrow> i), oo_Extensions = AdvertiseUICapability (Some [])\<rparr>"

lemma advertised_supports_apps:
  "AdvertiseUICapability (Some ext) = Some ext' \<Longrightarrow> ui_supports_apps (GetClientUICapability ext')"
  by (auto simp: AdvertiseUICapability_def GetClientUICapability_def object_map_def sort_keys_def to_lower_def
      lower_char_def code_of_def char_of_def bit_0 mcpAppsMIMEType_def MCPAppsMIMEType_def)

section \<open>What registering a view does\<close>

text \<open>
  An entry with attached metadata: only the metadata differ, the attached keys have the attached
  values and every other key keeps its own.
\<close>

definition attached_to :: "gdata \<Rightarrow> tool_handler tool_entry \<Rightarrow> tool_handler tool_entry \<Rightarrow> bool" where
  "attached_to meta e e' \<longleftrightarrow>
     (\<exists>m. e' = e\<lparr>te_Meta := Some m\<rparr>
        \<and> (\<forall>k. gget m k = (case gget meta k of
             Some v \<Rightarrow> Some v
           | None \<Rightarrow> (case te_Meta e of None \<Rightarrow> None | Some old \<Rightarrow> gget old k))))"

lemma gset_all_get:
  "gok xs \<Longrightarrow> gget (fold (\<lambda>(k, v) m. gset k v m) xs m) k = (case gget xs k of Some v \<Rightarrow> Some v | None \<Rightarrow> gget m k)"
proof (induction xs arbitrary: m)
  case Nil
  then show ?case by simp
next
  case (Cons x xs)
  obtain k' v where x: "x = (k', v)" by (cases x)
  have ok: "gok xs" and "gget xs k' = None" using Cons.prems by (simp_all add: x gget_None)
  then show ?case using Cons.IH [OF ok, of "gset k' v m"] by (auto simp: x split: option.split)
qed

lemma attach_once: "gok meta \<Longrightarrow> attached_to meta e (e\<lparr>te_Meta := extend_meta meta (te_Meta e)\<rparr>)"
  by (auto simp: attached_to_def extend_meta_def gset_all_get split: option.split)

lemma attach_again:
  assumes "gok meta" and "attached_to meta e e'"
  shows "attached_to meta e (e'\<lparr>te_Meta := extend_meta meta (te_Meta e')\<rparr>)"
proof -
  obtain m where e': "e' = e\<lparr>te_Meta := Some m\<rparr>"
    and get: "\<And>k. gget m k = (case gget meta k of Some v \<Rightarrow> Some v
      | None \<Rightarrow> (case te_Meta e of None \<Rightarrow> None | Some old \<Rightarrow> gget old k))"
    using assms(2) by (auto simp: attached_to_def)
  have "gget (fold (\<lambda>(k, v) m. gset k v m) meta m) k = gget m k" for k
    by (simp add: gset_all_get [OF assms(1)] get split: option.split)
  then show ?thesis unfolding attached_to_def e' extend_meta_def
    by (intro exI [of _ "fold (\<lambda>(k, v) m. gset k v m) meta m"]) (simp add: get)
qed

lemma tool_meta_ok: "MarshalToolMeta meta = Inr attached \<Longrightarrow> gok attached"
  by (auto simp: MarshalToolMeta_def meta_key_defs split: if_splits)

lemma tool_meta_some: "uri \<noteq> [] \<Longrightarrow> \<exists>attached. MarshalToolMeta \<lparr>atm_ResourceURI = uri, atm_Visibility = vs\<rparr> = Inr attached"
  by (simp add: MarshalToolMeta_def)

text \<open>Attaching all tools succeeds when they are in the catalog.\<close>

definition attach_one :: "gdata \<Rightarrow> string \<Rightarrow> app_catalog \<Rightarrow> app_catalog" where
  "attach_one meta t cat = (let e = the (gget cat t) in gset t (e\<lparr>te_Meta := extend_meta meta (te_Meta e)\<rparr>) cat)"

lemma attach_one_get:
  "gget (attach_one meta t cat) t' =
     (if t' = t then Some ((the (gget cat t))\<lparr>te_Meta := extend_meta meta (te_Meta (the (gget cat t)))\<rparr>) else gget cat t')"
  by (simp add: attach_one_def Let_def)

lemma attach_tools_fold:
  assumes "MarshalToolMeta \<lparr>atm_ResourceURI = uri, atm_Visibility = []\<rparr> = Inr meta"
  shows "\<forall>t \<in> set ts. gget cat t \<noteq> None \<Longrightarrow>
    attach_tools uri info ts cat r = (Inr (), fold (attach_one meta) ts cat, fold (\<lambda>t. SetAppViewInfo t info) ts r)"
proof (induction ts arbitrary: cat r)
  case Nil
  then show ?case by simp
next
  case (Cons t ts)
  obtain e where e: "gget cat t = Some e" using Cons.prems by auto
  have "AttachAppMeta cat t uri = (Inr (), attach_one meta t cat)"
    by (simp add: AttachAppMeta_def e assms attach_one_def Let_def)
  moreover have "\<forall>t' \<in> set ts. gget (attach_one meta t cat) t' \<noteq> None"
    using Cons.prems by (simp add: attach_one_get)
  ultimately show ?case using Cons.IH by simp
qed

lemma attach_all_get:
  assumes "gok meta"
  shows "(t \<notin> set ts \<longrightarrow> gget (fold (attach_one meta) ts cat) t = gget cat t)
    \<and> (t \<in> set ts \<longrightarrow> gget cat t = Some e \<longrightarrow>
         (\<exists>e'. gget (fold (attach_one meta) ts cat) t = Some e' \<and> attached_to meta e e'))"
proof (induction ts rule: rev_induct)
  case Nil
  then show ?case by simp
next
  case (snoc x xs)
  then show ?case using attach_once [OF assms, of e] attach_again [OF assms, of e]
    by (cases "t = x"; cases "x \<in> set xs") (auto simp: attach_one_get)
qed

lemma info_all_get:
  "AppInfoForTool (fold (\<lambda>t. SetAppViewInfo t info) ts r) t = (if t \<in> set ts then Some info else AppInfoForTool r t)"
  by (induction ts arbitrary: r) (auto simp: AppInfoForTool_def SetAppViewInfo_def)

lemma info_all_resolver:
  "ag_viewDomainResolver (fold (\<lambda>t. SetAppViewInfo t info) ts r) = ag_viewDomainResolver r"
  by (induction ts arbitrary: r) (simp_all add: SetAppViewInfo_def)

definition helper_state :: "('srv, 'r) registrar option \<Rightarrow> 'srv option \<Rightarrow> 'w app_view \<Rightarrow> 'r \<Rightarrow> (string, unit) result \<times> 'r" where
  "helper_state f srv v tools = register_helpers f srv (av_URI v) (av_Helpers v) tools"

definition view_meta :: "'w app_view \<Rightarrow> gdata" where
  "view_meta v = [(''ui'', GMap [(''resourceUri'', GStr (to_valid (av_URI v)))]),
     (MCPAppsResourceURIMetaKey, GStr (av_URI v)), (OpenAIMetaOutputTemplateKey, GStr (av_URI v))]"

lemma view_meta_marshal:
  "av_URI v \<noteq> [] \<Longrightarrow> MarshalToolMeta \<lparr>atm_ResourceURI = av_URI v, atm_Visibility = []\<rparr> = Inr (view_meta v)"
  by (simp add: MarshalToolMeta_def view_meta_def omit_def)

lemma view_ok:
  assumes "view_error srv catalog v = None"
  shows "\<exists>s cat. srv = Some s \<and> catalog = Some cat \<and> av_URI v \<noteq> [] \<and> (\<forall>t \<in> set (av_AttachTo v). gget cat t \<noteq> None)"
proof -
  obtain s where s: "srv = Some s" using assms by (cases srv) (simp_all add: view_error_def)
  obtain cat where cat: "catalog = Some cat" using assms by (auto simp: view_error_def s split: option.splits)
  have "av_URI v \<noteq> []" and "List.find (\<lambda>t. gget cat t = None) (av_AttachTo v) = None"
    using assms by (auto simp: view_error_def s cat split: if_splits)
  then show ?thesis using s cat by (auto simp: find_None_iff)
qed

lemma view_registered:
  assumes "view_error srv (aw_catalog st) v = None" and "helper_state f srv v (aw_tools st) = (Inr u, tools)"
    and "srv = Some s" and "aw_catalog st = Some cat"
  shows "RegisterAppView f w srv v st =
    (Inr (), st\<lparr>aw_registry := fold (\<lambda>t. SetAppViewInfo t (view_info v)) (av_AttachTo v) (aw_registry st),
       aw_catalog := Some (fold (attach_one (view_meta v)) (av_AttachTo v) cat),
       aw_apps := snd (RegisterAppResource (Some s) (view_resource w (aw_registry st) v) (aw_apps st)),
       aw_tools := tools\<rparr>)"
proof -
  have ok: "av_URI v \<noteq> []" "\<forall>t \<in> set (av_AttachTo v). gget cat t \<noteq> None"
    using view_ok [OF assms(1)] assms(4) by auto
  note attach = attach_tools_fold [OF view_meta_marshal [OF ok(1)] ok(2), of "view_info v" "aw_registry st"]
  obtain apps where "RegisterAppResource srv (view_resource w (aw_registry st) v) (aw_apps st) = (Inr (), apps)"
    using ok(1) by (simp add: RegisterAppResource_def assms(3) view_resource_def)
  then show ?thesis using assms attach by (simp add: RegisterAppView_def helper_state_def)
qed


section \<open>Opening a view\<close>

text \<open>
  The content of a launch: the view's URI under \<open>view\<close> and the arguments beside it. An argument
  of that name replaces the URI of the view.
\<close>

theorem launcher_content:
  assumes "gok (tq_Arguments rq)"
  shows "\<exists>r sc. launcher_handler marshal uri rq = Inr r \<and> tr_content r = GMap sc \<and> \<not> tr_error r
    \<and> (\<forall>k. gget sc k = (case gget (tq_Arguments rq) k of
         Some v \<Rightarrow> Some v
       | None \<Rightarrow> if k = ''view'' then Some (GStr uri) else None))"
  using gset_all_get [OF assms, of "[(''view'', GStr uri)]"]
  by (auto simp: launcher_handler_def Let_def split: option.split)

theorem launcher_tool:
  "NewOpenLauncherDescriptor marshal ft spec = Inr d \<Longrightarrow>
     ol_ResourceURI spec \<noteq> [] \<and> td_Name d = ol_Name spec
     \<and> td_Handler d = Some (launcher_handler marshal (ol_ResourceURI spec))
     \<and> (\<exists>meta. td_Meta d = Some meta \<and> gget meta MCPAppsResourceURIMetaKey = Some (GStr (ol_ResourceURI spec)))"
  by (auto simp: NewOpenLauncherDescriptor_def MarshalToolMeta_def meta_key_defs Let_def split: if_splits)

section \<open>Conversions of targets\<close>

lemma copy_features_has: "gok fs \<Longrightarrow> fs_has (copy_features fs) f = fs_has fs f"
  using gset_all_get [of fs "[]" f] by (simp add: copy_features_def fs_has_def split: option.split)

end
