(* ===== verification/ResumeTool.thy ===== *)
theory ResumeTool
  imports HandoffRegistry AppViews
begin

text \<open>
  The resume tool as a registered tool: the descriptor \<open>NewResumeTool\<close> builds
  (\<open>handoff/handoff_registry.go\<close>), and its handler behind the adapter of \<open>sdk/handler.go\<close>, so
  that a wire call works on the registry and the handle store. The decoding of the arguments
  into \<open>resumeArgs\<close>, the reflected schema and the mcpforge fallback target are arguments.
\<close>

section \<open>The descriptor\<close>

text \<open>A handler over a state; \<open>tool_handler\<close> is the case of no state.\<close>

type_synonym 's stateful_handler =
  "tool_request \<Rightarrow> 's \<Rightarrow> (string, elicitation_spec tool_result) result \<times> 's"

definition resume_tool_handler ::
  "('c \<Rightarrow> string \<Rightarrow> 'd option \<Rightarrow> ('c, 'w, 'd) resume_state \<Rightarrow>
      (string, elicitation_spec tool_result) result \<times> ('c, 'w, 'd) resume_state) \<Rightarrow>
   (gdata \<Rightarrow> (string, string) result) \<Rightarrow> resume_spec \<Rightarrow> bool \<Rightarrow> time \<Rightarrow> time \<Rightarrow>
   ('c, 'w, 'd) resume_state stateful_handler" where
  "resume_tool_handler run decode spec configured t1 t2 rq s =
     (case resume_tool run spec configured (decode (tq_Arguments rq)) t1 t2 s of (res, s') \<Rightarrow> (Inr res, s'))"

definition invocation_labels :: gdata where
  "invocation_labels =
     [(''openai/toolInvocation'', GMap [(''invoking'', GStr (''Checking hand-off status'' @ [CHR 0xE2, CHR 0x80, CHR 0xA6])),
                                        (''invoked'', GStr ''Hand-off status checked'')])]"

definition NewResumeTool ::
  "(string \<Rightarrow> forge_target) \<Rightarrow> string \<Rightarrow> resume_spec \<Rightarrow> 'h \<Rightarrow> 'h tool_descriptor" where
  "NewResumeTool fallback_target schema spec handler =
     \<lparr>td_Name = rs_name spec, td_Title = rs_title_or_default spec, td_Description = rs_description spec,
      td_Category = CategoryOrDefault spec, td_ReadOnly = False, td_Destructive = False, td_OpenWorldHint = False,
      td_DirectVisible = False, td_InputSchema = schema, td_OutputSchema = [], td_Meta = Some invocation_labels,
      td_SecuritySchemes = None, td_SensitiveFlags = [],
      td_MCPTargets = Fallback fallback_target (rs_description spec), td_Handler = Some handler\<rparr>"

section \<open>A call over the wire\<close>

text \<open>
  The adapter around a handler over a state: the handler runs at the current state, on the
  request the start of the call logs, and its state is kept.
\<close>

definition wire_call ::
  "handler_deps \<Rightarrow> 's stateful_handler \<Rightarrow> call_params \<Rightarrow> 's \<Rightarrow> (log_event list \<times> adapted) \<times> 's" where
  "wire_call deps h p s =
     (let out = AdaptToolHandler deps (Some (\<lambda>rq. fst (h rq s))) p
      in (out, case fst out of LogStart name args # events \<Rightarrow> snd (h (request_for deps p args) s) | _ \<Rightarrow> s))"

lemma wire_runs:
  assumes "decode_arguments (cp_Arguments p) = Args m"
    and "call_arguments (hd_ReservedKey deps) p (Args m) = Some (Args m')"
    and "h (request_for deps p m') s = (Inr r, s')"
  shows "snd (fst (wire_call deps h p s)) = Responds (ToolResult (annotated deps p r))"
    and "snd (wire_call deps h p s) = s'"
  using adapt_runs [OF assms(1) _ assms(2), of "\<lambda>rq. fst (h rq s)"] assms(3)
  by (simp_all add: wire_call_def args_of_def)

lemma resume_run:
  "resume_tool run spec True (decode m') t1 t2 s = (r, s') \<Longrightarrow>
   resume_tool_handler run decode spec True t1 t2 (request_for deps p m') s = (Inr r, s')"
  by (simp add: resume_tool_handler_def request_for_def)

lemma reg_Get_ended: "reg_Get t h (reg_End h r) = None"
  by (simp add: reg_Get_def reg_End_def)

text \<open>A handle without a continuation is steered to a restart, whatever the store says of it.\<close>

lemma resume_without_continuation:
  assumes "h \<noteq> []" and "\<And>t. reg_Get t h reg = None"
  shows "\<exists>detail r store'. resume_tool run spec True (Inr h) t1 t2 (reg, store)
      = (restart_steer (deadHandleReason spec) (rs_restart_tool spec) detail, (r, store'))
    \<and> (\<forall>t. reg_Get t h r = None)"
proof (cases "hs_get t1 h store")
  case (Pair out store')
  show ?thesis
  proof (cases out)
    case (Inl e)
    with Pair assms(1) reg_Get_ended [of _ h reg] show ?thesis
      by (simp add: resume_tool_def resume_handler_def) blast
  next
    case (Inr x)
    with Pair assms show ?thesis
      by (cases x) (simp add: resume_tool_def resume_handler_def, blast)
  qed
qed

section \<open>Properties\<close>

text \<open>
  C9. A resume call over the wire on a pending flow runs its continuation on the current state
  and answers with its result. A terminal result ends the flow: whatever becomes of the handle
  store, the same call then answers with the restart steer, and keeps doing so. Any other
  result leaves the state as the continuation left it.
\<close>

theorem resume_over_the_wire:
  assumes "decode_arguments (cp_Arguments p) = Args m"
    and "call_arguments (hd_ReservedKey deps) p (Args m) = Some (Args m')"
    and "decode m' = Inr h" and "h \<noteq> []"
    and "hs_live t1 (snd s) h = Some (st, data)" and "reg_Get t2 h (fst s) = Some c"
    and "run c h data s = (Inr res, s')"
    and "wire_call deps (resume_tool_handler run decode spec True t1 t2) p s = (out, s1)"
  shows "snd out = Responds (ToolResult (annotated deps p res))
    \<and> (\<not> isTerminalResume res \<longrightarrow> s1 = s')
    \<and> (isTerminalResume res \<longrightarrow> snd s1 = snd s' \<and>
        (\<forall>run' t3 t4 store out' s2.
          wire_call deps (resume_tool_handler run' decode spec True t3 t4) p (fst s1, store) = (out', s2) \<longrightarrow>
          (\<forall>t. reg_Get t h (fst s2) = None)
          \<and> (\<exists>detail. snd out' = Responds (ToolResult (annotated deps p
                (restart_steer (deadHandleReason spec) (rs_restart_tool spec) detail))))))"
proof -
  have "resume_tool run spec True (decode m') t1 t2 s
      = (res, if isTerminalResume res then (reg_End h (fst s'), snd s') else s')"
    using resume_live [OF assms(4,5), of run spec t2] assms(3,6,7) by (simp add: resume_tool_def)
  then have first: "snd out = Responds (ToolResult (annotated deps p res))"
    "s1 = (if isTerminalResume res then (reg_End h (fst s'), snd s') else s')"
    using wire_runs [where h = "resume_tool_handler run decode spec True t1 t2" and s = s, OF assms(1,2) resume_run]
      assms(8) by simp_all
  have again: "(\<forall>t. reg_Get t h (fst s2) = None)
      \<and> (\<exists>detail. snd out' = Responds (ToolResult (annotated deps p
            (restart_steer (deadHandleReason spec) (rs_restart_tool spec) detail))))"
    if none: "\<And>t. reg_Get t h reg = None"
      and call: "wire_call deps (resume_tool_handler run' decode spec True t3 t4) p (reg, store) = (out', s2)"
    for run' :: "_ \<Rightarrow> _ \<Rightarrow> _ \<Rightarrow> _ \<Rightarrow> _" and t3 t4 reg store out' s2
  proof -
    obtain detail r store' where "resume_tool run' spec True (decode m') t3 t4 (reg, store)
        = (restart_steer (deadHandleReason spec) (rs_restart_tool spec) detail, (r, store'))"
      and gone: "\<forall>t. reg_Get t h r = None"
      using resume_without_continuation [OF assms(4) none, of run' spec t3 t4 store] assms(3) by auto
    note run2 = this(1)
    show ?thesis
      using wire_runs [where h = "resume_tool_handler run' decode spec True t3 t4" and s = "(reg, store)",
          OF assms(1,2) resume_run [where decode = decode and m' = m', OF run2]] call gone by auto
  qed
  show ?thesis
  proof (cases "isTerminalResume res")
    case True
    with first have none: "reg_Get t h (fst s1) = None" for t by (simp add: reg_Get_ended)
    from True first(2) have store: "snd s1 = snd s'" by simp
    show ?thesis using True first(1) store by (auto dest!: again [OF none])
  next
    case False
    with first show ?thesis by simp
  qed
qed

section \<open>Witness\<close>

text \<open>A decoder of \<open>resumeArgs\<close> on string members, and a continuation that is done at once.\<close>

definition demo_decode :: "gdata \<Rightarrow> (string, string) result" where
  "demo_decode m = (case gget m ''handle'' of Some (GStr s) \<Rightarrow> Inr s | _ \<Rightarrow> Inr [])"

definition demo_finish ::
  "nat \<Rightarrow> string \<Rightarrow> int option \<Rightarrow> (nat, string list, int) resume_state \<Rightarrow>
   (string, elicitation_spec tool_result) result \<times> (nat, string list, int) resume_state" where
  "demo_finish c h d s = (Inr (StatusResult StatusDone [] []), s)"

definition demo_resume :: call_params where
  "demo_resume = \<lparr>cp_Name = ''auth_resume'',
     cp_Arguments = Some ([CHR 0x7B] @ json_quote ''handle'' @ '':'' @ json_quote ''new'' @ [CHR 0x7D]),
     cp_InputResponses = None, cp_RequestState = [], cp_Request = CapsBuilder.demo_request\<rparr>"

theorem resume_over_the_wire_witness:
  "snd (fst (wire_call demo_deps (resume_tool_handler demo_finish demo_decode HandoffRegistry.demo_spec True 6 6)
      demo_resume demo_resume_state)) = Responds (ToolResult (StatusResult StatusDone [] []))
   \<and> (\<exists>detail. snd (fst (wire_call demo_deps (resume_tool_handler demo_finish demo_decode HandoffRegistry.demo_spec True 7 7)
      demo_resume (snd (wire_call demo_deps (resume_tool_handler demo_finish demo_decode HandoffRegistry.demo_spec True 6 6)
        demo_resume demo_resume_state))))
      = Responds (ToolResult (restart_steer ReasonCredentialEntry ''auth_sso'' detail)))"
proof -
  have args: "decode_arguments (cp_Arguments demo_resume) = Args [(''handle'', GStr ''new'')]" by code_simp
  have call: "call_arguments (hd_ReservedKey demo_deps) demo_resume (Args [(''handle'', GStr ''new'')])
      = Some (Args [(''handle'', GStr ''new'')])"
    by (simp add: call_arguments_def demo_resume_def AcceptedElicitations_def Let_def)
  have h: "demo_decode [(''handle'', GStr ''new'')] = Inr ''new''" by (simp add: demo_decode_def)
  have live: "hs_live 6 (snd demo_resume_state) ''new'' = Some (''p'', None)"
    by (simp add: demo_resume_state_def hs_live_def)
  have get: "reg_Get 6 ''new'' (fst demo_resume_state) = Some 2"
    by (simp add: demo_resume_state_def demo_registry_def reg_Get_def entry_dead_def)
  have run: "demo_finish 2 ''new'' None demo_resume_state = (Inr (StatusResult StatusDone [] []), demo_resume_state)"
    by (simp add: demo_finish_def)
  have ends: "isTerminalResume (StatusResult StatusDone [] [] :: elicitation_spec tool_result)"
    by (simp add: isTerminalResume_status status_codes)
  have plain: "annotated demo_deps p r = r" for p r by (simp add: annotated_def demo_deps_def)
  have spec: "deadHandleReason HandoffRegistry.demo_spec = ReasonCredentialEntry"
    "rs_restart_tool HandoffRegistry.demo_spec = ''auth_sso''"
    by (simp_all add: HandoffRegistry.demo_spec_def deadHandleReason_def)
  let ?W = "wire_call demo_deps (resume_tool_handler demo_finish demo_decode HandoffRegistry.demo_spec True 6 6)
      demo_resume demo_resume_state"
  obtain out s1 where wire: "?W = (out, s1)" by (rule prod.exhaust)
  note over = resume_over_the_wire [where decode = demo_decode and run = demo_finish, OF args call h _ live get run wire]
  have one: "snd (fst ?W) = Responds (ToolResult (StatusResult StatusDone [] []))"
    using over [THEN conjunct1] by (simp add: plain wire)
  moreover have "\<exists>detail. snd (fst (wire_call demo_deps
      (resume_tool_handler demo_finish demo_decode HandoffRegistry.demo_spec True 7 7) demo_resume (fst s1, snd s1)))
      = Responds (ToolResult (restart_steer ReasonCredentialEntry ''auth_sso'' detail))"
    using over [THEN conjunct2, THEN conjunct2] ends spec plain by (metis list.distinct(1) prod.collapse)
  ultimately show ?thesis by (simp add: wire)
qed

end
