(* ===== verification/TreeSize.thy ===== *)
theory TreeSize
  imports Prelude
begin

text \<open>
  \<open>ieo/tree_size.go\<close>: the pre-flight size check of a local path. The walk is the list of the
  entries it visits, in order; sizes and the running total are signed 64-bit words.
\<close>

datatype TreeSizePolicy = TreeSizePerEntry | TreeSizeAggregate

datatype file_kind = Directory | Regular "64 word" | Special

text \<open>
  An entry as the callback sees it: its path, the error of the walk, whether the entry itself
  is a directory, and what \<open>Info\<close> (without following links) or \<open>os.Stat\<close> (following them) says.
\<close>

record 'e visit =
  vs_path :: string
  vs_err :: "'e option"
  vs_dir :: bool
  vs_info :: "('e, file_kind) result"
  vs_stat :: "('e, file_kind) result"

datatype 'e tree_error =
    WalkFailed 'e
  | FileExceeds string "64 word" "64 word"
  | TotalExceeds "64 word" "64 word"

text \<open>What both callbacks do with a regular file.\<close>

definition count_file ::
  "64 word \<Rightarrow> TreeSizePolicy \<Rightarrow> string \<Rightarrow> 64 word \<Rightarrow> 64 word \<Rightarrow> ('e tree_error, 64 word) result" where
  "count_file maxBytes policy p sz tot =
     (if sint maxBytes < sint sz then Inl (FileExceeds p sz maxBytes)
      else if policy = TreeSizeAggregate then
        (let tot' = tot + sz in if sint maxBytes < sint tot' then Inl (TotalExceeds tot' maxBytes) else Inr tot')
      else Inr tot)"

definition tree_visit ::
  "64 word \<Rightarrow> TreeSizePolicy \<Rightarrow> 'e visit \<Rightarrow> 64 word \<Rightarrow> ('e tree_error, 64 word) result" where
  "tree_visit maxBytes policy v tot =
     (case vs_err v of
        Some e \<Rightarrow> Inl (WalkFailed e)
      | None \<Rightarrow>
          if vs_dir v then Inr tot
          else (case vs_info v of
             Inl e \<Rightarrow> Inl (WalkFailed e)
           | Inr (Regular sz) \<Rightarrow> count_file maxBytes policy (vs_path v) sz tot
           | Inr k \<Rightarrow> Inr tot))"

definition directory_visit ::
  "64 word \<Rightarrow> TreeSizePolicy \<Rightarrow> 'e visit \<Rightarrow> 64 word \<Rightarrow> ('e tree_error, 64 word) result" where
  "directory_visit maxBytes policy v tot =
     (case vs_err v of
        Some e \<Rightarrow> Inl (WalkFailed e)
      | None \<Rightarrow>
          (case vs_stat v of
             Inl e \<Rightarrow> Inl (WalkFailed e)
           | Inr (Regular sz) \<Rightarrow> count_file maxBytes policy (vs_path v) sz tot
           | Inr k \<Rightarrow> Inr tot))"

text \<open>The walk stops at the first error of its callback.\<close>

fun walk :: "('e visit \<Rightarrow> 64 word \<Rightarrow> ('e tree_error, 64 word) result) \<Rightarrow> 'e visit list \<Rightarrow> 64 word \<Rightarrow> 'e tree_error option" where
  "walk f [] tot = None"
| "walk f (v # vs) tot = (case f v tot of Inl e \<Rightarrow> Some e | Inr tot' \<Rightarrow> walk f vs tot')"

definition CheckTreeSize :: "'e visit list \<Rightarrow> 64 word \<Rightarrow> TreeSizePolicy \<Rightarrow> 'e tree_error option" where
  "CheckTreeSize visits maxBytes policy =
     (if sint maxBytes \<le> 0 then None else walk (tree_visit maxBytes policy) visits 0)"

definition CheckDirectorySize :: "'e visit list \<Rightarrow> 64 word \<Rightarrow> TreeSizePolicy \<Rightarrow> 'e tree_error option" where
  "CheckDirectorySize visits maxBytes policy =
     (if sint maxBytes \<le> 0 then None else walk (directory_visit maxBytes policy) visits 0)"

section \<open>The check against its specification\<close>

text \<open>The sizes of the regular files of a walk, as integers, by what is asked of an entry.\<close>

definition entry_size :: "('e visit \<Rightarrow> ('e, file_kind) result) \<Rightarrow> 'e visit \<Rightarrow> int option" where
  "entry_size ask v = (case ask v of Inr (Regular sz) \<Rightarrow> Some (sint sz) | _ \<Rightarrow> None)"

definition entry_sizes :: "('e visit \<Rightarrow> ('e, file_kind) result) \<Rightarrow> 'e visit list \<Rightarrow> int list" where
  "entry_sizes ask vs = List.map_filter (entry_size ask) vs"

definition readable :: "('e visit \<Rightarrow> ('e, file_kind) result) \<Rightarrow> 'e visit \<Rightarrow> bool" where
  "readable ask v \<longleftrightarrow> vs_err v = None \<and> (case ask v of Inl e \<Rightarrow> False | Inr k \<Rightarrow> True)"

text \<open>What \<open>CheckTreeSize\<close> asks: a directory entry is not asked further.\<close>

definition tree_info :: "'e visit \<Rightarrow> ('e, file_kind) result" where
  "tree_info v = (if vs_dir v then Inr Directory else vs_info v)"

definition within :: "64 word \<Rightarrow> TreeSizePolicy \<Rightarrow> int list \<Rightarrow> bool" where
  "within maxBytes policy sizes \<longleftrightarrow>
     list_all (\<lambda>n. n \<le> sint maxBytes) sizes \<and> (policy = TreeSizeAggregate \<longrightarrow> sum_list sizes \<le> sint maxBytes)"

text \<open>One callback covers both functions.\<close>

definition general_visit ::
  "('e visit \<Rightarrow> ('e, file_kind) result) \<Rightarrow> 64 word \<Rightarrow> TreeSizePolicy \<Rightarrow> 'e visit \<Rightarrow> 64 word \<Rightarrow>
   ('e tree_error, 64 word) result" where
  "general_visit ask maxBytes policy v tot =
     (case vs_err v of
        Some e \<Rightarrow> Inl (WalkFailed e)
      | None \<Rightarrow>
          (case ask v of
             Inl e \<Rightarrow> Inl (WalkFailed e)
           | Inr (Regular sz) \<Rightarrow> count_file maxBytes policy (vs_path v) sz tot
           | Inr k \<Rightarrow> Inr tot))"

lemma tree_visit_general: "tree_visit = general_visit tree_info"
  by (intro ext) (simp add: tree_visit_def general_visit_def tree_info_def split: option.split)

lemma directory_visit_general: "directory_visit = general_visit vs_stat"
  by (intro ext) (simp add: directory_visit_def general_visit_def split: option.split)

lemma sint_add_small:
  fixes a b :: "64 word"
  assumes "0 \<le> sint a" and "0 \<le> sint b" and "sint a + sint b < 2 ^ 63"
  shows "sint (a + b) = sint a + sint b"
proof -
  have "sint (a + b) = signed_take_bit 63 (sint a + sint b)"
    by (simp only: sint_word_ariths) simp
  also have "\<dots> = sint a + sint b" by (rule signed_take_bit_int_eq_self) (use assms in simp_all)
  finally show ?thesis .
qed

lemma walk_general:
  assumes "sint maxBytes < 2 ^ 62" and "0 \<le> sint tot" and "sint tot \<le> sint maxBytes"
    and "\<forall>n \<in> set (entry_sizes ask vs). 0 \<le> n"
  shows "walk (general_visit ask maxBytes policy) vs tot = None \<longleftrightarrow>
    list_all (readable ask) vs \<and> list_all (\<lambda>n. n \<le> sint maxBytes) (entry_sizes ask vs)
    \<and> (policy = TreeSizeAggregate \<longrightarrow> sint tot + sum_list (entry_sizes ask vs) \<le> sint maxBytes)"
  using assms
proof (induction vs arbitrary: tot)
  case Nil
  then show ?case by (simp add: entry_sizes_def map_filter_simps)
next
  case (Cons v vs)
  show ?case
  proof (cases "readable ask v")
    case False
    then have "walk (general_visit ask maxBytes policy) (v # vs) tot \<noteq> None"
      by (auto simp: readable_def general_visit_def split: option.split sum.split)
    then show ?thesis using False by simp
  next
    case True
    then obtain k where k: "vs_err v = None" "ask v = Inr k" by (auto simp: readable_def split: sum.splits)
    show ?thesis
    proof (cases "\<exists>sz. k = Regular sz")
      case False
      then have "entry_sizes ask (v # vs) = entry_sizes ask vs"
        using k by (cases k) (simp_all add: entry_sizes_def map_filter_simps entry_size_def)
      moreover have "general_visit ask maxBytes policy v tot = Inr tot"
        using k False by (cases k) (simp_all add: general_visit_def)
      ultimately show ?thesis using Cons True by simp
    next
      case reg: True
      then obtain sz where sz: "k = Regular sz" by blast
      have es: "entry_sizes ask (v # vs) = sint sz # entry_sizes ask vs"
        using k sz by (simp add: entry_sizes_def map_filter_simps entry_size_def)
      have nn: "0 \<le> sint sz" "\<forall>n \<in> set (entry_sizes ask vs). 0 \<le> n" using Cons.prems(4) by (simp_all add: es)
      have ss: "0 \<le> sum_list (entry_sizes ask vs)" using nn(2) by (simp add: sum_list_nonneg)
      have gv: "general_visit ask maxBytes policy v tot = count_file maxBytes policy (vs_path v) sz tot"
        using k sz by (simp add: general_visit_def)
      show ?thesis
      proof (cases "sint sz \<le> sint maxBytes")
        case False
        then show ?thesis by (simp add: gv count_file_def es)
      next
        case small: True
        have "sint tot + sint sz < 2 ^ 62 + 2 ^ 62" using Cons.prems small by linarith
        then have add: "sint (tot + sz) = sint tot + sint sz"
          by (intro sint_add_small) (use Cons.prems nn in simp_all)
        show ?thesis
        proof (cases "policy = TreeSizeAggregate")
          case True
          show ?thesis
          proof (cases "sint tot + sint sz \<le> sint maxBytes")
            case False
            then have "general_visit ask maxBytes policy v tot = Inl (TotalExceeds (tot + sz) maxBytes)"
              using False True small unfolding gv count_file_def Let_def by (simp add: add)
            then show ?thesis using False True ss by (simp add: es)
          next
            case fits: True
            have "0 \<le> sint (tot + sz)" "sint (tot + sz) \<le> sint maxBytes"
              using add nn(1) Cons.prems(2) fits by simp_all
            from Cons.IH [OF Cons.prems(1) this nn(2)]
            show ?thesis
            proof -
              have "general_visit ask maxBytes policy v tot = Inr (tot + sz)"
                using True small fits unfolding gv count_file_def Let_def by (simp add: add)
              then show ?thesis
                using Cons.IH [OF Cons.prems(1) _ _ nn(2), of "tot + sz"] add nn(1) Cons.prems(2) fits True small \<open>readable ask v\<close>
                by (simp add: es add.assoc)
            qed
          qed
        next
          case False
          then show ?thesis using Cons.IH [OF Cons.prems(1-3) nn(2)] small \<open>readable ask v\<close>
            by (simp add: gv count_file_def es)
        qed
      qed
    qed
  qed
qed

text \<open>
  C31. The pre-flight check is exact. With a cap of at least 1 and less than 2^62 bytes, both checks accept a
  walk exactly when every entry could be read, no regular file is larger than the cap and,
  under the aggregate policy, the regular files together are not larger than the cap; the one
  takes the sizes of the entries themselves, the other of what links point at.
\<close>

theorem size_checks_exact:
  assumes "0 < sint maxBytes" and "sint maxBytes < 2 ^ 62"
    and "\<forall>n \<in> set (entry_sizes tree_info visits). 0 \<le> n" and "\<forall>n \<in> set (entry_sizes vs_stat visits). 0 \<le> n"
  shows "(CheckTreeSize visits maxBytes policy = None \<longleftrightarrow>
       list_all (readable tree_info) visits \<and> within maxBytes policy (entry_sizes tree_info visits))
    \<and> (CheckDirectorySize visits maxBytes policy = None \<longleftrightarrow>
       list_all (readable vs_stat) visits \<and> within maxBytes policy (entry_sizes vs_stat visits))"
  using assms walk_general [of maxBytes 0 tree_info visits policy] walk_general [of maxBytes 0 vs_stat visits policy]
  by (simp add: CheckTreeSize_def CheckDirectorySize_def tree_visit_general directory_visit_general within_def)

text \<open>From 2^62 on the running total wraps around and an oversized tree passes.\<close>

definition big_file :: "unit visit" where
  "big_file = \<lparr>vs_path = ''a'', vs_err = None, vs_dir = False, vs_info = Inr (Regular (2 ^ 62)),
     vs_stat = Inr (Regular (2 ^ 62))\<rparr>"

theorem aggregate_total_wraps:
  "CheckTreeSize [big_file, big_file] (2 ^ 62) TreeSizeAggregate = None
   \<and> sint (2 ^ 62 :: 64 word) < sum_list (entry_sizes tree_info [big_file, big_file])"
  by (simp add: CheckTreeSize_def tree_visit_def count_file_def big_file_def entry_sizes_def map_filter_simps
      entry_size_def tree_info_def Let_def)

definition small_file :: "unit visit" where
  "small_file = \<lparr>vs_path = ''a'', vs_err = None, vs_dir = False, vs_info = Inr (Regular 5), vs_stat = Inr (Regular 5)\<rparr>"

theorem size_checks_exact_witness:
  "CheckTreeSize [small_file] 9 TreeSizeAggregate = None
   \<and> CheckDirectorySize [small_file, small_file] 9 TreeSizeAggregate \<noteq> None"
proof -
  have s: "entry_sizes tree_info [small_file] = [5]" "entry_sizes vs_stat [small_file] = [5]"
    "entry_sizes tree_info [small_file, small_file] = [5, 5]" "entry_sizes vs_stat [small_file, small_file] = [5, 5]"
    by (simp_all add: entry_sizes_def map_filter_simps entry_size_def tree_info_def small_file_def)
  have r: "readable tree_info small_file" by (simp add: readable_def tree_info_def small_file_def)
  show ?thesis
    using size_checks_exact [of 9 "[small_file]" TreeSizeAggregate]
      size_checks_exact [of 9 "[small_file, small_file]" TreeSizeAggregate] r
    by (simp add: s within_def)
qed

end
