(* ===== verification/DataUri.thy ===== *)
theory DataUri
  imports Readers Encodings
begin

text \<open>
  \<open>ieo/file_data_uri.go\<close>: the data: URI form of a file. The header of the URI is parsed part
  by part; the payload is decoded as a stream by \<open>base64.NewDecoder\<close>, which takes whole
  quanta in segments of any size; a reader on top of it enforces the cap and the declared size.
  Sizes are 64-bit, with the wrap-around of the doubled cap written out.
\<close>

datatype data_error =
    InvalidData string \<comment> \<open>wraps \<open>ErrInvalidFileReference\<close>\<close>
  | DataTooLarge \<comment> \<open>wraps \<open>ErrFileTooLarge\<close>\<close>
  | BadBase64 \<comment> \<open>the decoder's own error\<close>

record fileDataURIOption =
  MIMEType :: string
  Name :: string
  Size :: int

definition int64 :: "int \<Rightarrow> int" where
  "int64 k = (k + 2 ^ 63) mod 2 ^ 64 - 2 ^ 63"

section \<open>The header\<close>

fun split_on :: "char \<Rightarrow> string \<Rightarrow> string list" where
  "split_on c [] = [[]]"
| "split_on c (x # xs) =
     (if x = c then [] # split_on c xs
      else (case split_on c xs of [] \<Rightarrow> [[x]] | p # ps \<Rightarrow> (x # p) # ps))"

text \<open>One parameter: the option so far and whether \<open>base64\<close> was seen.\<close>

definition header_part :: "string \<Rightarrow> fileDataURIOption \<times> bool \<Rightarrow> fileDataURIOption \<times> bool" where
  "header_part raw st =
     (case st of (opt, b64) \<Rightarrow>
        let part = trim_space raw in
        if part = ''base64'' then (opt, True)
        else if has_prefix part ''name='' then
          (opt\<lparr>Name := (case query_unescape (trim_prefix part ''name='') of None \<Rightarrow> [] | Some n \<Rightarrow> n)\<rparr>, b64)
        else if has_prefix part ''size='' then
          (case parse_int64 (trim_prefix part ''size='') of None \<Rightarrow> (opt, b64) | Some n \<Rightarrow> (opt\<lparr>Size := n\<rparr>, b64))
        else if has_prefix part ''mime='' \<or> CHR ''/'' \<in> set part then (opt\<lparr>MIMEType := part\<rparr>, b64)
        else (opt, b64))"

definition no_option :: fileDataURIOption where
  "no_option = \<lparr>MIMEType = [], Name = [], Size = 0\<rparr>"

definition parse_header :: "string \<Rightarrow> fileDataURIOption \<times> bool" where
  "parse_header meta = (if meta = [] then (no_option, False) else fold header_part (split_on CHR '';'' meta) (no_option, False))"

section \<open>The decoded length\<close>

definition line_break :: "char \<Rightarrow> bool" where
  "line_break c \<longleftrightarrow> c = CHR 0x0A \<or> c = CHR 0x0D"

text \<open>The second loop of \<open>base64DecodedLen\<close>, over the characters from the last one back.\<close>

fun count_padding :: "string \<Rightarrow> nat \<Rightarrow> nat" where
  "count_padding [] p = p"
| "count_padding (c # r) p =
     (if line_break c then count_padding r p
      else if c \<noteq> CHR ''='' then p
      else count_padding r (Suc p))"

definition base64DecodedLen :: "string \<Rightarrow> int" where
  "base64DecodedLen encoded =
     (let n = length (filter (\<lambda>c. \<not> line_break c) encoded)
      in if n = 0 then 0 else int (n div 4 * 3) - int (count_padding (rev encoded) 0))"

section \<open>Parsing\<close>

text \<open>The payload the reader decodes, the cap it starts with and the options it checks.\<close>

record data_source =
  ds_payload :: string
  ds_cap :: int
  ds_declared :: fileDataURIOption

definition ParseFileDataURI :: "string \<Rightarrow> int \<Rightarrow> (data_error, data_source \<times> fileDataURIOption) result" where
  "ParseFileDataURI uri maxBytes =
     (if \<not> has_prefix uri ''data:'' then Inl (InvalidData ''not a data: URI'')
      else if CHR '','' \<notin> set uri then Inl (InvalidData ''data URI missing comma'')
      else
        let comma = length (takeWhile (\<lambda>c. c \<noteq> CHR '','') uri);
            meta = drop 5 (take comma uri);
            payload = drop (Suc comma) uri;
            (opt, b64) = parse_header meta
        in if \<not> b64 then Inl (InvalidData ''data URI is not base64-encoded'')
           else if int64 (maxBytes * 2) < int (length payload) then Inl DataTooLarge
           else
             let decodedLen = base64DecodedLen payload
             in if Size opt \<noteq> 0 \<and> Size opt \<noteq> decodedLen
                then Inl (InvalidData ''declared size does not match payload'')
                else
                  let opt' = (if Size opt = 0 then opt\<lparr>Size := decodedLen\<rparr> else opt)
                  in if maxBytes < Size opt' then Inl DataTooLarge
                     else Inr (\<lparr>ds_payload = payload, ds_cap = maxBytes, ds_declared = opt'\<rparr>, opt'))"

section \<open>The decoder\<close>

definition whole :: "string \<Rightarrow> nat" where
  "whole s = length s div 4 * 4"

text \<open>
  \<open>base64.NewDecoder\<close> on characters without line breaks: each refill decodes a segment of
  whole quanta, of a size that depends on the buffers; a corrupt segment ends the stream with
  some of its bytes; a last part of a quantum is an unexpected end.
\<close>

fun stream_decode :: "nat \<Rightarrow> nat list \<Rightarrow> string \<Rightarrow> string \<times> data_error read_end" where
  "stream_decode kept [] s =
     (case std_quanta (take (whole s) s) of
        (bs, bad) \<Rightarrow>
          if bad then (take kept bs, ReadFailed BadBase64)
          else (bs, if length s mod 4 = 0 then AtEOF else ReadFailed BadBase64))"
| "stream_decode kept (k # ks) s =
     (let n = min (4 * k) (whole s)
      in case std_quanta (take n s) of
           (bs, bad) \<Rightarrow>
             if bad then (take kept bs, ReadFailed BadBase64)
             else (case stream_decode kept ks (drop n s) of (cs, e) \<Rightarrow> (bs @ cs, e)))"

text \<open>The decoder as a reader, for any segments, chunks and way to end.\<close>

definition decoder :: "nat \<Rightarrow> nat list \<Rightarrow> nat list \<Rightarrow> bool \<Rightarrow> string \<Rightarrow> data_error any_reader" where
  "decoder kept segments chunks joint payload =
     (case stream_decode kept segments (no_breaks payload) of
        (bs, e) \<Rightarrow> \<lparr>ar_data = bs, ar_end = e, ar_chunks = chunks, ar_joint = joint\<rparr>)"

section \<open>The bounded reader\<close>

record 's boundedDataReader =
  bd_reader :: 's
  bd_remaining :: int
  bd_read :: int
  bd_done :: bool
  bd_declared :: fileDataURIOption

definition size_mismatch :: "'s boundedDataReader \<Rightarrow> bool" where
  "size_mismatch r \<longleftrightarrow> 0 < Size (bd_declared r) \<and> bd_read r \<noteq> Size (bd_declared r)"

definition mismatch_error :: data_error where
  "mismatch_error = InvalidData ''declared size does not match payload''"

definition bounded_read ::
  "(nat \<Rightarrow> 's \<Rightarrow> (string \<times> data_error read_end) \<times> 's) \<Rightarrow> nat \<Rightarrow> 's boundedDataReader \<Rightarrow>
   (string \<times> data_error read_end) \<times> 's boundedDataReader" where
  "bounded_read read k r =
     (if bd_done r then (([], AtEOF), r)
      else if bd_remaining r \<le> 0 then
        (case read 1 (bd_reader r) of ((bs, e), s') \<Rightarrow>
           let r' = r\<lparr>bd_reader := s', bd_done := True\<rparr>
           in if 0 < length bs then (([], ReadFailed DataTooLarge), r')
              else if size_mismatch r then (([], ReadFailed mismatch_error), r')
              else (([], e), r'))
      else
        (case read (if bd_remaining r < int k then nat (bd_remaining r) else k) (bd_reader r) of ((bs, e), s') \<Rightarrow>
           let r' = r\<lparr>bd_reader := s', bd_read := bd_read r + int (length bs),
                      bd_remaining := bd_remaining r - int (length bs)\<rparr>
           in (case e of
                 AtEOF \<Rightarrow>
                   if size_mismatch r' then ((bs, ReadFailed mismatch_error), r'\<lparr>bd_done := True\<rparr>)
                   else ((bs, AtEOF), r'\<lparr>bd_done := True\<rparr>)
               | ReadFailed x \<Rightarrow> ((bs, ReadFailed (InvalidData ''data URI has invalid base64'')), r')
               | More \<Rightarrow> ((bs, More), r'))))"

definition open_data :: "'s \<Rightarrow> data_source \<Rightarrow> 's boundedDataReader" where
  "open_data s d =
     \<lparr>bd_reader = s, bd_remaining = ds_cap d, bd_read = 0, bd_done = False, bd_declared = ds_declared d\<rparr>"

text \<open>What the bounded reader delivers and how it ends, when the reader below ends well.\<close>

definition bounded_rest :: "('s \<Rightarrow> string) \<Rightarrow> 's boundedDataReader \<Rightarrow> string" where
  "bounded_rest rest r = take (nat (bd_remaining r)) (rest (bd_reader r))"

definition bounded_ending :: "('s \<Rightarrow> string) \<Rightarrow> 's boundedDataReader \<Rightarrow> data_error read_end" where
  "bounded_ending rest r =
     (if bd_remaining r < int (length (rest (bd_reader r))) then ReadFailed DataTooLarge
      else if 0 < Size (bd_declared r) \<and> bd_read r + int (length (rest (bd_reader r))) \<noteq> Size (bd_declared r)
      then ReadFailed mismatch_error
      else AtEOF)"

locale bounded_source = byte_source read rest ending inv
  for read :: "nat \<Rightarrow> 's \<Rightarrow> (string \<times> data_error read_end) \<times> 's" and rest and ending and inv
begin

definition bounded_inv :: "'s boundedDataReader \<Rightarrow> bool" where
  "bounded_inv r \<longleftrightarrow> \<not> bd_done r \<and> 0 \<le> bd_remaining r \<and> inv (bd_reader r) \<and> ending (bd_reader r) = AtEOF"

text \<open>At the cap one byte is probed; below it the buffer is cut to what remains.\<close>

lemma probe_end:
  assumes "bounded_inv r" and "bd_remaining r = 0" and "bounded_read read k r = ((bs, e), r')"
  shows "bs = [] \<and> e = bounded_ending rest r \<and> e \<noteq> More"
proof -
  obtain cs x s' where p: "read 1 (bd_reader r) = ((cs, x), s')" by (metis surj_pair)
  have i: "inv (bd_reader r)" "ending (bd_reader r) = AtEOF" "\<not> bd_done r" using assms(1) by (simp_all add: bounded_inv_def)
  show ?thesis
  proof (cases "cs = []")
    case True
    then have "x \<noteq> More" using read_progress [OF i(1), of 1 cs s'] p by auto
    then have "rest (bd_reader r) = []" "x = AtEOF" using read_end [OF i(1) p] True i(2) by simp_all
    then show ?thesis using assms(2,3) i p True
      by (auto simp: bounded_read_def bounded_ending_def size_mismatch_def Let_def split: if_splits)
  next
    case False
    have "rest (bd_reader r) \<noteq> []"
      using False read_more [OF i(1), of 1 cs s'] read_end [OF i(1), of 1 cs x s'] p by (cases "x = More") auto
    then show ?thesis using assms(2,3) i p False
      by (auto simp: bounded_read_def bounded_ending_def Let_def)
  qed
qed

lemma below_cap:
  assumes "bounded_inv r" and "bd_remaining r \<noteq> 0" and "bounded_read read k r = ((bs, e), r')"
  shows "\<exists>x s'. read (if bd_remaining r < int k then nat (bd_remaining r) else k) (bd_reader r) = ((bs, x), s')
    \<and> int (length bs) \<le> bd_remaining r \<and> length bs \<le> k
    \<and> (x = More \<and> e = More \<and> r' = r\<lparr>bd_reader := s', bd_read := bd_read r + int (length bs),
           bd_remaining := bd_remaining r - int (length bs)\<rparr>
       \<or> x = AtEOF \<and> bs = rest (bd_reader r) \<and> e = bounded_ending rest r \<and> e \<noteq> More)"
proof -
  let ?k = "if bd_remaining r < int k then nat (bd_remaining r) else k"
  have i: "inv (bd_reader r)" "ending (bd_reader r) = AtEOF" "\<not> bd_done r" "0 < bd_remaining r"
    using assms(1,2) by (simp_all add: bounded_inv_def)
  obtain cs x s' where p: "read ?k (bd_reader r) = ((cs, x), s')" by (metis surj_pair)
  have "length cs \<le> ?k" using read_len [OF i(1), of ?k] p by simp
  then have l: "int (length cs) \<le> bd_remaining r" "length cs \<le> k" using i(4) by (auto split: if_splits)
  have b: "bounded_read read k r =
      (let r' = r\<lparr>bd_reader := s', bd_read := bd_read r + int (length cs), bd_remaining := bd_remaining r - int (length cs)\<rparr>
       in case x of
            AtEOF \<Rightarrow> if size_mismatch r' then ((cs, ReadFailed mismatch_error), r'\<lparr>bd_done := True\<rparr>)
                     else ((cs, AtEOF), r'\<lparr>bd_done := True\<rparr>)
          | ReadFailed y \<Rightarrow> ((cs, ReadFailed (InvalidData ''data URI has invalid base64'')), r')
          | More \<Rightarrow> ((cs, More), r'))"
    unfolding bounded_read_def using i(3,4) p by (simp add: Let_def)
  have "x \<noteq> More \<Longrightarrow> cs = rest (bd_reader r) \<and> x = AtEOF" using read_end [OF i(1) p] i(2) by simp
  then consider "x = More" | "x = AtEOF" "cs = rest (bd_reader r)" by blast
  then show ?thesis
  proof cases
    case 1
    then have "bs = cs" "e = More" using assms(3) b by (simp_all add: Let_def)
    moreover have "r' = r\<lparr>bd_reader := s', bd_read := bd_read r + int (length cs),
           bd_remaining := bd_remaining r - int (length cs)\<rparr>"
      using assms(3) b 1 by (auto simp: Let_def)
    ultimately show ?thesis using p l 1 by blast
  next
    case 2
    then have "bs = cs" "e = bounded_ending rest r" "e \<noteq> More"
      using assms(3) b l
      by (auto simp: Let_def bounded_ending_def size_mismatch_def mismatch_error_def split: if_splits)
    then show ?thesis using p l 2 by blast
  qed
qed

end

sublocale bounded_source \<subseteq> bounded: byte_source
  "bounded_read read" "bounded_rest rest" "bounded_ending rest" bounded_inv
proof (unfold_locales, goal_cases)
  case (1 r k)
  obtain bs e r' where b: "bounded_read read k r = ((bs, e), r')" by (metis surj_pair)
  show ?case using probe_end [OF 1 _ b] below_cap [OF 1 _ b] b by (cases "bd_remaining r = 0") auto
next
  case (2 r k bs r')
  then have nz: "bd_remaining r \<noteq> 0" using probe_end by blast
  obtain s' where p: "read (if bd_remaining r < int k then nat (bd_remaining r) else k) (bd_reader r) = ((bs, More), s')"
    and l: "int (length bs) \<le> bd_remaining r"
    and r': "r' = r\<lparr>bd_reader := s', bd_read := bd_read r + int (length bs), bd_remaining := bd_remaining r - int (length bs)\<rparr>"
    using below_cap [OF 2(1) nz 2(2)] by auto
  have i: "inv (bd_reader r)" "ending (bd_reader r) = AtEOF" "\<not> bd_done r" "0 \<le> bd_remaining r"
    using 2(1) by (simp_all add: bounded_inv_def)
  have m: "rest (bd_reader r) = bs @ rest s'" "ending s' = ending (bd_reader r)" "inv s'"
    using read_more [OF i(1) p] by blast+
  have "length bs \<le> nat (bd_remaining r)" "nat (bd_remaining r) - length bs = nat (bd_remaining r - int (length bs))"
    using l by simp_all
  then show ?case using m i l
    by (simp add: r' bounded_rest_def bounded_ending_def bounded_inv_def add.assoc)
next
  case (3 r k bs e r')
  show ?case
  proof (cases "bd_remaining r = 0")
    case True
    then show ?thesis using probe_end [OF 3(1) True 3(2)] by (simp add: bounded_rest_def)
  next
    case False
    have "int (length (rest (bd_reader r))) \<le> bd_remaining r \<and> bs = rest (bd_reader r) \<and> e = bounded_ending rest r"
      using below_cap [OF 3(1) False 3(2)] 3(3) by auto
    moreover from this have "length (rest (bd_reader r)) \<le> nat (bd_remaining r)" by linarith
    ultimately have "bounded_rest rest r = rest (bd_reader r)" "bs = rest (bd_reader r)" "e = bounded_ending rest r"
      by (simp_all add: bounded_rest_def)
    then show ?thesis by simp
  qed
next
  case (4 r k bs r')
  then have nz: "bd_remaining r \<noteq> 0" using probe_end by blast
  obtain s' where p: "read (if bd_remaining r < int k then nat (bd_remaining r) else k) (bd_reader r) = ((bs, More), s')"
    using below_cap [OF 4(1) nz 4(3)] by auto
  have "inv (bd_reader r)" "0 < (if bd_remaining r < int k then nat (bd_remaining r) else k)"
    using 4(1,2) nz by (simp_all add: bounded_inv_def)
  then show ?case using read_progress p by blast
next
  case (5 r)
  then show ?case by (simp add: bounded_ending_def)
qed

interpretation data_body: bounded_source any_read ar_data ar_end ar_ok
  by unfold_locales

text \<open>
  \<open>readDataURI\<close>: draining the reader with buffers of the given sizes, the decoder behaving as
  \<open>dec\<close> says for the payload.
\<close>

definition readDataURI ::
  "nat list \<Rightarrow> (string \<Rightarrow> data_error any_reader) \<Rightarrow> string \<Rightarrow> int \<Rightarrow>
   (data_error, (string \<times> data_error read_end) \<times> fileDataURIOption) result" where
  "readDataURI buffers dec uri maxBytes =
     (case ParseFileDataURI uri maxBytes of
        Inl e \<Rightarrow> Inl e
      | Inr (d, opt) \<Rightarrow> Inr (drain (bounded_read any_read) buffers (open_data (dec (ds_payload d)) d), opt))"

section \<open>Padding and decoded length\<close>

definition trailing :: "string \<Rightarrow> nat" where
  "trailing s = length (takeWhile (\<lambda>c. c = CHR ''='') (rev s))"

lemma count_padding_filter: "count_padding s p = count_padding (filter (\<lambda>c. \<not> line_break c) s) p"
  by (induction s p rule: count_padding.induct) simp_all

lemma count_padding_run:
  "\<forall>c \<in> set s. \<not> line_break c \<Longrightarrow> count_padding s p = p + length (takeWhile (\<lambda>c. c = CHR ''='') s)"
  by (induction s p rule: count_padding.induct) simp_all

lemma no_breaks_filter: "no_breaks s = filter (\<lambda>c. \<not> line_break c) s"
  by (simp add: no_breaks_def line_break_def)

lemma decodedLen_trailing:
  "base64DecodedLen s = (if no_breaks s = [] then 0
     else int (length (no_breaks s) div 4 * 3) - int (trailing (no_breaks s)))"
proof -
  have "count_padding (rev s) 0 = trailing (no_breaks s)"
    unfolding count_padding_filter [of "rev s"] trailing_def no_breaks_filter rev_filter
    by (subst count_padding_run) simp_all
  then show ?thesis by (simp add: base64DecodedLen_def no_breaks_filter Let_def)
qed

lemma trailing_append: "trailing r < length r \<Longrightarrow> trailing (s @ r) = trailing r"
proof -
  assume l: "trailing r < length r"
  have "\<exists>c \<in> set (rev r). c \<noteq> CHR ''=''"
  proof (rule ccontr)
    assume "\<not> (\<exists>c \<in> set (rev r). c \<noteq> CHR ''='')"
    then have "takeWhile (\<lambda>c. c = CHR ''='') (rev r) = rev r" by (simp only: takeWhile_eq_all_conv) blast
    then have "trailing r = length r" unfolding trailing_def by (simp only: length_rev)
    then show False using l by simp
  qed
  then obtain c where c: "c \<in> set (rev r)" "\<not> c = CHR ''=''" by blast
  show ?thesis unfolding trailing_def rev_append
    by (simp only: takeWhile_append1 [of c "rev r" "\<lambda>c. c = CHR ''=''", OF c])
qed

lemma padding_has_no_value: "b64_value StdAlphabet c = Some x \<Longrightarrow> c \<noteq> CHR ''=''"
  by (auto simp: b64_value_def code_of_def Let_def)

lemma trailing_quantum:
  "a \<noteq> CHR ''='' \<Longrightarrow> b \<noteq> CHR ''='' \<Longrightarrow> trailing [a, b, c, d] =
     (if d \<noteq> CHR ''='' then 0 else if c \<noteq> CHR ''='' then 1 else 2)"
  by (simp add: trailing_def)

lemma std_quanta_len:
  "std_quanta s = (bs, False) \<Longrightarrow>
   length s mod 4 = 0 \<and> trailing s \<le> 2 \<and> length bs + trailing s = length s div 4 * 3"
proof (induction s arbitrary: bs rule: std_quanta.induct)
  case (1 a b c d r)
  obtain x y where v: "b64_value StdAlphabet a = Some x" "b64_value StdAlphabet b = Some y"
    using 1(2) by (auto split: option.splits)
  note ab = padding_has_no_value [OF v(1)] padding_has_no_value [OF v(2)]
  show ?case
  proof (cases "d = CHR ''=''")
    case True
    then have r: "r = []" using 1(2) v by (auto split: if_splits option.splits)
    show ?thesis
    proof (cases "c = CHR ''=''")
      case True
      then show ?thesis using 1(2) v ab r \<open>d = CHR ''=''\<close> by (auto simp: trailing_quantum)
    next
      case False
      then obtain z where "b64_value StdAlphabet c = Some z" using 1(2) v by (auto split: option.splits if_splits)
      then show ?thesis using 1(2) v ab r \<open>d = CHR ''=''\<close> False by (auto simp: trailing_quantum)
    qed
  next
    case False
    then have c: "c \<noteq> CHR ''=''" using 1(2) v by (auto split: if_splits)
    obtain z where z: "b64_value StdAlphabet c = Some z" using 1(2) v c by (auto split: option.splits)
    obtain w where w: "b64_value StdAlphabet d = Some w" using 1(2) v c z False by (auto split: option.splits)
    obtain cs bad where r: "std_quanta r = (cs, bad)" by (metis surj_pair)
    have bs: "bs = byte1 x y # byte2 y z # byte3 z w # cs" "\<not> bad" using 1(2) v c z w False r by auto
    have IH: "length r mod 4 = 0 \<and> trailing r \<le> 2 \<and> length cs + trailing r = length r div 4 * 3"
      using "1.IH" [OF refl v c z False w] r bs(2) by auto
    show ?thesis
    proof (cases "r = []")
      case True
      then show ?thesis using IH bs ab c False by (auto simp: trailing_quantum trailing_def)
    next
      case ne: False
      then have "4 \<le> length r" using IH by (cases "length r < 4") auto
      then have "trailing ([a, b, c, d] @ r) = trailing r" using IH by (intro trailing_append) linarith
      then show ?thesis using IH bs by auto
    qed
  qed
qed (simp_all add: trailing_def)

text \<open>
  The length computed in advance is the length of the decoding. For every payload that
  \<open>base64.StdEncoding\<close> decodes, wrapped into lines in any way, \<open>base64DecodedLen\<close> is exactly
  the number of bytes of the result.
\<close>

theorem decoded_length_exact:
  assumes "std_quanta (no_breaks payload) = (bs, False)"
  shows "base64DecodedLen payload = int (length bs)"
proof (cases "no_breaks payload = []")
  case True
  then show ?thesis using assms by (simp add: decodedLen_trailing)
next
  case False
  have "length bs + trailing (no_breaks payload) = length (no_breaks payload) div 4 * 3"
    using std_quanta_len [OF assms] by blast
  then have "int (length bs) + int (trailing (no_breaks payload)) = int (length (no_breaks payload) div 4 * 3)"
    by (metis of_nat_add)
  then show ?thesis using False unfolding decodedLen_trailing by simp
qed

lemma stream_bound:
  "stream_decode kept ks s = (bs, AtEOF) \<Longrightarrow>
   length s mod 4 = 0 \<and> trailing s \<le> 2 \<and> length bs + trailing s \<le> length s div 4 * 3"
proof (induction kept ks s arbitrary: bs rule: stream_decode.induct)
  case (1 kept s)
  obtain cs bad where q: "std_quanta (take (whole s) s) = (cs, bad)" by (metis surj_pair)
  have m: "length s mod 4 = 0" "\<not> bad" "bs = cs" using 1 q by (auto split: if_splits)
  then have "take (whole s) s = s" unfolding whole_def by auto
  then show ?case using std_quanta_len [of s cs] q m by simp
next
  case (2 kept k ks s)
  let ?n = "min (4 * k) (whole s)"
  obtain as bad where q: "std_quanta (take ?n s) = (as, bad)" by (metis surj_pair)
  obtain cs e where r: "stream_decode kept ks (drop ?n s) = (cs, e)" by (metis surj_pair)
  have bs: "\<not> bad" "bs = as @ cs" "e = AtEOF" using 2(2) q r by (auto simp: Let_def split: if_splits)
  have IH: "length (drop ?n s) mod 4 = 0 \<and> trailing (drop ?n s) \<le> 2
      \<and> length cs + trailing (drop ?n s) \<le> length (drop ?n s) div 4 * 3"
    using "2.IH" [OF refl q [symmetric]] bs(1,3) r by simp
  have sq: "length (take ?n s) mod 4 = 0 \<and> trailing (take ?n s) \<le> 2
      \<and> length as + trailing (take ?n s) = length (take ?n s) div 4 * 3"
    by (rule std_quanta_len) (use q bs(1) in simp)
  obtain a b where ab: "length (take ?n s) = 4 * a" "length (drop ?n s) = 4 * b"
    using IH sq by (meson mod_0_imp_dvd dvdE)
  have len: "length s = 4 * (a + b)" using ab append_take_drop_id [of ?n s] by (metis length_append distrib_left)
  show ?case
  proof (cases "b = 0")
    case True
    then have s: "take ?n s = s" "drop ?n s = []" using ab append_take_drop_id [of ?n s] by simp_all
    then show ?thesis using sq IH bs by simp
  next
    case False
    then have "trailing (drop ?n s) < length (drop ?n s)" using IH ab by simp
    then have "trailing s = trailing (drop ?n s)" using trailing_append [of "drop ?n s" "take ?n s"] by simp
    then show ?thesis using IH sq bs ab len by simp
  qed
qed

section \<open>Reading a data: URI\<close>

lemma encode_append: "3 dvd length x \<Longrightarrow> b64_encode al (x @ y) = b64_encode al x @ b64_encode al y"
proof (induction al x rule: b64_encode.induct)
  case (4 al a b c r)
  then have "3 dvd length r" using dvd_add_right_iff [of 3 3 "length r"] by (simp add: numeral_3_eq_3)
  then show ?case using 4 by simp
qed (auto dest: dvd_imp_le)

lemma encode_length: "length (b64_encode StdAlphabet s) = (length s + 2) div 3 * 4"
proof (induction StdAlphabet s rule: b64_encode.induct)
  case (4 a b c r)
  have "(length (a # b # c # r) + 2) div 3 = Suc ((length r + 2) div 3)" by simp
  then show ?case using 4 by simp
qed simp_all

lemma encode_take:
  assumes "4 * k \<le> length (b64_encode StdAlphabet s)"
  shows "take (4 * k) (b64_encode StdAlphabet s) = b64_encode StdAlphabet (take (3 * k) s)
    \<and> drop (4 * k) (b64_encode StdAlphabet s) = b64_encode StdAlphabet (drop (3 * k) s)"
proof (cases "3 * k \<le> length s")
  case True
  then have l: "length (take (3 * k) s) = 3 * k" by simp
  have e: "b64_encode StdAlphabet s = b64_encode StdAlphabet (take (3 * k) s) @ b64_encode StdAlphabet (drop (3 * k) s)"
    using encode_append [of "take (3 * k) s" StdAlphabet "drop (3 * k) s"] l by simp
  have "length (b64_encode StdAlphabet (take (3 * k) s)) = 4 * k" unfolding encode_length l by simp
  then show ?thesis unfolding e by simp
next
  case False
  then have "(length s + 2) div 3 \<le> (3 * k + 1) div 3" by (intro div_le_mono) simp
  then have "4 * k = length (b64_encode StdAlphabet s)" using assms unfolding encode_length by simp
  then show ?thesis using False by simp
qed

lemma stream_encoded: "stream_decode kept ks (b64_encode StdAlphabet s) = (s, AtEOF)"
proof (induction ks arbitrary: s)
  case Nil
  have w: "whole (b64_encode StdAlphabet s) = length (b64_encode StdAlphabet s)"
    by (simp add: whole_def encode_length)
  show ?case using std_roundtrip [of s] by (simp add: w encode_length)
next
  case (Cons k ks)
  let ?e = "b64_encode StdAlphabet s"
  obtain j where j: "min (4 * k) (whole ?e) = 4 * j"
    unfolding whole_def min_def by (cases "4 * k \<le> length ?e div 4 * 4") (auto simp: mult.commute)
  then have "4 * j \<le> length ?e" unfolding whole_def by (metis div_times_less_eq_dividend min.cobounded2 order_trans)
  note t = encode_take [OF this]
  show ?case using Cons [of "drop (3 * j) s"] std_roundtrip [of "take (3 * j) s"] t by (simp add: j Let_def)
qed

text \<open>
  C8. Reading back a file. For every byte string, encoded in the standard base64 alphabet and
  wrapped into lines in any way, behind any header that says base64 and declares no size or the
  right one, reading the URI gives exactly those bytes and reports their number as the size, if
  they are within the cap: whatever segments the decoder works in, whatever chunks it returns
  and whatever buffers are used.
\<close>

theorem data_uri_roundtrip:
  assumes "CHR '','' \<notin> set meta" and "parse_header meta = (opt, True)"
    and "Size opt = 0 \<or> Size opt = int (length bs)" and "no_breaks payload = b64_encode StdAlphabet bs"
    and "int (length payload) \<le> int64 (maxBytes * 2)" and "int (length bs) \<le> maxBytes"
    and "0 \<notin> set chunks" and "0 \<notin> set buffers" and "length bs < length buffers"
  shows "readDataURI buffers (decoder kept segments chunks joint) (''data:'' @ meta @ '','' @ payload) maxBytes
    = Inr ((bs, AtEOF), opt\<lparr>Size := int (length bs)\<rparr>)"
proof -
  let ?uri = "''data:'' @ meta @ '','' @ payload"
  have "takeWhile (\<lambda>c. c \<noteq> CHR '','') ((''data:'' @ meta) @ '','' @ payload) = (''data:'' @ meta) @ takeWhile (\<lambda>c. c \<noteq> CHR '','') ('','' @ payload)"
    by (rule takeWhile_append2) (use assms(1) in auto)
  then have comma: "takeWhile (\<lambda>c. c \<noteq> CHR '','') ?uri = ''data:'' @ meta" by simp
  have len: "base64DecodedLen payload = int (length bs)"
  proof (cases "no_breaks payload = []")
    case True
    then have "(length bs + 2) div 3 * 4 = 0" using encode_length [of bs] assms(4) by simp
    then have "length bs = 0" by presburger
    then show ?thesis using True by (simp add: decodedLen_trailing)
  next
    case False
    have "length bs + trailing (no_breaks payload) = length (no_breaks payload) div 4 * 3"
      using std_quanta_len [of "no_breaks payload" bs] std_roundtrip [of bs] assms(4) by simp
    then have "int (length bs) + int (trailing (no_breaks payload)) = int (length (no_breaks payload) div 4 * 3)"
      by (metis of_nat_add)
    then show ?thesis using False unfolding decodedLen_trailing by simp
  qed
  define d where "d = \<lparr>ds_payload = payload, ds_cap = maxBytes, ds_declared = opt\<lparr>Size := int (length bs)\<rparr>\<rparr>"
  have opt: "(if Size opt = 0 then opt\<lparr>Size := int (length bs)\<rparr> else opt) = opt\<lparr>Size := int (length bs)\<rparr>"
    using assms(3) by (cases opt) auto
  have "drop 5 (''data:'' @ meta) = meta" "has_prefix ?uri ''data:''" "CHR '','' \<in> set ?uri" by simp_all
  then have P: "ParseFileDataURI ?uri maxBytes = Inr (d, opt\<lparr>Size := int (length bs)\<rparr>)"
    unfolding ParseFileDataURI_def comma Let_def
    using assms(2,3,5,6) opt by (cases "Size opt = 0") (simp_all add: len d_def)
  define r where "r = open_data (decoder kept segments chunks joint payload) d"
  have dec: "decoder kept segments chunks joint payload
      = \<lparr>ar_data = bs, ar_end = AtEOF, ar_chunks = chunks, ar_joint = joint\<rparr>"
    unfolding decoder_def assms(4) stream_encoded by simp
  have inv: "data_body.bounded_inv r"
    using assms(6,7) by (simp add: data_body.bounded_inv_def r_def open_data_def dec ar_ok_def d_def)
  have rest: "bounded_rest ar_data r = bs" "bounded_ending ar_data r = AtEOF"
    using assms(6) by (simp_all add: bounded_rest_def bounded_ending_def r_def open_data_def dec d_def)
  have "drain (bounded_read any_read) buffers r = (bs, AtEOF)"
    using data_body.bounded.drain_all [OF inv assms(8)] assms(9) rest by simp
  then show ?thesis unfolding readDataURI_def P by (simp add: r_def d_def)
qed

lemma stream_not_more: "snd (stream_decode kept ks s) \<noteq> More"
proof (induction ks arbitrary: s)
  case Nil
  then show ?case by (simp split: prod.split)
next
  case (Cons k ks)
  let ?n = "min (4 * k) (whole s)"
  show ?case
    by (cases "std_quanta (take ?n s)"; cases "stream_decode kept ks (drop ?n s)")
      (use Cons [of "drop ?n s"] in \<open>simp add: Let_def\<close>)
qed

text \<open>A decoder that ends with an error makes every reading end with one.\<close>

lemma any_read_end: "any_read k s = ((bs, e), s') \<Longrightarrow> (e = More \<or> e = ar_end s) \<and> ar_end s' = ar_end s"
  by (auto simp: any_read_def Let_def split: if_splits)

lemma failed_never_ends_well:
  "\<not> bd_done r \<Longrightarrow> ar_ok (bd_reader r) \<Longrightarrow> ar_end (bd_reader r) = ReadFailed x \<Longrightarrow>
   snd (drain (bounded_read any_read) buffers r) \<noteq> AtEOF"
proof (induction buffers arbitrary: r)
  case Nil
  then show ?case by simp
next
  case (Cons k ks)
  obtain bs e r' where b: "bounded_read any_read k r = ((bs, e), r')" by (metis surj_pair)
  have "(\<exists>z. e = ReadFailed z) \<or> (e = More \<and> \<not> bd_done r' \<and> ar_ok (bd_reader r') \<and> ar_end (bd_reader r') = ReadFailed x)"
  proof (cases "bd_remaining r \<le> 0")
    case True
    obtain cs y s' where p: "any_read 1 (bd_reader r) = ((cs, y), s')" by (metis surj_pair)
    have "y = More \<Longrightarrow> cs \<noteq> []" using any.read_progress [OF Cons.prems(2), of 1 cs s'] p by simp
    then show ?thesis using any_read_end [OF p] b p True Cons.prems(1,3)
      by (auto simp: bounded_read_def Let_def split: if_splits)
  next
    case False
    let ?k = "if bd_remaining r < int k then nat (bd_remaining r) else k"
    obtain cs y s' where p: "any_read ?k (bd_reader r) = ((cs, y), s')" by (metis surj_pair)
    have "y = More \<Longrightarrow> ar_ok s'" using any.read_more [OF Cons.prems(2), of ?k cs s'] p by blast
    then show ?thesis using any_read_end [OF p] b p False Cons.prems(1,3)
      by (auto simp: bounded_read_def Let_def)
  qed
  then show ?case
  proof
    assume "\<exists>z. e = ReadFailed z"
    then show ?thesis using b by auto
  next
    assume m: "e = More \<and> \<not> bd_done r' \<and> ar_ok (bd_reader r') \<and> ar_end (bd_reader r') = ReadFailed x"
    then have "snd (drain (bounded_read any_read) ks r') \<noteq> AtEOF" using Cons.IH by blast
    then show ?thesis using b m by (cases "drain (bounded_read any_read) ks r'") simp
  qed
qed

text \<open>
  C30. What is read is what was declared. If reading a URI comes to its end without an error,
  then the number of bytes read is exactly the size that was reported before the first byte,
  and it is within the cap: for every URI, well formed or not, and every behaviour of the
  decoder, including one that takes padding in the middle for the end of a segment.
\<close>

theorem data_uri_size_honest:
  assumes "readDataURI buffers (decoder kept segments chunks joint) uri maxBytes = Inr ((bs, AtEOF), opt)"
    and "0 \<notin> set chunks" and "0 \<le> maxBytes"
  shows "int (length bs) = Size opt \<and> Size opt \<le> maxBytes"
proof -
  obtain d where P: "ParseFileDataURI uri maxBytes = Inr (d, opt)"
    and D: "drain (bounded_read any_read) buffers (open_data (decoder kept segments chunks joint (ds_payload d)) d) = (bs, AtEOF)"
    using assms(1) by (auto simp: readDataURI_def split: sum.splits)
  have d: "ds_cap d = maxBytes" "ds_declared d = opt" "Size opt = base64DecodedLen (ds_payload d)" "Size opt \<le> maxBytes"
    using P by (auto simp: ParseFileDataURI_def Let_def split: if_splits prod.splits)
  obtain cs e where s: "stream_decode kept segments (no_breaks (ds_payload d)) = (cs, e)" by (metis surj_pair)
  define r where "r = open_data (decoder kept segments chunks joint (ds_payload d)) d"
  have r: "\<not> bd_done r" "ar_ok (bd_reader r) \<or> e = More" "ar_end (bd_reader r) = e" "ar_data (bd_reader r) = cs"
    "bd_remaining r = maxBytes" "bd_read r = 0" "bd_declared r = opt"
    using assms(2) d by (simp_all add: r_def open_data_def decoder_def s ar_ok_def)
  have ne: "e \<noteq> More"
    using stream_not_more [of kept segments "no_breaks (ds_payload d)"] s by simp
  show ?thesis
  proof (cases e)
    case (ReadFailed x)
    then show ?thesis using failed_never_ends_well [of r x buffers] r ne D by (simp add: r_def)
  next
    case AtEOF
    have inv: "data_body.bounded_inv r" using r ne AtEOF assms(3) by (simp add: data_body.bounded_inv_def)
    have dr: "drain (bounded_read any_read) buffers r = (bs, AtEOF)" using D by (simp add: r_def)
    have "bs = bounded_rest ar_data r" "bounded_ending ar_data r = AtEOF"
      using data_body.bounded.drain_prefix [OF inv, of buffers] unfolding dr by simp_all
    then have b: "bs = cs" "0 < Size opt \<longrightarrow> int (length cs) = Size opt"
      using r by (auto simp: bounded_rest_def bounded_ending_def split: if_splits)
    have "int (length cs) \<le> Size opt"
    proof -
      have "length cs + trailing (no_breaks (ds_payload d)) \<le> length (no_breaks (ds_payload d)) div 4 * 3"
        using stream_bound s AtEOF by blast
      then have "int (length cs) + int (trailing (no_breaks (ds_payload d))) \<le> int (length (no_breaks (ds_payload d)) div 4 * 3)"
        by (metis of_nat_add of_nat_le_iff)
      then show ?thesis unfolding d(3) decodedLen_trailing by (auto simp: trailing_def)
    qed
    then show ?thesis using b d(4) by (cases "0 < Size opt") auto
  qed (use ne in simp)
qed

section \<open>Corners\<close>

text \<open>The doubled cap wraps around: with a cap of at least 2^62 every URI is refused as too large.\<close>

theorem huge_cap_refuses_all:
  assumes "2 ^ 62 \<le> maxBytes" and "maxBytes < 2 ^ 63" and "ParseFileDataURI uri maxBytes = Inr x"
  shows False
proof -
  have "(maxBytes * 2 + 2 ^ 63) mod 2 ^ 64 = maxBytes * 2 + 2 ^ 63 - 2 ^ 64"
  proof -
    have "(maxBytes * 2 + 2 ^ 63) mod 2 ^ 64 = (maxBytes * 2 + 2 ^ 63 - 2 ^ 64) mod (2 ^ 64 :: int)"
      by (metis minus_mod_self2)
    also have "\<dots> = maxBytes * 2 + 2 ^ 63 - 2 ^ 64" by (rule mod_pos_pos_trivial) (use assms(1,2) in auto)
    finally show ?thesis .
  qed
  then have "int64 (maxBytes * 2) < 0" using assms(1,2) by (simp add: int64_def)
  then show ?thesis using assms(3) by (auto simp: ParseFileDataURI_def Let_def split: if_splits prod.splits)
qed

text \<open>The reported media type keeps its parameter name.\<close>

theorem mime_keeps_prefix:
  "trim_space raw = ''mime='' @ t \<Longrightarrow> MIMEType (fst (header_part raw st)) = ''mime='' @ t"
  by (cases st) (auto simp: header_part_def Let_def)

section \<open>Witnesses\<close>

theorem decoded_length_exact_witness: "base64DecodedLen (''QUI'' @ [CHR 0x0A] @ ''='') = 2"
proof -
  have v: "b64_value StdAlphabet CHR ''Q'' = Some 16" "b64_value StdAlphabet CHR ''U'' = Some 20"
    "b64_value StdAlphabet CHR ''I'' = Some 8"
    by (simp_all add: b64_value_def code_of_def)
  have "std_quanta (no_breaks (''QUI'' @ [CHR 0x0A] @ ''='')) = ([byte1 16 20, byte2 20 8], False)"
    by (simp add: no_breaks_def v)
  from decoded_length_exact [OF this] show ?thesis by simp
qed

lemma demo_header: "parse_header ''base64'' = (no_option, True)"
  by code_simp

theorem data_uri_roundtrip_witness:
  "readDataURI [1, 1, 1] (decoder 0 [1] [1] False)
     (''data:'' @ ''base64'' @ '','' @ b64_encode StdAlphabet ''AB'') 10
   = Inr ((''AB'', AtEOF), no_option\<lparr>Size := 2\<rparr>)"
proof -
  have l: "length (b64_encode StdAlphabet ''AB'') = 4" by (simp add: encode_length)
  show ?thesis
    using data_uri_roundtrip [OF _ demo_header _ no_breaks_encode, of "''AB''" 10 "[1]" "[1, 1, 1]" 0 "[1]" False]
    unfolding l by (simp add: no_option_def int64_def del: b64_encode.simps)
qed

lemma demo_read:
  "readDataURI [1, 1, 1] (decoder 0 [] [] False) ''data:base64,QUI='' 10
   = Inr (([byte1 16 20, byte2 20 8], AtEOF), no_option\<lparr>Size := 2\<rparr>)"
proof -
  have v: "b64_value StdAlphabet CHR ''Q'' = Some 16" "b64_value StdAlphabet CHR ''U'' = Some 20"
    "b64_value StdAlphabet CHR ''I'' = Some 8"
    by (simp_all add: b64_value_def code_of_def)
  have l: "base64DecodedLen ''QUI='' = 2"
    by (simp add: base64DecodedLen_def line_break_def)
  have p: "ParseFileDataURI ''data:base64,QUI='' 10
      = Inr (\<lparr>ds_payload = ''QUI='', ds_cap = 10, ds_declared = no_option\<lparr>Size := 2\<rparr>\<rparr>, no_option\<lparr>Size := 2\<rparr>)"
    using demo_header by (simp add: ParseFileDataURI_def l no_option_def int64_def Let_def)
  have d: "decoder 0 [] [] False ''QUI='' = \<lparr>ar_data = [byte1 16 20, byte2 20 8], ar_end = AtEOF, ar_chunks = [], ar_joint = False\<rparr>"
    by (simp add: decoder_def no_breaks_def whole_def v)
  show ?thesis
    by (simp add: readDataURI_def p d open_data_def bounded_read_def any_read_def size_mismatch_def no_option_def)
qed

theorem data_uri_size_honest_witness: "int (length [byte1 16 20, byte2 20 8]) = 2"
  using data_uri_size_honest [OF demo_read] by (simp add: no_option_def)

end
