(* ===== verification/UploadSource.thy ===== *)
theory UploadSource
  imports UploadHttp FileRelay DataUri CapsBuilder
begin

text \<open>
  Where the bytes of an upload come from and where those of a download go:
  \<open>transfer/upload_source.go\<close> (the source dialects, their availability per transport and the
  resolver), \<open>transfer/chatgpt_upload.go\<close> (the host's file object), \<open>transfer/wrap_name.go\<close>
  and \<open>transfer/download_sink.go\<close>. URL parsing, the relay's world outside and the generic
  profiles of the canimcp library are arguments.
\<close>

section \<open>Source modes\<close>

definition SourcePath :: string where "SourcePath = ''path''"
definition SourceMint :: string where "SourceMint = ''mint''"
definition SourceURL :: string where "SourceURL = ''url''"
definition SourceData :: string where "SourceData = ''data''"

lemmas source_mode_defs = SourcePath_def SourceMint_def SourceURL_def SourceData_def

record upload_source =
  us_Mode :: string
  us_Path :: string
  us_URL :: string
  us_Data :: string

definition SourceModeEnumFromFeatures :: "feature_set \<Rightarrow> string list" where
  "SourceModeEnumFromFeatures fs =
     map fst (filter (\<lambda>(mode, feat). fs_has fs feat)
       [(SourcePath, FeatSourcePath), (SourceMint, FeatSourceMint), (SourceURL, FeatSourceURL), (SourceData, FeatSourceData)])"

definition TransportKindFromFeatures :: "feature_set \<Rightarrow> string" where
  "TransportKindFromFeatures fs =
     (if fs_has fs FeatSourcePath then TransportStdio
      else if fs_has fs FeatSourceMint then TransportHTTP
      else if fs_has fs FeatSourceURL \<or> fs_has fs FeatSourceData then TransportOpenAI
      else TransportHTTP)"

text \<open>\<open>generic\<close> gives the features of the library's generic profile of a transport.\<close>

definition featuresForTransport :: "(string \<Rightarrow> feature_set) \<Rightarrow> string \<Rightarrow> feature_set" where
  "featuresForTransport generic t = fold (\<lambda>(f, on) m. gset f on m) (generic t) []"

definition SourceModeEnumValues :: "(string \<Rightarrow> feature_set) \<Rightarrow> string \<Rightarrow> string list" where
  "SourceModeEnumValues generic t =
     (if t = TransportStdio \<or> t = TransportHTTP \<or> t = TransportOpenAI
      then SourceModeEnumFromFeatures (featuresForTransport generic t) else [])"

definition Available :: "upload_source \<Rightarrow> string \<Rightarrow> bool" where
  "Available s t =
     (if us_Mode s = SourcePath then t = TransportStdio
      else if us_Mode s = SourceMint then t = TransportHTTP
      else if us_Mode s = SourceURL \<or> us_Mode s = SourceData then t = TransportOpenAI
      else False)"

datatype source_error =
    MissingPayload string
  | UnknownMode string
  | NotAvailable string string
  | WrongMode string
  | NotConfigured
  | MintFailed
  | RelayError relay_error
  | DataError data_error

definition Validate :: "upload_source \<Rightarrow> string \<Rightarrow> source_error option" where
  "Validate s t =
     (let coherent =
        (if us_Mode s = SourcePath then (if us_Path s = [] then Some (MissingPayload SourcePath) else None)
         else if us_Mode s = SourceMint then None
         else if us_Mode s = SourceURL then (if us_URL s = [] then Some (MissingPayload SourceURL) else None)
         else if us_Mode s = SourceData then (if us_Data s = [] then Some (MissingPayload SourceData) else None)
         else Some (UnknownMode (us_Mode s)))
      in case coherent of
           Some e \<Rightarrow> Some e
         | None \<Rightarrow> if \<not> Available s t then Some (NotAvailable (us_Mode s) t) else None)"

section \<open>The resolver\<close>

record 'r source_resolver =
  sr_Transport :: string
  sr_HTTPUpload :: "'r upload option"
  sr_RelayAllowedHosts :: "string list"
  sr_RelayMaxBytes :: int
  sr_RelayHTTPClient :: bool \<comment> \<open>whether a client is given\<close>

definition MintURL ::
  "('e, string) result \<Rightarrow> string \<Rightarrow> time \<Rightarrow> time \<Rightarrow> go_context \<Rightarrow> upload_source \<Rightarrow> string \<Rightarrow> duration \<Rightarrow>
   'r source_resolver \<Rightarrow> (source_error, string) result \<times> 'r source_resolver" where
  "MintURL listen token t1 t2 ctx s name ttl r =
     (case Validate s (sr_Transport r) of
        Some e \<Rightarrow> (Inl e, r)
      | None \<Rightarrow>
          if us_Mode s \<noteq> SourceMint then (Inl (WrongMode (us_Mode s)), r)
          else (case sr_HTTPUpload r of
             None \<Rightarrow> (Inl NotConfigured, r)
           | Some cu \<Rightarrow>
               (case up_Mint listen token t1 t2 ctx name ttl cu of
                  (url, cu') \<Rightarrow> (if url = [] then Inl MintFailed else Inr url, r\<lparr>sr_HTTPUpload := Some cu'\<rparr>))))"

text \<open>\<open>url_parts\<close> is scheme, host and path of a parsed URL.\<close>

definition RelayURLName :: "(string \<Rightarrow> (string \<times> string \<times> string) option) \<Rightarrow> string \<Rightarrow> string" where
  "RelayURLName url_parts raw =
     (case url_parts raw of
        None \<Rightarrow> []
      | Some (scheme, host, path) \<Rightarrow>
          if host = [] \<or> scheme = [] then []
          else if path_base path = [] \<or> path_base path = ''.'' \<or> path_base path = ''/'' then []
          else path_base path)"

text \<open>The owned reader: the relay's capped body, or the reader over the payload of a data: URI.\<close>

datatype 's source_body = Relayed "int \<times> 's" | Decoded data_source

definition OpenBytes ::
  "url_parser \<Rightarrow> (string \<Rightarrow> (string \<times> string \<times> string) option) \<Rightarrow> (string \<Rightarrow> bool) \<Rightarrow> 's relay_env \<Rightarrow>
   'r source_resolver \<Rightarrow> upload_source \<Rightarrow>
   (parsed_url \<times> ip option) list \<times> (source_error, 's source_body \<times> int \<times> string) result" where
  "OpenBytes url_parse url_parts request_ok env r s =
     (case Validate s (sr_Transport r) of
        Some e \<Rightarrow> ([], Inl e)
      | None \<Rightarrow>
          let maxBytes = (if sr_RelayMaxBytes r = 0 then EffectiveRelayMaxBytes 0 else sr_RelayMaxBytes r)
          in if us_Mode s = SourceURL then
               (let res = OpenFileURL url_parse request_ok env (us_URL s)
                      \<lparr>ro_injected = sr_RelayHTTPClient r, ro_hosts = sr_RelayAllowedHosts r, ro_max = maxBytes,
                       ro_timeout = 2 * minute\<rparr>
                in (rl_log res, case rl_out res of
                      Inl e \<Rightarrow> Inl (RelayError e)
                    | Inr (body, sz) \<Rightarrow> Inr (Relayed body, sz, RelayURLName url_parts (us_URL s))))
             else if us_Mode s = SourceData then
               ([], case ParseFileDataURI (us_Data s) maxBytes of
                      Inl e \<Rightarrow> Inl (DataError e)
                    | Inr (reader, opt) \<Rightarrow> Inr (Decoded reader, Size opt, Name opt))
             else ([], Inl (WrongMode (us_Mode s))))"

section \<open>The host's file object\<close>

record chatgpt_file_input =
  fi_DownloadURL :: string
  fi_FileID :: string
  fi_MIMEType :: string
  fi_FileName :: string

definition Reference :: "chatgpt_file_input \<Rightarrow> file_reference" where
  "Reference inp =
     \<lparr>fr_download_url = fi_DownloadURL inp, fr_file_id = fi_FileID inp, fr_mime = fi_MIMEType inp,
      fr_name = fi_FileName inp\<rparr>"

datatype file_input_error = BarePath | BadShape

text \<open>
  Decoding the struct: members of unknown names are skipped, names match regardless of case,
  \<open>null\<close> leaves a field as it is, and any other value than a string fails.
\<close>

definition input_member :: "string \<times> json \<Rightarrow> chatgpt_file_input option \<Rightarrow> chatgpt_file_input option" where
  "input_member e acc =
     (case acc of
        None \<Rightarrow> None
      | Some inp \<Rightarrow>
          (let field = to_lower (fst e); known = field \<in> {''download_url'', ''file_id'', ''mime_type'', ''file_name''}
           in if \<not> known then Some inp
              else (case snd e of
                 JNull \<Rightarrow> Some inp
               | JStr s \<Rightarrow> Some
                   (if field = ''download_url'' then inp\<lparr>fi_DownloadURL := s\<rparr>
                    else if field = ''file_id'' then inp\<lparr>fi_FileID := s\<rparr>
                    else if field = ''mime_type'' then inp\<lparr>fi_MIMEType := s\<rparr>
                    else inp\<lparr>fi_FileName := s\<rparr>)
               | _ \<Rightarrow> None)))"

definition no_input :: chatgpt_file_input where
  "no_input = \<lparr>fi_DownloadURL = [], fi_FileID = [], fi_MIMEType = [], fi_FileName = []\<rparr>"

text \<open>\<open>null\<close> decodes into a string, too.\<close>

definition UnmarshalFileInput :: "json \<Rightarrow> (file_input_error, chatgpt_file_input) result" where
  "UnmarshalFileInput b =
     (case b of
        JStr s \<Rightarrow> Inl BarePath
      | JNull \<Rightarrow> Inl BarePath
      | JObj ms \<Rightarrow> (case fold input_member ms (Some no_input) of None \<Rightarrow> Inl BadShape | Some inp \<Rightarrow> Inr inp)
      | _ \<Rightarrow> Inl BadShape)"

definition ChatGPTOpenTimeout :: duration where "ChatGPTOpenTimeout = 2 * minute"

text \<open>The budget at 64 bits: durations count nanoseconds.\<close>

definition sync_rate :: int where "sync_rate = 2 * 2 ^ 20"

definition SyncUploadBudget :: "64 word \<Rightarrow> 64 word" where
  "SyncUploadBudget sz =
     (let base = 2 * word_of_int minute
      in if sint sz \<le> 0 then base
         else
           let scaled = word_of_int (sint sz div sync_rate + 1) * word_of_int second;
               scaled' = (if 30 * minute < sint scaled then 30 * word_of_int minute else scaled)
           in base + scaled')"

definition ChatGPTFileMeta :: gdata where
  "ChatGPTFileMeta = [(''openai/fileParams'', GStrs [''file''])]"

definition chatgptDefaultRelayHosts :: "string list" where
  "chatgptDefaultRelayHosts = [''openai.com'', ''oaiusercontent.com'']"

definition chatgptRelayOptions :: "duration \<Rightarrow> int \<Rightarrow> string list \<Rightarrow> relay_options" where
  "chatgptRelayOptions timeout maxBytes relayHosts =
     \<lparr>ro_injected = False, ro_hosts = (if relayHosts = [] then chatgptDefaultRelayHosts else relayHosts),
      ro_max = EffectiveRelayMaxBytes maxBytes, ro_timeout = timeout\<rparr>"

definition validateChatGPTFileInput :: "url_parser \<Rightarrow> chatgpt_file_input \<Rightarrow> string option" where
  "validateChatGPTFileInput url_parse inp =
     (if trim_space (fi_FileID inp) = [] then Some ''file.file_id is required''
      else if trim_space (fi_DownloadURL inp) = [] then Some ''file.download_url is required''
      else if bad_https_url url_parse (fi_DownloadURL inp) then Some ''file.download_url is invalid''
      else if bad_file_name (fi_FileName inp) then Some ''invalid file_name''
      else None)"

datatype file_open_error = InputError string | OpenError relay_error

definition OpenChatGPTFileInput ::
  "url_parser \<Rightarrow> (string \<Rightarrow> bool) \<Rightarrow> 's relay_env \<Rightarrow> chatgpt_file_input \<Rightarrow> duration \<Rightarrow> int \<Rightarrow> string list \<Rightarrow> bool \<Rightarrow>
   (parsed_url \<times> ip option) list \<times> (file_open_error, file_reference \<times> (int \<times> 's) \<times> int) result" where
  "OpenChatGPTFileInput url_parse request_ok env inp timeout maxBytes relayHosts client =
     (case validateChatGPTFileInput url_parse inp of
        Some e \<Rightarrow> ([], Inl (InputError e))
      | None \<Rightarrow>
          let res = OpenChatGPTFile url_parse request_ok env (Reference inp)
                ((chatgptRelayOptions timeout maxBytes relayHosts)\<lparr>ro_injected := client\<rparr>)
          in (rl_log res, case rl_out res of
                Inl e \<Rightarrow> Inl (OpenError e)
              | Inr (body, sz) \<Rightarrow> Inr (Reference inp, body, sz)))"

section \<open>Routing\<close>

lemma mode_distinct [simp]:
  "SourcePath \<noteq> SourceMint" "SourcePath \<noteq> SourceURL" "SourcePath \<noteq> SourceData" "SourceMint \<noteq> SourcePath"
  "SourceMint \<noteq> SourceURL" "SourceMint \<noteq> SourceData" "SourceURL \<noteq> SourcePath" "SourceURL \<noteq> SourceMint"
  "SourceURL \<noteq> SourceData" "SourceData \<noteq> SourcePath" "SourceData \<noteq> SourceMint" "SourceData \<noteq> SourceURL"
  by (simp_all add: source_mode_defs)

lemma transport_distinct [simp]:
  "TransportStdio \<noteq> TransportHTTP" "TransportStdio \<noteq> TransportOpenAI" "TransportHTTP \<noteq> TransportStdio"
  "TransportHTTP \<noteq> TransportOpenAI" "TransportOpenAI \<noteq> TransportStdio" "TransportOpenAI \<noteq> TransportHTTP"
  by (simp_all add: transport_defs)

text \<open>The payload of a source under its mode; a minting source needs none.\<close>

definition payload_of :: "upload_source \<Rightarrow> string option" where
  "payload_of s =
     (if us_Mode s = SourcePath then Some (us_Path s)
      else if us_Mode s = SourceURL then Some (us_URL s)
      else if us_Mode s = SourceData then Some (us_Data s) else None)"

lemma validate_iff: "Validate s t = None \<longleftrightarrow> Available s t \<and> payload_of s \<noteq> Some []"
  by (simp add: Validate_def Available_def payload_of_def)

lemma available_mint: "Available s t \<Longrightarrow> us_Mode s = SourceMint \<longleftrightarrow> t = TransportHTTP"
  by (auto simp: Available_def split: if_splits)

lemma available_open: "Available s t \<Longrightarrow> us_Mode s = SourceURL \<or> us_Mode s = SourceData \<longleftrightarrow> t = TransportOpenAI"
  by (auto simp: Available_def split: if_splits)

text \<open>
  Minting for a source, on every branch. A URL comes only from a valid minting source on the
  HTTP transport with a configured endpoint; the coordinator then holds an unused token under
  it that no task is bound to and that lives for the requested time or the default. A refusal
  before the mint leaves the resolver as it is.
\<close>

theorem mint_source_outcome:
  "case MintURL listen token t1 t2 ctx s name ttl r of
     (Inr url, r') \<Rightarrow>
       url \<noteq> [] \<and> sr_Transport r = TransportHTTP \<and> us_Mode s = SourceMint
       \<and> (\<exists>cu cu' tok. sr_HTTPUpload r = Some cu \<and> r' = r\<lparr>sr_HTTPUpload := Some cu'\<rparr>
            \<and> gget (cu_tokens cu') token = Some tok \<and> \<not> tn_used tok \<and> tn_handle tok = []
            \<and> tn_expires tok = t2 + (if ttl \<le> 0 then DefaultHTTPUploadTTL else ttl)
            \<and> tn_jwt tok = cred_From ctx \<and> url = URLFor ''upload'' token (cu_loopback cu'))
   | (Inl e, r') \<Rightarrow>
       (case Validate s (sr_Transport r) of
          Some e' \<Rightarrow> e = e' \<and> r' = r
        | None \<Rightarrow>
            if sr_Transport r \<noteq> TransportHTTP then e = WrongMode (us_Mode s) \<and> r' = r
            else if sr_HTTPUpload r = None then e = NotConfigured \<and> r' = r
            else e = MintFailed)"
proof (cases "Validate s (sr_Transport r)")
  case (Some e)
  then show ?thesis by (simp add: MintURL_def)
next
  case None
  then have mode: "us_Mode s = SourceMint \<longleftrightarrow> sr_Transport r = TransportHTTP"
    using available_mint by (simp add: validate_iff)
  show ?thesis
  proof (cases "us_Mode s = SourceMint \<and> sr_HTTPUpload r \<noteq> None")
    case False
    then show ?thesis using None mode by (auto simp: MintURL_def)
  next
    case True
    then obtain cu where cu: "sr_HTTPUpload r = Some cu" by auto
    obtain url cu' where mint: "up_Mint listen token t1 t2 ctx name ttl cu = (url, cu')" by fastforce
    have "url \<noteq> [] \<longrightarrow> (\<exists>tok. gget (cu_tokens cu') token = Some tok \<and> \<not> tn_used tok \<and> tn_handle tok = []
        \<and> tn_expires tok = t2 + (if ttl \<le> 0 then DefaultHTTPUploadTTL else ttl)
        \<and> tn_jwt tok = cred_From ctx) \<and> url = URLFor ''upload'' token (cu_loopback cu')"
    proof (cases "EnsureLoopback listen (cu_loopback cu)")
      case (Pair res lb)
      obtain err started where "res = (err, started)" by (cases res)
      then show ?thesis using mint by (cases err) (auto simp: up_Mint_def Pair Let_def up_prune_def split: prod.splits)
    qed
    then show ?thesis using True None mode cu mint by (auto simp: MintURL_def)
  qed
qed

text \<open>
  What the resolver relies on of the generic profiles: each transport has exactly the features
  of its own mechanism among the four source features.
\<close>

definition mechanism_profiles :: "(string \<Rightarrow> feature_set) \<Rightarrow> bool" where
  "mechanism_profiles generic \<longleftrightarrow>
     (\<forall>t \<in> {TransportStdio, TransportHTTP, TransportOpenAI}. gok (generic t)
        \<and> fs_has (generic t) FeatSourcePath = (t = TransportStdio)
        \<and> fs_has (generic t) FeatSourceMint = (t = TransportHTTP)
        \<and> fs_has (generic t) FeatSourceURL = (t = TransportOpenAI)
        \<and> fs_has (generic t) FeatSourceData = (t = TransportOpenAI))"

lemma features_copied: "gok (generic t) \<Longrightarrow> fs_has (featuresForTransport generic t) f = fs_has (generic t) f"
  using fs_clone_has [of "generic t" f] by (simp add: featuresForTransport_def fs_clone_def)

lemma enum_of_flags:
  "SourceModeEnumFromFeatures fs =
     (if fs_has fs FeatSourcePath then [SourcePath] else []) @ (if fs_has fs FeatSourceMint then [SourceMint] else [])
     @ (if fs_has fs FeatSourceURL then [SourceURL] else []) @ (if fs_has fs FeatSourceData then [SourceData] else [])"
  by (simp add: SourceModeEnumFromFeatures_def)


text \<open>What the two ways of opening hand over.\<close>

lemma opened_url:
  assumes "rl_out (OpenFileURL url_parse request_ok env raw opts) = Inr ((left, b), sz)" and "ro_max opts \<noteq> 0"
  shows "left = ro_max opts \<and> 0 \<le> sz \<and> sz \<le> ro_max opts"
proof (cases rule: OpenFileURL_cases [of url_parse request_ok env raw opts])
  case (stopped e)
  then show ?thesis using assms by simp
next
  case (fetched u log res)
  show ?thesis
  proof (cases res)
    case (Inl e)
    then show ?thesis using fetched(6) assms by simp
  next
    case (Inr reply)
    then show ?thesis using fetched(6) assms by (simp add: Let_def split: if_split_asm)
  qed
qed

lemma parsed_data:
  assumes "ParseFileDataURI uri limit = Inr (src, opt)"
  shows "Size opt \<le> limit \<and> ds_cap src = limit \<and> Size opt = base64DecodedLen (ds_payload src) \<and> ds_declared src = opt"
proof -
  obtain o1 b64 where h: "parse_header (drop 5 (take (length (takeWhile (\<lambda>c. c \<noteq> CHR '','') uri)) uri)) = (o1, b64)"
    by fastforce
  show ?thesis using assms unfolding ParseFileDataURI_def Let_def h
    by (simp split: if_split_asm, (elim conjE, hypsubst, simp)+)
qed

lemma open_bytes_cases:
  assumes "limit = (if sr_RelayMaxBytes r = 0 then defaultRelayMaxBytes else sr_RelayMaxBytes r)"
  shows "case OpenBytes url_parse url_parts request_ok env r s of
      (log, Inr (body, sz, name)) \<Rightarrow>
        Validate s (sr_Transport r) = None \<and> sr_Transport r = TransportOpenAI \<and> sz \<le> limit
        \<and> (case body of
             Relayed (left, b) \<Rightarrow> us_Mode s = SourceURL \<and> left = limit \<and> 0 \<le> sz \<and> name = RelayURLName url_parts (us_URL s)
           | Decoded src \<Rightarrow> us_Mode s = SourceData \<and> log = [] \<and> ds_cap src = limit
               \<and> sz = base64DecodedLen (ds_payload src) \<and> name = Name (ds_declared src))
    | (log, Inl e) \<Rightarrow>
        (case Validate s (sr_Transport r) of
           Some e' \<Rightarrow> e = e' \<and> log = []
         | None \<Rightarrow> if sr_Transport r = TransportOpenAI then us_Mode s = SourceURL \<or> log = []
             else e = WrongMode (us_Mode s) \<and> log = [])"
proof (cases "Validate s (sr_Transport r)")
  case (Some e)
  then show ?thesis by (simp add: OpenBytes_def)
next
  case None
  note valid = this
  have tr: "us_Mode s = SourceURL \<or> us_Mode s = SourceData \<longleftrightarrow> sr_Transport r = TransportOpenAI"
    using valid available_open by (simp add: validate_iff)
  have lim: "limit = (if sr_RelayMaxBytes r = 0 then EffectiveRelayMaxBytes 0 else sr_RelayMaxBytes r)"
    by (simp add: assms EffectiveRelayMaxBytes_def)
  have pos: "limit \<noteq> 0" by (simp add: assms defaultRelayMaxBytes_def)
  consider (url) "us_Mode s = SourceURL" | (data) "us_Mode s = SourceData"
    | (other) "us_Mode s \<noteq> SourceURL" "us_Mode s \<noteq> SourceData" by blast
  then show ?thesis
  proof cases
    case url
    let ?opts = "\<lparr>ro_injected = sr_RelayHTTPClient r, ro_hosts = sr_RelayAllowedHosts r, ro_max = limit, ro_timeout = 2 * minute\<rparr>"
    let ?res = "OpenFileURL url_parse request_ok env (us_URL s) ?opts"
    have res: "OpenBytes url_parse url_parts request_ok env r s = (rl_log ?res, case rl_out ?res of
        Inl e \<Rightarrow> Inl (RelayError e) | Inr (body, sz) \<Rightarrow> Inr (Relayed body, sz, RelayURLName url_parts (us_URL s)))"
      by (simp add: OpenBytes_def valid url lim Let_def)
    have body: "left = limit \<and> 0 \<le> sz \<and> sz \<le> limit" if "rl_out ?res = Inr ((left, b), sz)" for left b sz
      using opened_url [OF that] pos by simp
    show ?thesis
    proof (cases "rl_out ?res")
      case (Inl e)
      then show ?thesis using valid tr url by (simp add: res)
    next
      case (Inr x)
      then obtain left b sz where "x = ((left, b), sz)" by (cases x) auto
      then show ?thesis using Inr body valid tr url by (simp add: res)
    qed
  next
    case data
    have res: "OpenBytes url_parse url_parts request_ok env r s = ([], case ParseFileDataURI (us_Data s) limit of
        Inl e \<Rightarrow> Inl (DataError e) | Inr (reader, opt) \<Rightarrow> Inr (Decoded reader, Size opt, Name opt))"
      by (simp add: OpenBytes_def valid data lim Let_def)
    have tunnel: "sr_Transport r = TransportOpenAI" using tr data by simp
    show ?thesis
    proof (cases "ParseFileDataURI (us_Data s) limit")
      case (Inl e)
      then show ?thesis by (simp add: res valid [unfolded tunnel] tunnel)
    next
      case (Inr x)
      obtain src opt where x: "x = (src, opt)" by (cases x)
      show ?thesis using parsed_data [OF Inr [unfolded x]] by (simp add: res Inr x valid [unfolded tunnel] tunnel data)
    qed
  next
    case other
    then show ?thesis using valid tr by (simp add: OpenBytes_def Let_def)
  qed
qed

text \<open>
  C39. Opening the bytes of a source. Bytes come only from a valid url or data source on the
  tunnel transport; no request is made for anything but a url source; the reader is the relay's
  body capped at the configured limit (or the default one) with a declared size within it, or
  the reader over the payload whose declared size is the decoded one and within the limit.
\<close>

theorem open_bytes_outcome:
  "let limit = (if sr_RelayMaxBytes r = 0 then defaultRelayMaxBytes else sr_RelayMaxBytes r) in
    case OpenBytes url_parse url_parts request_ok env r s of
      (log, Inr (body, sz, name)) \<Rightarrow>
        Validate s (sr_Transport r) = None \<and> sr_Transport r = TransportOpenAI \<and> sz \<le> limit
        \<and> (case body of
             Relayed (left, b) \<Rightarrow> us_Mode s = SourceURL \<and> left = limit \<and> 0 \<le> sz \<and> name = RelayURLName url_parts (us_URL s)
           | Decoded src \<Rightarrow> us_Mode s = SourceData \<and> log = [] \<and> ds_cap src = limit
               \<and> sz = base64DecodedLen (ds_payload src) \<and> name = Name (ds_declared src))
    | (log, Inl e) \<Rightarrow>
        (case Validate s (sr_Transport r) of
           Some e' \<Rightarrow> e = e' \<and> log = []
         | None \<Rightarrow> if sr_Transport r = TransportOpenAI then us_Mode s = SourceURL \<or> log = []
             else e = WrongMode (us_Mode s) \<and> log = [])"
  unfolding Let_def by (rule open_bytes_cases [OF refl])

section \<open>The file object\<close>

text \<open>
  The two checks of a file object agree, and opening one is the relay's fetch. The field
  check of the tool accepts exactly what the relay's own validation accepts, so a refusal is
  always the field-qualified one; an accepted object is fetched under the operator's hosts, or
  the vendor's when there are none, plus a vendor blob host of the URL itself, with a positive
  cap.
\<close>

theorem file_input_checks_agree:
  "(validateChatGPTFileInput url_parse inp = None
      \<longleftrightarrow> ValidateChatGPTFileReference url_parse (Reference inp) (EffectiveRelayMaxBytes maxBytes) = None)
   \<and> OpenChatGPTFileInput url_parse request_ok env inp timeout maxBytes relayHosts client =
      (case validateChatGPTFileInput url_parse inp of
         Some e \<Rightarrow> ([], Inl (InputError e))
       | None \<Rightarrow>
           let u = the (url_parse (fi_DownloadURL inp));
               hosts = (if relayHosts = [] then chatgptDefaultRelayHosts else relayHosts)
                 @ (if chatgptBlobHostAllowed (pu_hostname u) then [pu_hostname u] else []);
               res = OpenFileURL url_parse request_ok env (fi_DownloadURL inp)
                 \<lparr>ro_injected = client, ro_hosts = hosts, ro_max = EffectiveRelayMaxBytes maxBytes, ro_timeout = timeout\<rparr>
           in (rl_log res, case rl_out res of
                 Inl e \<Rightarrow> Inl (OpenError e)
               | Inr (body, sz) \<Rightarrow> Inr (Reference inp, body, sz)))"
proof -
  have pos: "0 < EffectiveRelayMaxBytes maxBytes" by (simp add: EffectiveRelayMaxBytes_def defaultRelayMaxBytes_def)
  then have same: "validateChatGPTFileInput url_parse inp = None
      \<longleftrightarrow> ValidateChatGPTFileReference url_parse (Reference inp) (EffectiveRelayMaxBytes maxBytes) = None"
    by (simp add: validateChatGPTFileInput_def ValidateChatGPTFileReference_def Reference_def validateHTTPFileURL_def)
  show ?thesis
  proof (cases "validateChatGPTFileInput url_parse inp")
    case (Some e)
    then show ?thesis using same by (simp add: OpenChatGPTFileInput_def)
  next
    case None
    then have ok: "ValidateChatGPTFileReference url_parse (Reference inp) (EffectiveRelayMaxBytes maxBytes) = None"
      using same by simp
    obtain u where u: "url_parse (fi_DownloadURL inp) = Some u" "pu_hostname u \<noteq> []"
      using None by (auto simp: validateChatGPTFileInput_def bad_https_url_def split: if_splits option.splits)
    have "OpenChatGPTFile url_parse request_ok env (Reference inp)
          ((chatgptRelayOptions timeout maxBytes relayHosts)\<lparr>ro_injected := client\<rparr>)
        = OpenFileURL url_parse request_ok env (fi_DownloadURL inp)
            \<lparr>ro_injected = client, ro_hosts = (if relayHosts = [] then chatgptDefaultRelayHosts else relayHosts)
               @ (if chatgptBlobHostAllowed (pu_hostname u) then [pu_hostname u] else []),
             ro_max = EffectiveRelayMaxBytes maxBytes, ro_timeout = timeout\<rparr>"
      using ok pos u by (simp add: OpenChatGPTFile_def chatgptRelayOptions_def Reference_def Let_def)
    then show ?thesis using same None u(1) by (simp add: OpenChatGPTFileInput_def Let_def)
  qed
qed

text \<open>
  A \<open>null\<close> file object is refused as a bare path, since \<open>null\<close> decodes into a string without an
  error.
\<close>

lemma null_file_is_bare_path: "UnmarshalFileInput JNull = Inl BarePath"
  by (simp add: UnmarshalFileInput_def)

section \<open>The budget\<close>

lemma small_word: "- (2 ^ 63) \<le> k \<Longrightarrow> k < 2 ^ 63 \<Longrightarrow> sint (word_of_int k :: 64 word) = k"
  by (simp add: sint_sbintrunc' signed_take_bit_int_eq_self)

text \<open>
  The time budget of an upload. For every declared size up to 2^53 bytes the budget is two
  minutes plus a second for every started 2 MiB, at most half an hour more; so it lies between
  two and thirty-two minutes, never shrinks as the size grows, and leaves a slow but steady
  upload its time below the cap.
\<close>

theorem sync_budget_bounds:
  assumes "0 \<le> m" and "m \<le> n" and "n \<le> 2 ^ 53"
  shows "sint (SyncUploadBudget (word_of_int n)) =
      2 * minute + (if n = 0 then 0 else min (30 * minute) ((n div sync_rate + 1) * second))
    \<and> 2 * minute \<le> sint (SyncUploadBudget (word_of_int n)) \<and> sint (SyncUploadBudget (word_of_int n)) \<le> 32 * minute
    \<and> sint (SyncUploadBudget (word_of_int m)) \<le> sint (SyncUploadBudget (word_of_int n))"
proof -
  have budget: "sint (SyncUploadBudget (word_of_int k)) =
      2 * minute + (if k = 0 then 0 else min (30 * minute) ((k div sync_rate + 1) * second))"
    if "0 \<le> k" "k \<le> 2 ^ 53" for k
  proof -
    have k: "sint (word_of_int k :: 64 word) = k" using that by (intro small_word) simp_all
    have base: "2 * word_of_int minute = (word_of_int (2 * minute) :: 64 word)"
      "30 * word_of_int minute = (word_of_int (30 * minute) :: 64 word)"
      by (simp_all add: minute_def second_def)
    show ?thesis
    proof (cases "k = 0")
      case True
      then show ?thesis by (simp add: SyncUploadBudget_def Let_def base small_word minute_def second_def)
    next
      case False
      define q where "q = k div sync_rate + 1"
      have q: "0 < q" "q \<le> 2 ^ 32 + 1"
        using that zdiv_mono1 [OF that(2), of sync_rate] by (simp_all add: q_def sync_rate_def pos_imp_zdiv_nonneg_iff)
      have scaled: "word_of_int q * word_of_int second = (word_of_int (q * second) :: 64 word)" by simp
      have qs: "sint (word_of_int (q * second) :: 64 word) = q * second"
        using q by (intro small_word) (simp_all add: second_def)
      have capped: "(if 30 * minute < q * second then word_of_int (30 * minute) else word_of_int (q * second))
          = (word_of_int (min (30 * minute) (q * second)) :: 64 word)" by (simp add: min_def)
      have "SyncUploadBudget (word_of_int k) = word_of_int (2 * minute) + word_of_int (min (30 * minute) (q * second))"
        using that False k unfolding SyncUploadBudget_def Let_def base
        by (simp only: q_def [symmetric] scaled qs capped) simp
      also have "\<dots> = word_of_int (2 * minute + min (30 * minute) (q * second))" by simp
      finally have "sint (SyncUploadBudget (word_of_int k)) = 2 * minute + min (30 * minute) (q * second)"
        using q by (simp only:, intro small_word) (simp_all add: minute_def second_def)
      then show ?thesis using False by (simp add: q_def)
    qed
  qed
  have mono: "m div sync_rate \<le> n div sync_rate" using assms(2) by (rule zdiv_mono1) (simp add: sync_rate_def)
  have nn: "0 \<le> m div sync_rate" using assms(1) by (simp add: sync_rate_def pos_imp_zdiv_nonneg_iff)
  show ?thesis using assms budget [of m] budget [of n] mono nn
    by (auto simp: minute_def second_def min_def)
qed

text \<open>Declared sizes beyond wrap around: the budget of some 17 petabytes is negative.\<close>

theorem sync_budget_wraps: "sint (SyncUploadBudget (word_of_int (9223372036 * 2097152))) < 0"
proof -
  have "sint (word_of_int (9223372036 * 2097152) :: 64 word) = 9223372036 * 2097152"
    by (rule small_word) simp_all
  then have "SyncUploadBudget (word_of_int (9223372036 * 2097152)) = 120000000000 + 9223372037 * 1000000000"
    by (simp add: SyncUploadBudget_def Let_def minute_def second_def sync_rate_def)
  then show ?thesis by simp
qed

section \<open>Witnesses\<close>

definition demo_generic :: "string \<Rightarrow> feature_set" where
  "demo_generic t =
     (if t = TransportStdio then [(FeatSourcePath, True), (FeatCoLocated, True)]
      else if t = TransportHTTP then [(FeatSourceMint, True)]
      else [(FeatSourceURL, True), (FeatSourceData, True)])"


end
