(* ===== verification/Sinks.thy ===== *)
theory Sinks
  imports Json UploadTasks
begin

text \<open>
  \<open>transfer/download_sink.go\<close>: where a download may land and the schema that advertises it;
  \<open>transfer/wrap_name.go\<close>: the name of a wrapped single file, with the HTML part of
  \<open>http.DetectContentType\<close>, whose signatures come first in its table.
\<close>

section \<open>Download sinks\<close>

definition SinkLocal :: string where "SinkLocal = ''local''"
definition SinkDrop :: string where "SinkDrop = ''drop''"

definition sink_Valid :: "string \<Rightarrow> bool" where
  "sink_Valid s \<longleftrightarrow> s = SinkLocal \<or> s = SinkDrop"

definition downloadSinksFor :: "bool \<Rightarrow> bool \<Rightarrow> string list" where
  "downloadSinksFor dropWired tunnelOpenAI =
     [SinkLocal] @ (if dropWired \<and> \<not> tunnelOpenAI then [SinkDrop] else [])"

definition SinkEnumValues :: "bool \<Rightarrow> bool \<Rightarrow> string list" where
  "SinkEnumValues dropWired tunnelOpenAI = map (\<lambda>s. s) (downloadSinksFor dropWired tunnelOpenAI)"

text \<open>
  A decoded object, where the last of equal keys wins; \<open>marshal\<close> is \<open>json.Marshal\<close> on a decoded
  value (with sorted keys), \<open>None\<close> also for a number outside the range of the decoder.
\<close>

definition decoded_object :: "(string \<times> json) list \<Rightarrow> (string, json) gomap" where
  "decoded_object ms = fold (\<lambda>(k, v) m. gset k v m) ms []"

text \<open>The tree with the enumeration replaced, \<open>None\<close> when it does not have the expected shape.\<close>

definition sink_tree :: "(string \<times> json) list \<Rightarrow> bool \<Rightarrow> bool \<Rightarrow> json option" where
  "sink_tree ms dropWired tunnelOpenAI =
     (let root = decoded_object ms
      in (case gget root ''properties'' of
            Some (JObj ps) \<Rightarrow>
              let props = decoded_object ps
              in (case gget props ''sink'' of
                    Some (JObj ss) \<Rightarrow>
                      let sink = gset ''enum'' (JArr (map JStr (SinkEnumValues dropWired tunnelOpenAI))) (decoded_object ss)
                      in Some (JObj (gset ''properties'' (JObj (gset ''sink'' (JObj sink) props)) root))
                  | _ \<Rightarrow> None)
          | _ \<Rightarrow> None))"

definition RewriteSinkEnum :: "(json \<Rightarrow> string option) \<Rightarrow> string \<Rightarrow> bool \<Rightarrow> bool \<Rightarrow> string" where
  "RewriteSinkEnum marshal schema dropWired tunnelOpenAI =
     (case json_parse schema of
        Some (JObj ms) \<Rightarrow>
          (case sink_tree ms dropWired tunnelOpenAI of
             None \<Rightarrow> schema
           | Some out \<Rightarrow> (case marshal out of None \<Rightarrow> schema | Some s \<Rightarrow> s))
      | _ \<Rightarrow> schema)"

text \<open>The member of an object under a path of keys.\<close>

fun member_at :: "string list \<Rightarrow> json \<Rightarrow> json option" where
  "member_at [] v = Some v"
| "member_at (k # ks) (JObj ms) = (case gget ms k of None \<Rightarrow> None | Some v \<Rightarrow> member_at ks v)"
| "member_at (k # ks) v = None"

text \<open>
  The rewritten schema enumerates the sinks of the running server, and every other member of the
  sink, of its siblings and of the root is untouched.
\<close>

theorem sink_enum_rewritten:
  assumes "gget (decoded_object ms) ''properties'' = Some (JObj ps)" and "gget (decoded_object ps) ''sink'' = Some (JObj ss)"
  shows "\<exists>v. sink_tree ms dropWired tunnelOpenAI = Some v
    \<and> member_at [''properties'', ''sink'', ''enum''] v = Some (JArr (map JStr (SinkEnumValues dropWired tunnelOpenAI)))
    \<and> (\<forall>k. k \<noteq> ''enum'' \<longrightarrow> member_at [''properties'', ''sink'', k] v = gget (decoded_object ss) k)
    \<and> (\<forall>k. k \<noteq> ''sink'' \<longrightarrow> member_at [''properties'', k] v = gget (decoded_object ps) k)
    \<and> (\<forall>k. k \<noteq> ''properties'' \<longrightarrow> member_at [k] v = gget (decoded_object ms) k)"
  by (simp add: sink_tree_def assms Let_def option.case_eq_if)

section \<open>The name of a wrapped file\<close>

definition WebsiteIndexFileName :: string where "WebsiteIndexFileName = ''index.html''"

definition sniffHeadLen :: nat where "sniffHeadLen = 512"

definition sniff_space :: "char \<Rightarrow> bool" where
  "sniff_space c \<longleftrightarrow> code_of c \<in> {9, 10, 12, 13, 32}"

text \<open>A letter of a signature is compared with the case bit cleared.\<close>

definition sniff_char :: "char \<Rightarrow> char \<Rightarrow> bool" where
  "sniff_char b c \<longleftrightarrow>
     (if 65 \<le> code_of b \<and> code_of b \<le> 90
      then code_of b = (if odd (code_of c div 32) then code_of c - 32 else code_of c)
      else b = c)"

fun sniff_sig :: "string \<Rightarrow> string \<Rightarrow> bool" where
  "sniff_sig [] (c # r) = (c = CHR '' '' \<or> c = CHR ''>'')"
| "sniff_sig (b # bs) (c # r) = (sniff_char b c \<and> sniff_sig bs r)"
| "sniff_sig bs [] = False"

definition html_signatures :: "string list" where
  "html_signatures =
     [''<!DOCTYPE HTML'', ''<HTML'', ''<HEAD'', ''<SCRIPT'', ''<IFRAME'', ''<H1'', ''<DIV'', ''<FONT'', ''<TABLE'', ''<A'',
      ''<STYLE'', ''<TITLE'', ''<B'', ''<BODY'', ''<BR'', ''<P'', ''<!--'']"

definition sniffs_html :: "string \<Rightarrow> bool" where
  "sniffs_html data = list_ex (\<lambda>sg. sniff_sig sg (dropWhile sniff_space (take 512 data))) html_signatures"

definition ResolveWrappedFileName :: "string \<Rightarrow> bool \<Rightarrow> string \<Rightarrow> string" where
  "ResolveWrappedFileName name wrap head =
     (if \<not> wrap then name
      else if name \<noteq> [] \<and> name \<noteq> DefaultUploadName then name
      else
        let head' = (if sniffHeadLen < length head then take sniffHeadLen head else head)
        in if sniffs_html head' then WebsiteIndexFileName else [])"

text \<open>
  The name of a wrapped file: an explicit name and a bare upload are never renamed, otherwise the
  name is the index page exactly for contents that sniff as HTML, decided by the first 512
  bytes, and a page that opens with a lower-case doctype is one of them.
\<close>

theorem wrapped_name:
  "ResolveWrappedFileName name wrap head =
     (if wrap \<and> (name = [] \<or> name = DefaultUploadName)
      then (if sniffs_html head then WebsiteIndexFileName else []) else name)
   \<and> (sniffs_html head \<longleftrightarrow> sniffs_html (take 512 head))
   \<and> sniffs_html (''  <!doctype html>'' @ r)"
proof -
  have "sniff_sig ''<!DOCTYPE HTML'' (dropWhile sniff_space (take 512 (''  <!doctype html>'' @ r)))"
    by (simp add: sniff_space_def sniff_char_def code_of_def)
  then have "sniffs_html (''  <!doctype html>'' @ r)" by (simp add: sniffs_html_def html_signatures_def)
  moreover have "sniffs_html head \<longleftrightarrow> sniffs_html (take 512 head)" for head by (simp add: sniffs_html_def)
  ultimately show ?thesis by (auto simp: ResolveWrappedFileName_def sniffHeadLen_def Let_def)
qed

end
