(* ===== verification/Resources.thy ===== *)
theory Resources
  imports AppsRegistry
begin

text \<open>
  Plain resources, resource templates and prompts: the descriptors of \<open>model/protocol_model.go\<close>
  and their registration in \<open>sdk/resource.go\<close> and \<open>sdk/prompt.go\<close>. The host's handlers are
  functions of the request; parsing and matching URI templates is the uritemplate library's and
  an argument.
\<close>

section \<open>Descriptors\<close>

record resource_result =
  rr_URI :: string
  rr_MIMEType :: string
  rr_Text :: string

record prompt_message =
  pm_Role :: string
  pm_Text :: string
  pm_EmbeddedResource :: "resource_result option"

record prompt_result =
  pr_Description :: string
  pr_Messages :: "prompt_message list"

record resource_request =
  rq_URI :: string
  rq_Arguments :: "(string, string) gomap"

type_synonym resource_handler = "resource_request \<Rightarrow> (string, resource_result) result"

record resource_descriptor =
  rd_URI :: string
  rd_Name :: string
  rd_Title :: string
  rd_Description :: string
  rd_MIMEType :: string
  rd_Handler :: resource_handler

record resource_template_descriptor =
  rt_URITemplate :: string
  rt_Name :: string
  rt_Title :: string
  rt_Description :: string
  rt_MIMEType :: string
  rt_Handler :: resource_handler

record prompt_argument =
  pa_Name :: string
  pa_Title :: string
  pa_Description :: string
  pa_Required :: bool

type_synonym prompt_handler = "(string, string) gomap \<Rightarrow> (string, prompt_result) result"

record prompt_descriptor =
  pd_Name :: string
  pd_Title :: string
  pd_Description :: string
  pd_Arguments :: "prompt_argument list"
  pd_Handler :: prompt_handler

section \<open>Resources\<close>

definition Resource :: "resource_descriptor \<Rightarrow> listed_resource" where
  "Resource desc =
     \<lparr>lr_URI = rd_URI desc, lr_Name = rd_Name desc, lr_Title = rd_Title desc, lr_Description = rd_Description desc,
      lr_MIMEType = rd_MIMEType desc, lr_Meta = None\<rparr>"

definition read_contents :: "(string, resource_result) result \<Rightarrow> (string, content_item) result" where
  "read_contents res =
     (case res of
        Inl e \<Rightarrow> Inl e
      | Inr r \<Rightarrow> Inr \<lparr>it_URI = rr_URI r, it_MIMEType = rr_MIMEType r, it_Text = rr_Text r, it_Meta = None\<rparr>)"

text \<open>The SDK's handlers take the concrete URI of the request.\<close>

definition resourceHandler :: "resource_handler \<Rightarrow> string \<Rightarrow> (string, content_item) result" where
  "resourceHandler handler uri = read_contents (handler \<lparr>rq_URI = uri, rq_Arguments = []\<rparr>)"

text \<open>A variable's value in a match of the template library.\<close>

datatype template_value = Undefined | StringValue string | ListValue "string list" | KVValue "string list"

fun join :: "string \<Rightarrow> string list \<Rightarrow> string" where
  "join sep [] = []"
| "join sep [s] = s"
| "join sep (s # t # ss) = s @ sep @ join sep (t # ss)"

definition template_argument :: "string \<times> template_value \<Rightarrow> (string, string) gomap \<Rightarrow> (string, string) gomap" where
  "template_argument nv arguments =
     (case snd nv of
        Undefined \<Rightarrow> arguments
      | StringValue s \<Rightarrow> gset (fst nv) s arguments
      | KVValue kv \<Rightarrow> gset (fst nv) (join '','' kv) arguments
      | ListValue vs \<Rightarrow> gset (fst nv) (join '','' vs) arguments)"

definition resourceTemplateHandler ::
  "(string \<Rightarrow> (string, template_value) gomap) \<Rightarrow> resource_handler \<Rightarrow> string \<Rightarrow> (string, content_item) result" where
  "resourceTemplateHandler matches handler uri =
     read_contents (handler \<lparr>rq_URI = uri, rq_Arguments = fold template_argument (matches uri) []\<rparr>)"

record listed_template =
  lt_URITemplate :: string
  lt_Name :: string
  lt_Title :: string
  lt_Description :: string
  lt_MIMEType :: string

record official_prompt =
  op_Name :: string
  op_Title :: string
  op_Description :: string
  op_Arguments :: "prompt_argument list"

datatype prompt_content = TextContent string | EmbeddedResource resource_result

record get_prompt_result =
  gp_Description :: string
  gp_Messages :: "(string \<times> prompt_content) list"

record sdk_server =
  ss_resources :: "(string, listed_resource \<times> (string \<Rightarrow> (string, content_item) result)) gomap"
  ss_templates :: "(string, listed_template \<times> (string \<Rightarrow> (string, content_item) result)) gomap"
  ss_prompts :: "(string, official_prompt \<times> ((string, string) gomap \<Rightarrow> (string, get_prompt_result) result)) gomap"

definition add_resource :: "resource_descriptor \<Rightarrow> sdk_server \<Rightarrow> sdk_server" where
  "add_resource r s = s\<lparr>ss_resources := gset (rd_URI r) (Resource r, resourceHandler (rd_Handler r)) (ss_resources s)\<rparr>"

text \<open>
  A registration that panics stops where it is: what came before it stays registered.
  \<open>parse_template\<close> gives the match function of a valid template.
\<close>

datatype registration = Refused string | Registered sdk_server | Panicked sdk_server

fun add_templates ::
  "(string \<Rightarrow> (string \<Rightarrow> (string, template_value) gomap) option) \<Rightarrow> resource_template_descriptor list \<Rightarrow> sdk_server \<Rightarrow>
   registration" where
  "add_templates parse_template [] s = Registered s"
| "add_templates parse_template (t # ts) s =
     (case parse_template (rt_URITemplate t) of
        None \<Rightarrow> Panicked s
      | Some matches \<Rightarrow> add_templates parse_template ts
          (s\<lparr>ss_templates := gset (rt_URITemplate t)
              (\<lparr>lt_URITemplate = rt_URITemplate t, lt_Name = rt_Name t, lt_Title = rt_Title t,
                lt_Description = rt_Description t, lt_MIMEType = rt_MIMEType t\<rparr>,
               resourceTemplateHandler matches (rt_Handler t)) (ss_templates s)\<rparr>))"

definition RegisterResources ::
  "(string \<Rightarrow> (string \<Rightarrow> (string, template_value) gomap) option) \<Rightarrow> sdk_server option \<Rightarrow> resource_descriptor list \<Rightarrow>
   resource_template_descriptor list \<Rightarrow> registration" where
  "RegisterResources parse_template srv resources templates =
     (case srv of
        None \<Rightarrow> Refused ''nil official server''
      | Some s \<Rightarrow> add_templates parse_template templates (fold add_resource resources s))"

section \<open>Prompts\<close>

definition Prompt :: "prompt_descriptor \<Rightarrow> official_prompt" where
  "Prompt desc =
     \<lparr>op_Name = pd_Name desc, op_Title = pd_Title desc, op_Description = pd_Description desc,
      op_Arguments = map (\<lambda>a. \<lparr>pa_Name = pa_Name a, pa_Title = pa_Title a, pa_Description = pa_Description a,
        pa_Required = pa_Required a\<rparr>) (pd_Arguments desc)\<rparr>"

definition messageContent :: "prompt_message \<Rightarrow> string \<times> prompt_content" where
  "messageContent msg =
     (pm_Role msg, case pm_EmbeddedResource msg of Some r \<Rightarrow> EmbeddedResource r | None \<Rightarrow> TextContent (pm_Text msg))"

definition promptHandler :: "prompt_handler \<Rightarrow> (string, string) gomap \<Rightarrow> (string, get_prompt_result) result" where
  "promptHandler handler arguments =
     (case handler arguments of
        Inl e \<Rightarrow> Inl e
      | Inr r \<Rightarrow> Inr \<lparr>gp_Description = pr_Description r, gp_Messages = map messageContent (pr_Messages r)\<rparr>)"

definition add_prompt :: "prompt_descriptor \<Rightarrow> sdk_server \<Rightarrow> sdk_server" where
  "add_prompt p s = s\<lparr>ss_prompts := gset (pd_Name p) (Prompt p, promptHandler (pd_Handler p)) (ss_prompts s)\<rparr>"

definition RegisterPrompts :: "sdk_server option \<Rightarrow> prompt_descriptor list \<Rightarrow> (string, sdk_server) result" where
  "RegisterPrompts srv prompts =
     (case srv of None \<Rightarrow> Inl ''nil official server'' | Some s \<Rightarrow> Inr (fold add_prompt prompts s))"

section \<open>What is registered\<close>

lemma fold_add_resource:
  "gget (ss_resources (fold add_resource rs s)) uri =
     (case find (\<lambda>r. rd_URI r = uri) (rev rs) of
        Some r \<Rightarrow> Some (Resource r, resourceHandler (rd_Handler r))
      | None \<Rightarrow> gget (ss_resources s) uri)"
  by (induction rs rule: rev_induct) (simp_all add: add_resource_def)

lemma fold_add_resource_templates: "ss_templates (fold add_resource rs s) = ss_templates s"
  by (induction rs rule: rev_induct) (simp_all add: add_resource_def)

lemma add_templates_resources:
  "case add_templates pt ts s of Refused e \<Rightarrow> False | Registered s' \<Rightarrow> ss_resources s' = ss_resources s
     | Panicked s' \<Rightarrow> ss_resources s' = ss_resources s"
proof (induction ts arbitrary: s)
  case Nil
  then show ?case by simp
next
  case (Cons t ts)
  show ?case
  proof (cases "pt (rt_URITemplate t)")
    case None
    then show ?thesis by simp
  next
    case (Some matches)
    then show ?thesis using Cons.IH by (force split: registration.splits)
  qed
qed

lemma add_templates_panics:
  "(\<exists>s'. add_templates pt ts s = Panicked s') \<longleftrightarrow> (\<exists>t \<in> set ts. pt (rt_URITemplate t) = None)"
  by (induction ts arbitrary: s) (auto split: option.split)

text \<open>
  Registration of resources, for every list: it fails only for a nil server, and panics exactly
  when some template is invalid; even then the resources are all registered, each URI served by
  the last descriptor that has it.
\<close>

theorem register_resources_outcome:
  "case RegisterResources pt srv resources templates of
     Refused e \<Rightarrow> srv = None
   | Registered s' \<Rightarrow> (\<forall>t \<in> set templates. pt (rt_URITemplate t) \<noteq> None)
       \<and> (\<exists>s. srv = Some s \<and> (\<forall>uri. gget (ss_resources s') uri =
           (case find (\<lambda>r. rd_URI r = uri) (rev resources) of
              Some r \<Rightarrow> Some (Resource r, resourceHandler (rd_Handler r))
            | None \<Rightarrow> gget (ss_resources s) uri)))
   | Panicked s' \<Rightarrow> (\<exists>t \<in> set templates. pt (rt_URITemplate t) = None)
       \<and> (\<exists>s. srv = Some s \<and> (\<forall>uri. gget (ss_resources s') uri =
           (case find (\<lambda>r. rd_URI r = uri) (rev resources) of
              Some r \<Rightarrow> Some (Resource r, resourceHandler (rd_Handler r))
            | None \<Rightarrow> gget (ss_resources s) uri)))"
proof (cases srv)
  case None
  then show ?thesis by (simp add: RegisterResources_def)
next
  case (Some s)
  let ?r = "add_templates pt templates (fold add_resource resources s)"
  have r: "RegisterResources pt srv resources templates = ?r" by (simp add: RegisterResources_def Some)
  note keep = add_templates_resources [where pt = pt and ts = templates and s = "fold add_resource resources s"]
  note panics = add_templates_panics [where pt = pt and ts = templates and s = "fold add_resource resources s"]
  show ?thesis
  proof (cases ?r)
    case (Refused e)
    then show ?thesis using keep by simp
  next
    case (Registered s')
    then show ?thesis unfolding r using keep panics by (simp add: Some fold_add_resource)
  next
    case (Panicked s')
    then show ?thesis unfolding r using keep panics by (simp add: Some fold_add_resource)
  qed
qed

end
