(* ===== verification/Spec2Isabelle.thy ===== *)
theory Spec2Isabelle
  imports Ids SessionStore AsyncHandles Model Loopback Handoff HandoffRegistry UploadProps UploadProgress UploadHttp DownloadHttp
    RequestState ResumeTool TreeSize UploadSource Sinks AppViews Resources
begin

text \<open>
  Verification of mcpplane, the transport and session library behind an MCP server: what its
  packages under \<open>src/\<close> do with sessions, human hand-offs, file transfers, tool calls and app
  views, modelled in Isabelle/HOL and proved.

  \<^bold>\<open>The program.\<close> A tool call reaches the server through the adapter (\<open>sdk/handler.go\<close>), which
  decodes its arguments, adds what an elicitation round brought back and runs the host's
  handler. Long flows keep their state in the session store or the async handle store
  (\<open>session/\<close>); a flow that needs a person hands out a one-time link (\<open>handoff/handoff.go\<close>)
  and is polled with a resume tool over the registry of continuations
  (\<open>handoff/handoff_registry.go\<close>). File bytes come in through one-time upload endpoints
  (\<open>transfer/upload_http.go\<close>) into the upload task manager (\<open>transfer/upload_tasks.go\<close>), or from
  an HTTPS relay and data: URIs (\<open>ieo/\<close>); they leave through one-time download endpoints
  (\<open>transfer/download_http.go\<close>). App views (\<open>apps/\<close>, \<open>sdk/apps_registry.go\<close>) are HTML resources
  attached to tools. What the client can do is recorded per request (\<open>sdk/capsbuilder.go\<close>).

  \<^bold>\<open>Conventions.\<close> A Go map is an association list without duplicate keys (\<open>gomap\<close>), whose
  order stands for the order a range loop happens to visit it in; theorems hold for every
  order. A struct is a record, an error a \<open>result\<close> (\<open>Inl\<close> the error), a nil pointer or map
  \<open>None\<close>. Times and durations are integers in nanoseconds, and a clock reading is an argument.
  Sizes are integers where the code cannot overflow and 64-bit words, with the wrap-around,
  where it can (\<open>TreeSize\<close>, \<open>DataUri\<close>, \<open>UploadSource\<close>, \<open>itoa\<close> in \<open>DownloadHttp\<close>). A section of
  code under one mutex is one function on the state; code that releases the mutex takes the
  actions of others in between as an argument or is a step of a transition system.
\<close>

text \<open>
  \<^bold>\<open>Shared theories.\<close>
  \<^item> \<open>Prelude\<close>: Go maps (collection \<open>gomap_facts\<close>), clocks, and the string functions of the
    standard library that the code uses. \<open>Encodings\<close>: decimal numerals, base64, UTF-8 repair and
    query unescaping. \<open>Json\<close>: \<open>encoding/json\<close> on values; the parser recurses on fuel, and
    \<open>2 * length s + 1\<close> steps are enough: more never change its result (\<open>json_parse_steps\<close>).
  \<^item> \<open>Http\<close>: requests, responses and the credential context of \<open>credctx/credctx.go\<close>.
  \<^item> \<open>Contracts\<close>: the interfaces. \<open>expiring_store\<close> is interpreted as \<open>sstore\<close> (\<open>SessionStore\<close>) and
    \<open>hstore\<close> (\<open>AsyncHandles\<close>); \<open>one_time_tokens\<close> as \<open>handoffs\<close> (\<open>Handoff\<close>), \<open>uploads\<close>
    (\<open>UploadHttp\<close>) and \<open>downloads\<close> (\<open>DownloadHttp\<close>).
  \<^item> \<open>Readers\<close>: the \<open>io.Reader\<close> contract as locale \<open>byte_source\<close>, with \<open>capped_source\<close> and
    \<open>bounded_source\<close> for a reader around another; sublocales give the contract of the wrapper
    (\<open>limitedReadCloser\<close>, \<open>boundedDataReader\<close>), and the interpretations \<open>any\<close>, \<open>relay_body\<close> and
    \<open>data_body\<close> instantiate them on readers that deliver any chunks they like.

  \<^bold>\<open>Sessions and flows.\<close>
  \<^item> \<open>SessionStore\<close> (\<open>session/session.go\<close>) and \<open>AsyncHandles\<close> (\<open>session/async.go\<close>): the stores,
    their invariants, eviction and lifetimes, and \<open>AdvanceSession\<close>. \<open>Ids\<close> (\<open>session/id.go\<close>):
    identifiers and route tokens. \<open>RequestState\<close> (\<open>session/request_state.go\<close>): the signed state a
    client echoes; it opens to its payload until it expires, is accepted only with the keyed
    hash, and lives longer than a session. The keyed hash is an argument.
  \<^item> \<open>Loopback\<close> (\<open>transport/loopback/loopback.go\<close>): origins and URLs of the one-time routes.
  \<^item> \<open>Handoff\<close> (\<open>handoff/handoff.go\<close>, \<open>notactive.go\<close>, \<open>sameorigin.go\<close>): the endpoint, its tombstones
    and the request handler. The abstract state of a link (\<open>link_state\<close>: unknown, used, expired
    or live) decides every response; a consumed link stays consumed; a POST from a foreign
    origin never reaches the handler.
  \<^item> \<open>HandoffRegistry\<close> and \<open>ResumeTool\<close> (\<open>handoff/handoff_registry.go\<close>): continuations and the resume
    tool, then the tool behind the adapter: a finished flow is never resumed again.
\<close>

text \<open>
  \<^bold>\<open>Transfers.\<close>
  \<^item> \<open>UploadTasks\<close> (\<open>transfer/upload_tasks.go\<close>): the manager and its operations. \<open>UploadSystem\<close>: the
    manager with its goroutines, watchdogs and pending closes as a transition system (\<open>ustep\<close>,
    \<open>ureach\<close>). \<open>UploadProps\<close>: outcomes are final, readers are closed exactly once, the executor
    runs at most once per handle, the caps hold. \<open>UploadProgress\<close>: every schedule of the work in
    flight ends, within eight steps per upload and one per pending close.
  \<^item> \<open>UploadHttp\<close> (\<open>transfer/upload_http.go\<close>): minting, preparing and claiming endpoints and the PUT
    handler, with the actions of others between its sections. \<open>DownloadHttp\<close>
    (\<open>transfer/download_http.go\<close>, \<open>download_limits.go\<close>): the GET handler, the deferred and the
    size-limited writer, the accounting of cleanup hooks, and file names in headers.
  \<^item> \<open>FileRelay\<close> (\<open>ieo/file_relay.go\<close>): validation, the address classes, the dial guard, the
    redirect policy (at most three requests, by which \<open>relay_do\<close> terminates) and the capped body.
    \<open>DataUri\<close> (\<open>ieo/file_data_uri.go\<close>): parsing, the decoded length and the bounded reader.
    \<open>TreeSize\<close> (\<open>ieo/tree_size.go\<close>): both walks against the sum of the file sizes.
  \<^item> \<open>UploadSource\<close> (\<open>transfer/upload_source.go\<close>, \<open>chatgpt_upload.go\<close>): which sources a transport
    offers, accepts and opens. \<open>Sinks\<close> (\<open>transfer/download_sink.go\<close>, \<open>wrap_name.go\<close>): the published
    sinks and the name of wrapped files.

  \<^bold>\<open>Tools, resources and app views.\<close>
  \<^item> \<open>Model\<close> and \<open>Profile\<close> (\<open>model/\<close>): results, hand-off texts, features, profiles. \<open>Catalog\<close>
    (\<open>model/protocol_model.go\<close>, \<open>catalog_types.go\<close>, \<open>tool_target.go\<close>, \<open>sdk/tool.go\<close>,
    \<open>toolargs/file_tools_args.go\<close>): descriptors, entries, official tools, result texts.
  \<^item> \<open>CapsBuilder\<close> (\<open>sdk/capsbuilder.go\<close>): the capabilities of a request and the redaction of
    headers and token claims, at every depth of a claim.
  \<^item> \<open>Adapter\<close> (\<open>sdk/handler.go\<close>, \<open>sdk/elicitation.go\<close>, \<open>model/elicitation.go\<close>): every outcome of a
    call, and the round trip of an elicitation with the signed state of \<open>RequestState\<close>.
  \<^item> \<open>AppsRegistry\<close> (\<open>sdk/apps_registry.go\<close>, \<open>model/app_meta.go\<close>): the retained registrations of
    app resources against the abstract registry \<open>spec_do\<close>, which every sequence of operations
    refines. \<open>AppViews\<close> (\<open>apps/apps_lib.go\<close>, \<open>open_launcher.go\<close>, \<open>forgeutil/forgeutil.go\<close>,
    \<open>sdk/server.go\<close>, \<open>sdk/caps.go\<close>): views, launchers, advertised capabilities. \<open>Resources\<close>
    (\<open>sdk/resource.go\<close>, \<open>sdk/prompt.go\<close>): resources, templates and prompts.

  \<^bold>\<open>Arguments of the model\<close>, for code outside \<open>src/\<close>: the platform detector and its generic
  profiles, the SDK server (a table of what was registered; names, URIs and schemas it
  would refuse with a panic of its own are outside the model), \<open>net/url\<close>, the resolver and the
  servers of the relay, the URI template library, the fallback targets of mcpforge, the
  reflected schemas and struct decodings, \<open>json.Marshal\<close> on types of the host, the keyed hash,
  random bytes, the upload executor, and the handlers of the host.

  \<^bold>\<open>Not modelled\<close>: \<open>sdk/httphandler.go\<close> and the stdio functions of \<open>sdk/server.go\<close> (they hand
  options to the SDK), \<open>toolargs/schema.go\<close> (a call of the schema reflector), the CORS wrappers
  and route registrations (library glue over the handlers, which are modelled), loggers, the
  constants of \<open>errors.go\<close> (nothing under \<open>src/\<close> uses them), and the generated mocks.
\<close>

end
